(* ===== verification/Hs_Prelude.thy ===== *)
theory Hs_Prelude
  imports Main "HOL-Library.Word" "HOL-Library.Multiset" "HOL-Library.AList"
begin

text \<open>
  Shared vocabulary of the development: the Go types the program uses, the result type in
  which every panic and every \<^verbatim>\<open>log.Fatal\<close> of the source is a value, a small calculus of
  total correctness for that result type, Go maps as association lists, and the generic
  facts on sums and multisets the components rely on.
\<close>

section \<open>Types\<close>

text \<open>
  Trace ids are \<^verbatim>\<open>uint64\<close> and keep their width.  \<^verbatim>\<open>time.Time\<close> and
  \<^verbatim>\<open>time.Duration\<close> are nanoseconds.  Counters are Go \<^verbatim>\<open>int\<close>s; they count buffers and
  traces held in memory and never come near the 64-bit bounds, so they are mathematical
  integers.
\<close>

type_synonym u64 = "64 word"
type_synonym time = int
type_synonym duration = int
type_synonym buffer = int

section \<open>Results: panics and fatal errors as values\<close>

text \<open>
  \<^item> \<open>Fatal msg\<close>: the source calls \<^verbatim>\<open>log.Fatal(msg)\<close>, which ends the process;
  \<^item> \<open>NilDeref\<close>: a nil pointer, a nil interface or a missing list element is used;
  \<^item> \<open>IndexOutOfRange\<close>: a slice is indexed outside its length;
  \<^item> \<open>DivideByZero\<close>: an integer division by zero;
  \<^item> \<open>Diverges\<close>: a loop of the source does not come to an end.
\<close>

datatype go_error = Fatal string | NilDeref | IndexOutOfRange | DivideByZero | Diverges

type_synonym 'a result = "go_error + 'a"

definition rbind :: "'e + 'a \<Rightarrow> ('a \<Rightarrow> 'e + 'b) \<Rightarrow> 'e + 'b" where
  "rbind r f = (case r of Inl e \<Rightarrow> Inl e | Inr x \<Rightarrow> f x)"

text \<open>A Go \<^verbatim>\<open>for range\<close> loop whose body may stop the program.\<close>

fun rfold :: "('x \<Rightarrow> 's \<Rightarrow> 'e + 's) \<Rightarrow> 'x list \<Rightarrow> 's \<Rightarrow> 'e + 's" where
  "rfold f [] s = Inr s"
| "rfold f (x # xs) s = rbind (f x s) (rfold f xs)"

text \<open>
  A loop defined by \<^theory_text>\<open>partial_function (option)\<close> is \<open>None\<close> where it does not return;
  \<open>returns\<close> turns that into the error \<open>Diverges\<close>.
\<close>

definition returns :: "'a result option \<Rightarrow> 'a result" where
  "returns r = (case r of None \<Rightarrow> Inl Diverges | Some x \<Rightarrow> x)"

definition deref :: "'a option \<Rightarrow> 'a result" where
  "deref p = (case p of None \<Rightarrow> Inl NilDeref | Some x \<Rightarrow> Inr x)"

text \<open>Total correctness: the computation ends normally and its value satisfies \<open>P\<close>.\<close>

definition ok :: "'e + 'a \<Rightarrow> ('a \<Rightarrow> bool) \<Rightarrow> bool" where
  "ok r P = (case r of Inl e \<Rightarrow> False | Inr x \<Rightarrow> P x)"

named_theorems ok_rules \<open>rules that prove the total correctness of a computation\<close>

lemma rbind_simps [simp]: "rbind (Inl e) f = Inl e" "rbind (Inr x) f = f x"
  by (simp_all add: rbind_def)

lemma rbind_eq_Inr: "rbind r f = Inr y \<longleftrightarrow> (\<exists>x. r = Inr x \<and> f x = Inr y)"
  by (cases r) simp_all

lemma rbind_assoc: "rbind (rbind r f) g = rbind r (\<lambda>x. rbind (f x) g)"
  by (cases r) simp_all

lemma returns_simps [simp]: "returns None = Inl Diverges" "returns (Some r) = r"
  by (simp_all add: returns_def)

lemma deref_simps [simp]: "deref None = Inl NilDeref" "deref (Some x) = Inr x"
  by (simp_all add: deref_def)

lemma ok_simps [simp]: "ok (Inl e) P = False" "ok (Inr x) P = P x"
  by (simp_all add: ok_def)

lemma ok_iff: "ok r P \<longleftrightarrow> (\<exists>x. r = Inr x \<and> P x)"
  by (cases r) simp_all

lemma ok_bind [ok_rules]: "ok r P \<Longrightarrow> (\<And>x. P x \<Longrightarrow> ok (f x) Q) \<Longrightarrow> ok (rbind r f) Q"
  by (cases r) simp_all

lemma ok_mono: "ok r P \<Longrightarrow> (\<And>x. P x \<Longrightarrow> Q x) \<Longrightarrow> ok r Q"
  by (cases r) simp_all

lemma ok_conj: "ok r P \<Longrightarrow> ok r Q \<Longrightarrow> ok r (\<lambda>x. P x \<and> Q x)"
  by (cases r) simp_all

lemma ok_D: "ok r P \<Longrightarrow> r = Inr x \<Longrightarrow> P x"
  by simp

lemma rfold_append: "rfold f (xs @ ys) s = rbind (rfold f xs s) (rfold f ys)"
  by (induction xs arbitrary: s) (simp_all add: rbind_def split: sum.split)

text \<open>The loop rule: an invariant over the part of the list already visited.\<close>

lemma ok_rfold:
  assumes init: "I [] s"
    and step: "\<And>ys x zs s. xs = ys @ x # zs \<Longrightarrow> I ys s \<Longrightarrow> ok (f x s) (I (ys @ [x]))"
  shows "ok (rfold f xs s) (I xs)"
proof -
  have "ok (rfold f zs s) (I (ys @ zs))" if "xs = ys @ zs" "I ys s" for ys zs s
    using that
  proof (induction zs arbitrary: ys s)
    case Nil
    then show ?case by simp
  next
    case (Cons x zs)
    from step [OF Cons.prems] have "ok (f x s) (I (ys @ [x]))" .
    moreover have "ok (rfold f zs s') (I ((ys @ [x]) @ zs))" if "I (ys @ [x]) s'" for s'
      using Cons.IH [of "ys @ [x]" s'] Cons.prems(1) that by simp
    ultimately show ?case by (auto intro: ok_bind)
  qed
  from this [of "[]" xs s] init show ?thesis by simp
qed

text \<open>The special case of an invariant that does not depend on the position.\<close>

lemma ok_rfold_inv:
  assumes "I s" and "\<And>x s. x \<in> set xs \<Longrightarrow> I s \<Longrightarrow> ok (f x s) I"
  shows "ok (rfold f xs s) I"
  using ok_rfold [where I = "\<lambda>_. I" and xs = xs and s = s and f = f] assms by auto

section \<open>Go maps\<close>

text \<open>
  A Go map is an association list with distinct keys.  \<^verbatim>\<open>range\<close> visits the entries in the
  order of the list.  Go leaves that order open: a theorem about an operation quantifies over
  every state, so over every order of every map in it, and the step relation of the agent may
  reorder its maps between two events.
\<close>

type_synonym ('k, 'v) gomap = "('k \<times> 'v) list"

abbreviation mget :: "('k, 'v) gomap \<Rightarrow> 'k \<Rightarrow> 'v option" where
  "mget \<equiv> map_of"

abbreviation mput :: "'k \<Rightarrow> 'v \<Rightarrow> ('k, 'v) gomap \<Rightarrow> ('k, 'v) gomap" where
  "mput \<equiv> AList.update"

abbreviation mdel :: "'k \<Rightarrow> ('k, 'v) gomap \<Rightarrow> ('k, 'v) gomap" where
  "mdel \<equiv> AList.delete"

abbreviation mkeys :: "('k, 'v) gomap \<Rightarrow> 'k list" where
  "mkeys m \<equiv> map fst m"

abbreviation mvals :: "('k, 'v) gomap \<Rightarrow> 'v list" where
  "mvals m \<equiv> map snd m"

definition mok :: "('k, 'v) gomap \<Rightarrow> bool" where
  "mok m \<longleftrightarrow> distinct (mkeys m)"

named_theorems gomap_simps \<open>lookup in, and shape of, updated Go maps\<close>

lemma mget_mput [gomap_simps]: "mget (mput k v m) = (mget m)(k \<mapsto> v)"
  by (rule update_conv')

lemma mget_mdel [gomap_simps]: "mget (mdel k m) = (mget m)(k := None)"
  by (rule delete_conv')

lemma mok_Nil [simp]: "mok []"
  by (simp add: mok_def)

lemma mok_mput [simp]: "mok m \<Longrightarrow> mok (mput k v m)"
  by (simp add: mok_def distinct_update)

lemma mok_mdel [simp]: "mok m \<Longrightarrow> mok (mdel k m)"
  by (simp add: mok_def distinct_delete)

lemma dom_mput: "fst ` set (mput k v m) = insert k (fst ` set m)"
  by (simp add: dom_update)

lemma mget_set: "mok m \<Longrightarrow> mget m k = Some v \<longleftrightarrow> (k, v) \<in> set m"
  by (simp add: mok_def)

lemma mget_None_keys: "mget m k = None \<longleftrightarrow> k \<notin> set (mkeys m)"
  by (simp add: map_of_eq_None_iff)

lemma mput_fresh: "k \<notin> set (mkeys m) \<Longrightarrow> mput k v m = m @ [(k, v)]"
  by (induction m) auto

lemma mget_in_vals: "mget m k = Some v \<Longrightarrow> v \<in> set (mvals m)"
  by (force dest: map_of_SomeD)

lemma mput_nonempty [simp]: "mput k v m \<noteq> []"
  by (cases m) auto

lemma mdel_mset:
  assumes "mok m" and "mget m k = Some v"
  shows "mset m = add_mset (k, v) (mset (mdel k m))"
  using assms
proof (induction m)
  case Nil
  then show ?case by simp
next
  case (Cons p m)
  show ?case
  proof (cases "fst p = k")
    case True
    with Cons.prems have "k \<notin> set (mkeys m)" and "p = (k, v)"
      by (auto simp: mok_def)
    then show ?thesis by (simp add: delete_id [of k m])
  next
    case False
    with Cons.prems Cons.IH show ?thesis
      by (cases p) (auto simp: mok_def split: if_splits)
  qed
qed

lemma length_mdel:
  assumes "mok m" and "mget m k = Some v"
  shows "length m = Suc (length (mdel k m))"
  using arg_cong [OF mdel_mset [OF assms], of size] by simp

lemma filter_key_mdel: "filter (\<lambda>p. fst p \<noteq> k) m = mdel k m"
  by (induction m) auto

section \<open>Sums over maps\<close>

text \<open>
  The counters of the program are sums over the entries of a map.  The three lemmas say what
  happens to such a sum when an entry is added, when one is deleted, and when the summand
  changes at a single entry.
\<close>

definition msum :: "('k \<times> 'v \<Rightarrow> 'n::comm_monoid_add) \<Rightarrow> ('k, 'v) gomap \<Rightarrow> 'n" where
  "msum h m = sum_mset (image_mset h (mset m))"

lemma msum_Nil [simp]: "msum h [] = 0"
  by (simp add: msum_def)

lemma msum_Cons [simp]: "msum h (p # m) = h p + msum h m"
  by (simp add: msum_def)

lemma msum_append [simp]: "msum h (m @ n) = msum h m + msum h n"
  by (simp add: msum_def)

lemma msum_put_fresh: "mget m k = None \<Longrightarrow> msum h (mput k v m) = msum h m + h (k, v)"
  by (simp add: mget_None_keys mput_fresh)

lemma msum_del:
  assumes "mok m" and "mget m k = Some v"
  shows "msum h m = h (k, v) + msum h (mdel k m)"
  by (simp add: msum_def mdel_mset [OF assms])

lemma msum_cong:
  assumes "\<And>k v. (k, v) \<in> set m \<Longrightarrow> h (k, v) = h' (k, v)"
  shows "msum h m = msum h' m"
  unfolding msum_def by (rule arg_cong [where f = sum_mset], rule image_mset_cong) (use assms in auto)

lemma msum_change:
  assumes m: "mok m" "mget m k = Some v"
    and other: "\<And>k' v'. (k', v') \<in> set m \<Longrightarrow> k' \<noteq> k \<Longrightarrow> h' (k', v') = h (k', v')"
  shows "h (k, v) + msum h' m = h' (k, v) + msum h m"
proof -
  have "k' \<noteq> k \<and> (k', v') \<in> set m" if "(k', v') \<in> set (mdel k m)" for k' v'
    using that by (auto simp: AList.delete_eq)
  then have "msum h' (mdel k m) = msum h (mdel k m)"
    using other by (auto intro!: msum_cong)
  with msum_del [OF m, of h] msum_del [OF m, of h'] show ?thesis
    by (simp add: ac_simps)
qed

lemma msum_mset: "mset m = mset n \<Longrightarrow> msum h m = msum h n"
  by (simp add: msum_def)

lemma msum_zero: "(\<And>k v. (k, v) \<in> set m \<Longrightarrow> h (k, v) = 0) \<Longrightarrow> msum h m = 0"
  by (induction m) auto

lemma msum_nonneg:
  "(\<And>k v. (k, v) \<in> set m \<Longrightarrow> 0 \<le> (h (k, v) :: int)) \<Longrightarrow> 0 \<le> msum h m"
  by (induction m) force+

lemma msum_pos_ex:
  assumes "0 < (msum h m :: int)"
  obtains k v where "(k, v) \<in> set m" "0 < h (k, v)"
  using assms
proof (induction m arbitrary: thesis)
  case Nil
  then show ?case by simp
next
  case (Cons p m)
  show ?case
  proof (cases "0 < h p")
    case True
    then show ?thesis using Cons.prems(1) [of "fst p" "snd p"] by simp
  next
    case False
    then have "0 < msum h m" using Cons.prems(2) by simp
    then show ?thesis using Cons.IH [of thesis] Cons.prems(1) by auto
  qed
qed

lemma msum_ge_member:
  assumes "\<And>k v. (k, v) \<in> set m \<Longrightarrow> 0 \<le> (h (k, v) :: int)" and "(k, v) \<in> set m"
  shows "h (k, v) \<le> msum h m"
  using assms
proof (induction m)
  case Nil
  then show ?case by simp
next
  case (Cons p m)
  from Cons.prems(1) have h: "0 \<le> h p" "0 \<le> msum h m"
    by (cases p; auto intro!: msum_nonneg)+
  show ?case
  proof (cases "(k, v) = p")
    case True
    with h show ?thesis by simp
  next
    case False
    with Cons have "h (k, v) \<le> msum h m" by simp
    with h show ?thesis by simp
  qed
qed

lemma msum_of_nat: "msum (\<lambda>p. int (f p)) m = int (msum f m)"
  by (induction m) auto

lemma sum_list_strict_mono_one:
  assumes "\<And>x. x \<in> set xs \<Longrightarrow> g x \<le> (h x :: nat)" and "y \<in> set xs" and "g y < h y"
  shows "sum_list (map g xs) < sum_list (map h xs)"
proof -
  obtain us vs where "xs = us @ y # vs" using assms(2) by (auto simp: in_set_conv_decomp)
  moreover have "sum_list (map g us) \<le> sum_list (map h us)" "sum_list (map g vs) \<le> sum_list (map h vs)"
    using assms(1) by (auto simp: \<open>xs = _\<close> intro!: sum_list_mono)
  ultimately show ?thesis using assms(3) by simp
qed

end
