(* ===== verification/Go_List.thy ===== *)
theory Go_List
  imports Hs_Prelude
begin

text \<open>
  The part of Go's \<^verbatim>\<open>container/list\<close> the program uses.  A \<^verbatim>\<open>*list.Element\<close> handle is a
  number that the list gives out once and never again, so that two elements with equal values
  stay apart, a removed handle stays dead, and \<^verbatim>\<open>Remove\<close> and \<^verbatim>\<open>MoveToFront\<close> of a dead
  handle do nothing, as in Go.  The locale \<open>element_list\<close> is the contract the least-recently-used
  lists of the agent and of the coordinator rely on.
\<close>

record 'a golist =
  elems :: "(nat \<times> 'a) list"
  fresh :: nat

definition list_New :: "'a golist" where
  "list_New = \<lparr>elems = [], fresh = 0\<rparr>"

definition list_PushFront :: "'a \<Rightarrow> 'a golist \<Rightarrow> nat \<times> 'a golist" where
  "list_PushFront v l =
     (fresh l, l\<lparr>elems := (fresh l, v) # elems l, fresh := Suc (fresh l)\<rparr>)"

definition list_PushBack :: "'a \<Rightarrow> 'a golist \<Rightarrow> nat \<times> 'a golist" where
  "list_PushBack v l =
     (fresh l, l\<lparr>elems := elems l @ [(fresh l, v)], fresh := Suc (fresh l)\<rparr>)"

definition list_Remove :: "nat \<Rightarrow> 'a golist \<Rightarrow> 'a golist" where
  "list_Remove e l = l\<lparr>elems := filter (\<lambda>p. fst p \<noteq> e) (elems l)\<rparr>"

definition list_MoveToFront :: "nat \<Rightarrow> 'a golist \<Rightarrow> 'a golist" where
  "list_MoveToFront e l =
     (case map_of (elems l) e of
        None \<Rightarrow> l
      | Some v \<Rightarrow> l\<lparr>elems := (e, v) # filter (\<lambda>p. fst p \<noteq> e) (elems l)\<rparr>)"

definition list_Front :: "'a golist \<Rightarrow> (nat \<times> 'a) option" where
  "list_Front l = (case elems l of [] \<Rightarrow> None | p # _ \<Rightarrow> Some p)"

definition list_Back :: "'a golist \<Rightarrow> (nat \<times> 'a) option" where
  "list_Back l = (if elems l = [] then None else Some (last (elems l)))"

definition list_Len :: "'a golist \<Rightarrow> int" where
  "list_Len l = int (length (elems l))"

definition list_wf :: "'a golist \<Rightarrow> bool" where
  "list_wf l \<longleftrightarrow> distinct (map fst (elems l)) \<and> (\<forall>p \<in> set (elems l). fst p < fresh l)"

text \<open>The entries, front first, are ordered from the most to the least recently stamped.\<close>

definition lru_sorted :: "('p \<Rightarrow> int) \<Rightarrow> 'p list \<Rightarrow> bool" where
  "lru_sorted ts ps = sorted_wrt (\<lambda>p q. ts q \<le> ts p) ps"

lemma list_wf_inj: "list_wf l \<Longrightarrow> (e, a) \<in> set (elems l) \<Longrightarrow> (e, b) \<in> set (elems l) \<Longrightarrow> b = a"
  unfolding list_wf_def by (auto dest: eq_key_imp_eq_value)

lemma lru_sorted_Nil [simp]: "lru_sorted ts []"
  by (simp add: lru_sorted_def)

lemma lru_sorted_filter: "lru_sorted ts ps \<Longrightarrow> lru_sorted ts (filter P ps)"
  by (simp add: lru_sorted_def sorted_wrt_filter)

lemma lru_sorted_cong:
  "lru_sorted ts ps \<Longrightarrow> (\<And>p. p \<in> set ps \<Longrightarrow> ts' p = ts p) \<Longrightarrow> lru_sorted ts' ps"
  unfolding lru_sorted_def by (erule sorted_wrt_mono_rel [rotated]) simp

lemma lru_sorted_front:
  assumes "lru_sorted ts ps" and "\<And>q. q \<in> set ps \<Longrightarrow> ts' q = ts q"
    and "\<And>q. q \<in> set ps \<Longrightarrow> ts q \<le> ts' p"
  shows "lru_sorted ts' (p # ps)"
proof -
  have "lru_sorted ts' ps" using assms(1,2) by (rule lru_sorted_cong)
  with assms(2,3) show ?thesis by (auto simp: lru_sorted_def)
qed

lemma lru_sorted_last_le:
  assumes "lru_sorted ts ps" and "q \<in> set ps"
  shows "ts (last ps) \<le> ts q"
  using assms by (induction ps) (auto simp: lru_sorted_def)

locale element_list =
  fixes wf :: "'l \<Rightarrow> bool"
    and entries :: "'l \<Rightarrow> ('e \<times> 'a) list"
    and push_front :: "'a \<Rightarrow> 'l \<Rightarrow> 'e \<times> 'l"
    and remove :: "'e \<Rightarrow> 'l \<Rightarrow> 'l"
    and move_to_front :: "'e \<Rightarrow> 'l \<Rightarrow> 'l"
    and last_of :: "'l \<Rightarrow> ('e \<times> 'a) option"
  assumes handles_distinct: "wf l \<Longrightarrow> distinct (map fst (entries l))"
    and push_front_wf: "wf l \<Longrightarrow> wf (snd (push_front v l))"
    and push_front_entries:
      "wf l \<Longrightarrow> entries (snd (push_front v l)) = (fst (push_front v l), v) # entries l"
    and remove_wf: "wf l \<Longrightarrow> wf (remove e l)"
    and remove_entries:
      "wf l \<Longrightarrow> entries (remove e l) = filter (\<lambda>p. fst p \<noteq> e) (entries l)"
    and move_wf: "wf l \<Longrightarrow> wf (move_to_front e l)"
    and move_entries: "wf l \<Longrightarrow> (e, v) \<in> set (entries l) \<Longrightarrow>
      entries (move_to_front e l) = (e, v) # filter (\<lambda>p. fst p \<noteq> e) (entries l)"
    and back_last: "wf l \<Longrightarrow>
      last_of l = (if entries l = [] then None else Some (last (entries l)))"
begin

lemma push_front_fresh: "wf l \<Longrightarrow> (fst (push_front v l), w) \<notin> set (entries l)"
  using handles_distinct [OF push_front_wf, of l v] push_front_entries [of l v]
  by (force simp: image_iff)

lemma push_front_set:
  "wf l \<Longrightarrow> set (entries (snd (push_front v l))) = insert (fst (push_front v l), v) (set (entries l))"
  by (simp add: push_front_entries)

lemma remove_set:
  "wf l \<Longrightarrow> set (entries (remove e l)) = {p \<in> set (entries l). fst p \<noteq> e}"
  by (simp add: remove_entries)

lemma handle_value_unique:
  "wf l \<Longrightarrow> (e, v) \<in> set (entries l) \<Longrightarrow> (e, w) \<in> set (entries l) \<Longrightarrow> v = w"
  using handles_distinct [of l] by (meson eq_key_imp_eq_value)

lemma move_set:
  "wf l \<Longrightarrow> (e, v) \<in> set (entries l) \<Longrightarrow> set (entries (move_to_front e l)) = set (entries l)"
  using handle_value_unique by (fastforce simp: move_entries)

lemma remove_length:
  assumes "wf l" and "(e, v) \<in> set (entries l)"
  shows "length (entries l) = Suc (length (entries (remove e l)))"
proof -
  have "mok (entries l)" using handles_distinct [OF assms(1)] by (simp add: mok_def)
  with assms(2) have "length (entries l) = Suc (length (mdel e (entries l)))"
    by (simp add: length_mdel mget_set)
  with assms(1) show ?thesis by (simp add: remove_entries filter_key_mdel)
qed

lemma back_in: "wf l \<Longrightarrow> last_of l = Some p \<Longrightarrow> p \<in> set (entries l)"
  by (auto simp: back_last split: if_splits)

lemma back_Some: "wf l \<Longrightarrow> entries l \<noteq> [] \<Longrightarrow> \<exists>p. last_of l = Some p"
  by (simp add: back_last)

lemma back_None: "wf l \<Longrightarrow> last_of l = None \<longleftrightarrow> entries l = []"
  by (simp add: back_last)

text \<open>The least-recently-used discipline.\<close>

lemma remove_last:
  assumes "wf l" and "entries l = ps @ [(e, v)]"
  shows "entries (remove e l) = ps"
proof -
  have "e \<notin> fst ` set ps" using handles_distinct [OF assms(1)] assms(2) by simp
  then have "filter (\<lambda>p. fst p \<noteq> e) ps = ps" by (auto simp: filter_id_conv)
  then show ?thesis by (simp add: remove_entries assms)
qed

lemma lru_push:
  assumes "wf l" "lru_sorted ts (entries l)"
    and "\<And>q. q \<in> set (entries l) \<Longrightarrow> ts' q = ts q \<and> ts q \<le> ts' (fst (push_front v l), v)"
  shows "lru_sorted ts' (entries (snd (push_front v l)))"
  using assms lru_sorted_front [of ts "entries l" ts' "(fst (push_front v l), v)"]
  by (simp add: push_front_entries)

lemma lru_remove:
  "wf l \<Longrightarrow> lru_sorted ts (entries l) \<Longrightarrow> lru_sorted ts (entries (remove e l))"
  by (simp add: remove_entries lru_sorted_filter)

lemma lru_move:
  assumes "wf l" "lru_sorted ts (entries l)" "(e, v) \<in> set (entries l)"
    and "\<And>q. q \<in> set (entries l) \<Longrightarrow> fst q \<noteq> e \<Longrightarrow> ts' q = ts q \<and> ts q \<le> ts' (e, v)"
  shows "lru_sorted ts' (entries (move_to_front e l))"
proof -
  have "lru_sorted ts (filter (\<lambda>p. fst p \<noteq> e) (entries l))"
    using assms(2) by (rule lru_sorted_filter)
  then have "lru_sorted ts' ((e, v) # filter (\<lambda>p. fst p \<noteq> e) (entries l))"
    by (rule lru_sorted_front) (use assms(4) in auto)
  with assms(1,3) show ?thesis by (simp add: move_entries)
qed

lemma lru_oldest:
  "wf l \<Longrightarrow> lru_sorted ts (entries l) \<Longrightarrow> last_of l = Some p \<Longrightarrow> q \<in> set (entries l) \<Longrightarrow> ts p \<le> ts q"
  by (auto simp: back_last lru_sorted_last_le split: if_splits)

end

interpretation lst: element_list list_wf elems list_PushFront list_Remove list_MoveToFront list_Back
proof unfold_locales
  fix l :: "'a golist" and e v
  assume "list_wf l" and "(e, v) \<in> set (elems l)"
  then show "elems (list_MoveToFront e l) = (e, v) # filter (\<lambda>p. fst p \<noteq> e) (elems l)"
    by (simp add: list_MoveToFront_def list_wf_def)
next
  fix l :: "'a golist" and e
  assume "list_wf l"
  then show "list_wf (list_MoveToFront e l)"
    by (auto simp: list_MoveToFront_def list_wf_def distinct_map_filter dest: map_of_SomeD
        split: option.splits)
qed (auto simp: list_wf_def list_PushFront_def list_Remove_def list_Back_def distinct_map_filter)

lemma list_wf_New [simp]: "list_wf list_New" "elems list_New = []"
  by (simp_all add: list_wf_def list_New_def)

lemma list_Len_pos: "0 < list_Len l \<longleftrightarrow> elems l \<noteq> []"
  by (simp add: list_Len_def)

end
