(* ===== verification/Priority_Tree.thy ===== *)
theory Priority_Tree
  imports Hs_Prelude
begin

text \<open>
  The partial priority tree of \<^verbatim>\<open>pkg/util/partialprioritytree.go\<close>: a tree of buckets over
  the whole \<^verbatim>\<open>uint64\<close> range that splits a bucket only when it is asked for its minimum.
  A trigger queue keeps the ids of its reporting triggers in it.
\<close>

section \<open>The data structure\<close>

datatype TreeNode = TreeNode
  (n_expand: int) (n_collapse: int) (n_low: u64) (n_mid: u64) (n_high: u64)
  (n_elements: "u64 list") (n_sorted: bool) (n_isleaf: bool) (n_size: int)
  (n_left: "TreeNode option") (n_right: "TreeNode option")

definition initTreeNode :: "u64 \<Rightarrow> u64 \<Rightarrow> TreeNode" where
  "initTreeNode low high =
     TreeNode 20 6 low (low + (high - low) div 2 + 1) high [] True True 0 None None"

definition InitPartialPriorityTree :: TreeNode where
  "InitPartialPriorityTree = initTreeNode 0 (- 1)"

fun Insert :: "u64 \<Rightarrow> TreeNode \<Rightarrow> TreeNode" where
  "Insert elem (TreeNode ex co lo mi hi es so lf sz l r) =
     TreeNode ex co lo mi hi (es @ [elem]) False lf (sz + 1) l r"

text \<open>\<^verbatim>\<open>Remove\<close> is a stub: its body is empty.\<close>

definition Remove :: "u64 \<Rightarrow> TreeNode \<Rightarrow> TreeNode" where
  "Remove elem n = n"

abbreviation Size :: "TreeNode \<Rightarrow> int" where
  "Size \<equiv> n_size"

text \<open>One iteration of the loop of \<^verbatim>\<open>distributeElementsToLeaves\<close>; inserting into a nil child
  panics.\<close>

definition distributeElement ::
    "u64 \<Rightarrow> u64 \<Rightarrow> TreeNode option \<times> TreeNode option \<Rightarrow> (TreeNode option \<times> TreeNode option) result"
where
  "distributeElement mi e lr =
     (if e < mi then rbind (deref (fst lr)) (\<lambda>l. Inr (Some (Insert e l), snd lr))
      else rbind (deref (snd lr)) (\<lambda>r. Inr (fst lr, Some (Insert e r))))"

fun distributeElementsToLeaves :: "TreeNode \<Rightarrow> TreeNode result" where
  "distributeElementsToLeaves (TreeNode ex co lo mi hi es so lf sz l r) =
     rbind (rfold (distributeElement mi) es (l, r))
       (\<lambda>(l', r'). Inr (TreeNode ex co lo mi hi [] True lf sz l' r'))"

fun collapseIfEmpty :: "TreeNode \<Rightarrow> TreeNode" where
  "collapseIfEmpty (TreeNode ex co lo mi hi es so lf sz l r) =
     (if sz = 0 then TreeNode ex co lo mi hi es True True sz None None
      else TreeNode ex co lo mi hi es so lf sz l r)"

text \<open>The small-leaf branch of \<^verbatim>\<open>PopMin\<close>: sort once, then take the head.\<close>

fun popMinLeaf :: "TreeNode \<Rightarrow> (u64 \<times> TreeNode) result" where
  "popMinLeaf (TreeNode ex co lo mi hi es so lf sz l r) =
     (let es' = (if so then es else sort es) in
      case es' of
        [] \<Rightarrow> Inl IndexOutOfRange
      | v # vs \<Rightarrow> Inr (v, TreeNode ex co lo mi hi vs True lf (sz - 1) l r))"

text \<open>The expansion of a large leaf.\<close>

fun expandLeaf :: "TreeNode \<Rightarrow> TreeNode" where
  "expandLeaf (TreeNode ex co lo mi hi es so lf sz l r) =
     TreeNode ex co lo mi hi es so False sz
       (Some (initTreeNode lo (mi - 1))) (Some (initTreeNode mi hi))"

text \<open>The parent of a popped child: store the child, decrement the size, collapse.\<close>

fun afterPopLeft :: "TreeNode \<Rightarrow> TreeNode \<Rightarrow> TreeNode" where
  "afterPopLeft (TreeNode ex co lo mi hi es so lf sz l r) c =
     collapseIfEmpty (TreeNode ex co lo mi hi es so lf (sz - 1) (Some c) r)"

fun afterPopRight :: "TreeNode \<Rightarrow> TreeNode \<Rightarrow> TreeNode" where
  "afterPopRight (TreeNode ex co lo mi hi es so lf sz l r) c =
     collapseIfEmpty (TreeNode ex co lo mi hi es so lf (sz - 1) l (Some c))"

text \<open>
  \<^verbatim>\<open>PopMin\<close> calls itself on a child that it may have just created, so its recursion need
  not end: \<open>None\<close> is a call that never returns.
\<close>

partial_function (option) PopMin :: "TreeNode \<Rightarrow> (u64 \<times> TreeNode) result option" where
  "PopMin n =
     (if n_isleaf n \<and> n_size n < 10 then Some (popMinLeaf n)
      else
        case distributeElementsToLeaves (if n_isleaf n then expandLeaf n else n) of
          Inl e \<Rightarrow> Some (Inl e)
        | Inr n1 \<Rightarrow>
            (case n_left n1 of
               None \<Rightarrow> Some (Inl NilDeref)
             | Some lc \<Rightarrow>
                 if Size lc > 0 then
                   Option.bind (PopMin lc)
                     (\<lambda>res. Some (rbind res (\<lambda>(v, lc'). Inr (v, afterPopLeft n1 lc'))))
                 else
                   (case n_right n1 of
                      None \<Rightarrow> Some (Inl NilDeref)
                    | Some rc \<Rightarrow>
                        Option.bind (PopMin rc)
                          (\<lambda>res. Some (rbind res (\<lambda>(v, rc'). Inr (v, afterPopRight n1 rc')))))))"

declare PopMin.simps [code]

fun NodeCount :: "TreeNode \<Rightarrow> int result" where
  "NodeCount (TreeNode ex co lo mi hi es so lf sz l r) =
     (if lf then Inr 1
      else
        (case l of
           None \<Rightarrow> Inl NilDeref
         | Some lc \<Rightarrow> rbind (NodeCount lc) (\<lambda>a.
             (case r of
                None \<Rightarrow> Inl NilDeref
              | Some rc \<Rightarrow> rbind (NodeCount rc) (\<lambda>b. Inr (a + b + 1))))))"

text \<open>The leaf branch of \<^verbatim>\<open>PopNearMax\<close>.\<close>

fun popFirstElement :: "TreeNode \<Rightarrow> (u64 \<times> TreeNode) result" where
  "popFirstElement (TreeNode ex co lo mi hi es so lf sz l r) =
     (case es of
        [] \<Rightarrow> Inl IndexOutOfRange
      | v # vs \<Rightarrow> Inr (v, TreeNode ex co lo mi hi vs so lf (sz - 1) l r))"

text \<open>The depth of a tree; \<^verbatim>\<open>PopNearMax\<close> never creates nodes, so it goes one level down with
  each call.\<close>

fun tree_depth :: "TreeNode \<Rightarrow> nat" where
  "tree_depth (TreeNode ex co lo mi hi es so lf sz l r) =
     Suc (max (case l of None \<Rightarrow> 0 | Some lc \<Rightarrow> tree_depth lc)
              (case r of None \<Rightarrow> 0 | Some rc \<Rightarrow> tree_depth rc))"

abbreviation opt_depth :: "TreeNode option \<Rightarrow> nat" where
  "opt_depth c \<equiv> (case c of None \<Rightarrow> 0 | Some t \<Rightarrow> tree_depth t)"

lemma tree_depth_Insert [simp]: "tree_depth (Insert e t) = tree_depth t"
  by (cases t) simp

lemma distributeElement_depth:
  "distributeElement mi e lr = Inr lr' \<Longrightarrow>
     opt_depth (fst lr') = opt_depth (fst lr) \<and> opt_depth (snd lr') = opt_depth (snd lr)"
  by (cases "fst lr"; cases "snd lr") (auto simp: distributeElement_def split: if_splits)

lemma distribute_fold_depth:
  "rfold (distributeElement mi) es lr = Inr lr' \<Longrightarrow>
     opt_depth (fst lr') = opt_depth (fst lr) \<and> opt_depth (snd lr') = opt_depth (snd lr)"
  by (induction es arbitrary: lr) (auto simp: rbind_eq_Inr dest!: distributeElement_depth)

lemma distribute_depth:
  assumes "distributeElementsToLeaves n = Inr n'"
  shows "opt_depth (n_left n') = opt_depth (n_left n)"
    and "opt_depth (n_right n') = opt_depth (n_right n)"
  using assms by (cases n; auto simp: rbind_eq_Inr dest!: distribute_fold_depth)+

lemma child_depth [termination_simp]:
  "n_left n = Some c \<Longrightarrow> tree_depth c < tree_depth n"
  "n_right n = Some c \<Longrightarrow> tree_depth c < tree_depth n"
  by (cases n; auto)+

lemma distribute_child_depth [termination_simp]:
  assumes "distributeElementsToLeaves n = Inr n'"
  shows "n_left n' = Some c \<Longrightarrow> tree_depth c < tree_depth n"
    and "n_right n' = Some c \<Longrightarrow> tree_depth c < tree_depth n"
  using distribute_depth [OF assms] by (cases n; auto)+

function PopNearMax :: "TreeNode \<Rightarrow> (u64 \<times> TreeNode) result" where
  "PopNearMax n =
     (if n_isleaf n then popFirstElement n
      else
        (case n_right n of
           None \<Rightarrow> Inl NilDeref
         | Some rc \<Rightarrow>
             if Size rc > 0 then
               rbind (PopNearMax rc) (\<lambda>(v, rc'). Inr (v, afterPopRight n rc'))
             else
               (case distributeElementsToLeaves n of
                  Inl e \<Rightarrow> Inl e
                | Inr n1 \<Rightarrow>
                    (case n_right n1 of
                       None \<Rightarrow> Inl NilDeref
                     | Some rc1 \<Rightarrow>
                         if Size rc1 > 0 then
                           rbind (PopNearMax rc1) (\<lambda>(v, rc'). Inr (v, afterPopRight n1 rc'))
                         else
                           (case n_left n1 of
                              None \<Rightarrow> Inl NilDeref
                            | Some lc \<Rightarrow>
                                rbind (PopNearMax lc) (\<lambda>(v, lc'). Inr (v, afterPopLeft n1 lc')))))))"
  by pat_completeness auto
termination
  by (relation "measure tree_depth") (auto simp: termination_simp)

declare PopNearMax.simps [simp del]

section \<open>Contents and well-formedness\<close>

fun tree_mset :: "TreeNode \<Rightarrow> u64 multiset" where
  "tree_mset (TreeNode ex co lo mi hi es so lf sz l r) =
     mset es + (case l of None \<Rightarrow> {#} | Some lc \<Rightarrow> tree_mset lc)
             + (case r of None \<Rightarrow> {#} | Some rc \<Rightarrow> tree_mset rc)"

text \<open>
  A node of level \<open>k\<close> covers the \<open>2 ^ k\<close> values from \<open>low\<close> to \<open>high\<close>.  An inner node has two
  children of the next lower level that split its range at \<open>mid\<close>; its size counts its own
  pending elements and those of its children.
\<close>

fun tree_ok :: "nat \<Rightarrow> TreeNode \<Rightarrow> bool" where
  "tree_ok k (TreeNode ex co lo mi hi es so lf sz l r) \<longleftrightarrow>
     uint hi + 1 = uint lo + 2 ^ k \<and> mi = lo + (hi - lo) div 2 + 1 \<and>
     (\<forall>e \<in> set es. lo \<le> e \<and> e \<le> hi) \<and> (so \<longrightarrow> sorted es) \<and>
     (if lf then l = None \<and> r = None \<and> sz = int (length es)
      else
        (case (k, l, r) of
           (Suc j, Some lc, Some rc) \<Rightarrow>
             tree_ok j lc \<and> n_low lc = lo \<and> tree_ok j rc \<and> n_low rc = mi \<and>
             sz = int (length es) + n_size lc + n_size rc
         | _ \<Rightarrow> False))"

declare tree_ok.simps [simp del]

lemma mid_split:
  fixes lo hi :: u64
  assumes "uint hi + 1 = uint lo + 2 ^ Suc j"
  shows "uint (lo + (hi - lo) div 2 + 1) = uint lo + 2 ^ j"
proof -
  have hi: "uint hi < 2 ^ 64" using uint_lt2p [of hi] by simp
  have lo: "0 \<le> uint lo" by simp
  have diff: "uint hi - uint lo = 2 ^ Suc j - 1" and "(0::int) \<le> 2 ^ Suc j - 1"
    using assms by simp_all
  then have "uint lo \<le> uint hi" by linarith
  with diff have d: "uint (hi - lo) = 2 ^ Suc j - 1"
    using uint_sub_lem [of lo hi] by simp
  then have "uint ((hi - lo) div 2) = 2 ^ j - 1"
    by (simp add: uint_div)
  moreover have "uint lo + 2 ^ j < 2 ^ 64"
  proof -
    have "(2::int) ^ Suc j = 2 ^ j + 2 ^ j" by simp
    moreover have "(1::int) \<le> 2 ^ j" by simp
    ultimately show ?thesis using assms hi by linarith
  qed
  ultimately show ?thesis using lo by (simp add: uint_word_ariths mod_simps)
qed

lemma tree_okE:
  assumes "tree_ok k n"
  shows "uint (n_high n) + 1 = uint (n_low n) + 2 ^ k"
    and "n_mid n = n_low n + (n_high n - n_low n) div 2 + 1"
    and "e \<in> set (n_elements n) \<Longrightarrow> n_low n \<le> e \<and> e \<le> n_high n"
    and "n_sorted n \<Longrightarrow> sorted (n_elements n)"
  using assms by (cases n; auto simp: tree_ok.simps)+

lemma tree_ok_leaf:
  assumes "tree_ok k n" "n_isleaf n"
  shows "tree_mset n = mset (n_elements n)" and "n_size n = int (length (n_elements n))"
  using assms by (cases n; simp add: tree_ok.simps)+

lemma tree_ok_inner:
  assumes "tree_ok k n" "\<not> n_isleaf n"
  obtains j lc rc where "k = Suc j" "n_left n = Some lc" "n_right n = Some rc"
    "tree_ok j lc" "tree_ok j rc" "n_low lc = n_low n" "n_low rc = n_mid n"
    "n_size n = int (length (n_elements n)) + n_size lc + n_size rc"
    "tree_mset n = mset (n_elements n) + tree_mset lc + tree_mset rc"
  using assms by (cases n) (auto simp: tree_ok.simps split: nat.splits option.splits)

lemma tree_ok_mid:
  assumes "tree_ok (Suc j) n"
  shows "uint (n_mid n) = uint (n_low n) + 2 ^ j"
  using tree_okE(1,2) [OF assms] mid_split by metis

lemma tree_ok_child_bounds:
  assumes n: "tree_ok (Suc j) n" and c: "tree_ok j c"
  shows "n_low c = n_low n \<Longrightarrow> n_high c = n_mid n - 1"
    and "n_low c = n_mid n \<Longrightarrow> n_high c = n_high n"
proof -
  have c': "uint (n_high c) + 1 = uint (n_low c) + 2 ^ j" using tree_okE(1) [OF c] .
  have m: "uint (n_mid n) = uint (n_low n) + 2 ^ j" using tree_ok_mid [OF n] .
  have h: "uint (n_high n) + 1 = uint (n_low n) + 2 ^ Suc j" using tree_okE(1) [OF n] .
  show "n_high c = n_mid n - 1" if "n_low c = n_low n"
  proof -
    have "uint (n_mid n) = uint (n_high c) + 1" using that c' m by simp
    then have "uint (n_mid n - 1) = uint (n_high c)"
      using uint_lt2p [of "n_high c"] by (simp add: uint_word_ariths)
    then show ?thesis by (metis word_uint_eq_iff)
  qed
  show "n_high c = n_high n" if "n_low c = n_mid n"
  proof -
    have "uint (n_high c) = uint (n_high n)" using that c' m h by simp
    then show ?thesis by (metis word_uint_eq_iff)
  qed
qed

lemma tree_ok_size: "tree_ok k n \<Longrightarrow> n_size n = int (size (tree_mset n))"
proof (induction k arbitrary: n)
  case 0
  then have "n_isleaf n" by (auto elim: tree_ok_inner)
  with 0 show ?case by (simp add: tree_ok_leaf)
next
  case (Suc k)
  show ?case
  proof (cases "n_isleaf n")
    case True
    with Suc.prems show ?thesis by (simp add: tree_ok_leaf)
  next
    case False
    from tree_ok_inner [OF Suc.prems False] Suc.IH show ?thesis
      by (metis nat.inject of_nat_add size_mset size_union)
  qed
qed

lemma word_less_le_pred:
  fixes e :: u64
  shows "e < m \<Longrightarrow> e \<le> m - 1"
  by unat_arith

lemma tree_ok_left_less:
  assumes "tree_ok (Suc j) n" "e \<le> n_mid n - 1"
  shows "e < n_mid n"
proof -
  have "0 < uint (n_mid n)" using tree_ok_mid [OF assms(1)] by (simp add: add_nonneg_pos)
  then have "uint (n_mid n - 1) = uint (n_mid n) - 1"
    using uint_lt2p [of "n_mid n"] by (simp add: uint_word_ariths)
  with assms(2) show ?thesis by (simp add: word_le_def word_less_def)
qed

lemma tree_ok_range: "tree_ok k n \<Longrightarrow> e \<in># tree_mset n \<Longrightarrow> n_low n \<le> e \<and> e \<le> n_high n"
proof (induction k arbitrary: n)
  case 0
  then have "n_isleaf n" by (auto elim: tree_ok_inner)
  with 0 show ?case by (auto simp: tree_ok_leaf dest: tree_okE(3))
next
  case (Suc k)
  show ?case
  proof (cases "n_isleaf n")
    case True
    with Suc.prems show ?thesis by (auto simp: tree_ok_leaf dest: tree_okE(3))
  next
    case False
    from Suc.prems(1) False obtain lc rc where c: "tree_ok k lc" "tree_ok k rc"
      "n_low lc = n_low n" "n_low rc = n_mid n"
      "tree_mset n = mset (n_elements n) + tree_mset lc + tree_mset rc"
      by (auto elim: tree_ok_inner)
    have hi: "n_high lc = n_mid n - 1" "n_high rc = n_high n"
      using tree_ok_child_bounds [OF Suc.prems(1)] c by auto
    have "(1::int) \<le> 2 ^ k" by simp
    with tree_ok_mid [OF Suc.prems(1)] tree_okE(1) [OF Suc.prems(1)]
    have mid: "n_low n \<le> n_mid n" "n_mid n \<le> n_high n"
      unfolding word_le_def power_Suc by linarith+
    consider "e \<in> set (n_elements n)" | "e \<in># tree_mset lc" | "e \<in># tree_mset rc"
      using Suc.prems(2) c(5) by auto
    then show ?thesis
    proof cases
      case 1
      with Suc.prems(1) show ?thesis by (rule tree_okE(3))
    next
      case 2
      with Suc.IH c hi have "n_low n \<le> e" "e \<le> n_mid n - 1" by fastforce+
      with tree_ok_left_less [OF Suc.prems(1)] mid show ?thesis by force
    next
      case 3
      with Suc.IH c hi have "n_mid n \<le> e" "e \<le> n_high n" by fastforce+
      with mid show ?thesis by simp
    qed
  qed
qed

section \<open>The operations keep the tree well-formed\<close>

text \<open>\<open>popped k n v n'\<close>: \<open>n'\<close> is the well-formed node \<open>n\<close> without one occurrence of \<open>v\<close>.\<close>

definition popped :: "nat \<Rightarrow> TreeNode \<Rightarrow> u64 \<Rightarrow> TreeNode \<Rightarrow> bool" where
  "popped k n v n' \<longleftrightarrow> tree_ok k n' \<and> n_low n' = n_low n \<and>
     tree_mset n = add_mset v (tree_mset n')"

lemma initTreeNode_ok:
  "uint hi + 1 = uint lo + 2 ^ k \<Longrightarrow> tree_ok k (initTreeNode lo hi)"
  by (simp add: initTreeNode_def tree_ok.simps)

lemma initTreeNode_simps [simp]:
  "n_low (initTreeNode lo hi) = lo" "n_size (initTreeNode lo hi) = 0"
  "tree_mset (initTreeNode lo hi) = {#}"
  by (simp_all add: initTreeNode_def)

lemma Init_ok: "tree_ok 64 InitPartialPriorityTree"
  unfolding InitPartialPriorityTree_def by (rule initTreeNode_ok) (simp add: unsigned_minus_1_eq_mask mask_eq_exp_minus_1)

lemma Insert_ok:
  assumes "tree_ok k n" "n_low n \<le> e" "e \<le> n_high n"
  shows "tree_ok k (Insert e n)"
  using assms by (cases n) (auto simp: tree_ok.simps split: if_splits nat.splits option.splits)

lemma Insert_simps [simp]:
  "tree_mset (Insert e n) = add_mset e (tree_mset n)"
  "n_low (Insert e n) = n_low n" "n_high (Insert e n) = n_high n" "n_size (Insert e n) = n_size n + 1"
  by (cases n; simp)+

lemma distribute_fold_ok:
  assumes "tree_ok j lc" "tree_ok j rc" "n_high lc = mi - 1" "n_low rc = mi" "0 < mi"
    and "\<And>e. e \<in> set es \<Longrightarrow> n_low lc \<le> e \<and> e \<le> n_high rc"
  shows "\<exists>lc' rc'. rfold (distributeElement mi) es (Some lc, Some rc) = Inr (Some lc', Some rc') \<and>
    tree_ok j lc' \<and> tree_ok j rc' \<and> n_low lc' = n_low lc \<and> n_low rc' = n_low rc \<and>
    tree_mset lc' + tree_mset rc' = mset es + tree_mset lc + tree_mset rc \<and>
    n_size lc' + n_size rc' = int (length es) + n_size lc + n_size rc"
  using assms
proof (induction es arbitrary: lc rc)
  case Nil
  then show ?case by simp
next
  case (Cons e es)
  show ?case
  proof (cases "e < mi")
    case True
    then have "e \<le> mi - 1" by (rule word_less_le_pred)
    with Cons.prems have "tree_ok j (Insert e lc)" by (auto intro: Insert_ok)
    with Cons.IH [of "Insert e lc" rc] Cons.prems show ?thesis
      using True by (auto simp: distributeElement_def)
  next
    case False
    with Cons.prems have "tree_ok j (Insert e rc)" by (auto intro: Insert_ok)
    with Cons.IH [of lc "Insert e rc"] Cons.prems show ?thesis
      using False by (auto simp: distributeElement_def)
  qed
qed

lemma distribute_ok:
  assumes "tree_ok (Suc j) n" "\<not> n_isleaf n"
  obtains n' where "distributeElementsToLeaves n = Inr n'" "tree_ok (Suc j) n'" "\<not> n_isleaf n'"
    "n_elements n' = []" "n_sorted n'" "n_low n' = n_low n" "n_mid n' = n_mid n"
    "tree_mset n' = tree_mset n"
proof -
  obtain lc rc where c: "n_left n = Some lc" "n_right n = Some rc" "tree_ok j lc" "tree_ok j rc"
      "n_low lc = n_low n" "n_low rc = n_mid n"
      "n_size n = int (length (n_elements n)) + n_size lc + n_size rc"
      "tree_mset n = mset (n_elements n) + tree_mset lc + tree_mset rc"
    using assms by (auto elim: tree_ok_inner)
  have "0 < uint (n_mid n)" using tree_ok_mid [OF assms(1)] by (simp add: add_nonneg_pos)
  then have "0 < n_mid n" by (simp add: word_less_def)
  moreover have "n_high lc = n_mid n - 1" "n_high rc = n_high n"
    using tree_ok_child_bounds [OF assms(1)] c(3-6) by auto
  ultimately obtain lc' rc' where d:
    "rfold (distributeElement (n_mid n)) (n_elements n) (Some lc, Some rc) = Inr (Some lc', Some rc')"
    "tree_ok j lc'" "tree_ok j rc'" "n_low lc' = n_low lc" "n_low rc' = n_low rc"
    "tree_mset lc' + tree_mset rc' = mset (n_elements n) + tree_mset lc + tree_mset rc"
    "n_size lc' + n_size rc' = int (length (n_elements n)) + n_size lc + n_size rc"
    using distribute_fold_ok [OF c(3,4), of "n_mid n" "n_elements n"] tree_okE(3) [OF assms(1)] c(5,6)
    by auto
  obtain ex co lo mi hi es so sz where n: "n = TreeNode ex co lo mi hi es so False sz (Some lc) (Some rc)"
    using assms(2) c(1,2) by (cases n) auto
  define n' where "n' = TreeNode ex co lo mi hi [] True False sz (Some lc') (Some rc')"
  have "distributeElementsToLeaves n = Inr n'" using d(1) by (simp add: n n'_def)
  moreover have "tree_ok (Suc j) n'"
    using assms(1) c(5-7) d(2-5,7) by (simp add: n n'_def tree_ok.simps)
  moreover have "tree_mset n' = tree_mset n" using d(6) by (simp add: n n'_def)
  ultimately show ?thesis using that [of n'] by (simp add: n n'_def)
qed

lemma expandLeaf_ok:
  assumes "tree_ok (Suc j) n" "n_isleaf n"
  shows "tree_ok (Suc j) (expandLeaf n)" and "\<not> n_isleaf (expandLeaf n)"
    and "n_low (expandLeaf n) = n_low n" "n_mid (expandLeaf n) = n_mid n"
    and "tree_mset (expandLeaf n) = tree_mset n"
proof -
  have "uint (n_mid n) = uint (n_low n) + 2 ^ j" using tree_ok_mid [OF assms(1)] .
  moreover from this have "0 < uint (n_mid n)" by (simp add: add_nonneg_pos)
  then have "uint (n_mid n - 1) = uint (n_mid n) - 1"
    using uint_lt2p [of "n_mid n"] by (simp add: uint_word_ariths)
  ultimately have "tree_ok j (initTreeNode (n_low n) (n_mid n - 1))"
    "tree_ok j (initTreeNode (n_mid n) (n_high n))"
    using tree_okE(1) [OF assms(1)] by (auto intro!: initTreeNode_ok)
  with assms show "tree_ok (Suc j) (expandLeaf n)"
    by (cases n) (auto simp: tree_ok.simps)
qed (use assms in \<open>cases n; auto simp: tree_ok.simps\<close>)+

lemma collapseIfEmpty_ok:
  assumes "tree_ok k n"
  shows "tree_ok k (collapseIfEmpty n)" "tree_mset (collapseIfEmpty n) = tree_mset n"
    "n_low (collapseIfEmpty n) = n_low n"
proof -
  have "n_size n = 0 \<Longrightarrow> tree_mset n = {#}" using tree_ok_size [OF assms] by simp
  with assms show "tree_ok k (collapseIfEmpty n)" "tree_mset (collapseIfEmpty n) = tree_mset n"
    "n_low (collapseIfEmpty n) = n_low n"
    by (cases n; auto simp: tree_ok.simps)+
qed

lemma afterPop_ok:
  assumes n: "tree_ok (Suc j) n" "\<not> n_isleaf n" and p: "popped j c v c'"
  shows "n_left n = Some c \<Longrightarrow> popped (Suc j) n v (afterPopLeft n c')"
    and "n_right n = Some c \<Longrightarrow> popped (Suc j) n v (afterPopRight n c')"
proof -
  obtain ex co lo mi hi es so sz lc rc where
    eq: "n = TreeNode ex co lo mi hi es so False sz (Some lc) (Some rc)"
    using n by (cases n) (auto simp: tree_ok.simps split: option.splits)
  have sz: "tree_ok j c \<Longrightarrow> n_size c = n_size c' + 1"
    using p tree_ok_size [of j c'] tree_ok_size [of j c] by (auto simp: popped_def)
  show "popped (Suc j) n v (afterPopLeft n c')" if "n_left n = Some c"
  proof -
    have "tree_ok (Suc j) (TreeNode ex co lo mi hi es so False (sz - 1) (Some c') (Some rc))"
      using n p that sz by (auto simp: eq popped_def tree_ok.simps)
    from collapseIfEmpty_ok [OF this] p that show ?thesis
      by (simp add: eq popped_def)
  qed
  show "popped (Suc j) n v (afterPopRight n c')" if "n_right n = Some c"
  proof -
    have "tree_ok (Suc j) (TreeNode ex co lo mi hi es so False (sz - 1) (Some lc) (Some c'))"
      using n p that sz by (auto simp: eq popped_def tree_ok.simps)
    from collapseIfEmpty_ok [OF this] p that show ?thesis
      by (simp add: eq popped_def)
  qed
qed

lemma popMinLeaf_ok:
  assumes "tree_ok k n" "n_isleaf n" "0 < n_size n"
  obtains v n' where "popMinLeaf n = Inr (v, n')" "popped k n v n'"
    "\<And>e. e \<in># tree_mset n \<Longrightarrow> v \<le> e" "n_sorted n'"
proof -
  obtain ex co lo mi hi es so sz where
    n: "n = TreeNode ex co lo mi hi es so True sz None None"
    using assms by (cases n) (auto simp: tree_ok.simps)
  define es' where "es' = (if so then es else sort es)"
  have es': "mset es' = mset es" "sorted es'" "set es' = set es"
    using assms(1) by (auto simp: es'_def n tree_ok.simps)
  moreover have "es \<noteq> []" using assms n by (auto simp: tree_ok.simps)
  ultimately obtain v vs where v: "es' = v # vs" by (cases es') auto
  have "length es = Suc (length vs)"
    using arg_cong [OF es'(1), of size] v by simp
  with assms es' v have "popped k n v (TreeNode ex co lo mi hi vs True True (sz - 1) None None)"
    by (auto simp: popped_def n tree_ok.simps)
  moreover have "v \<le> e" if "e \<in># tree_mset n" for e
    using that es' v by (auto simp: n)
  ultimately show ?thesis
    using that [of v "TreeNode ex co lo mi hi vs True True (sz - 1) None None"] v
    by (simp add: n flip: es'_def)
qed

lemma afterPop_simps [simp]:
  "n_elements (afterPopLeft n c) = n_elements n" "n_elements (afterPopRight n c) = n_elements n"
  "n_sorted n \<Longrightarrow> n_sorted (afterPopLeft n c)" "n_sorted n \<Longrightarrow> n_sorted (afterPopRight n c)"
  by (cases n; simp)+

lemma popMinLeaf_elements: "popMinLeaf n = Inr (v, n') \<Longrightarrow> length (n_elements n') < length (n_elements n)"
  by (cases n) (auto simp: Let_def split: list.splits if_splits dest: arg_cong [where f = length])

section \<open>PopMin\<close>

lemma level_0_count:
  assumes "tree_ok 0 n"
  shows "n_size n = int (count (tree_mset n) (n_low n))"
proof -
  have "n_high n = n_low n" using tree_okE(1) [OF assms] by (metis add_right_cancel power_0 word_uint_eq_iff)
  then have "set_mset (tree_mset n) \<subseteq> {n_low n}"
    using tree_ok_range [OF assms] by force
  then have "tree_mset n = replicate_mset (size (tree_mset n)) (n_low n)"
    by (rule set_mset_subset_singletonD)
  then show ?thesis using tree_ok_size [OF assms] by (metis count_replicate_mset)
qed

text \<open>
  With fewer than ten copies of every value, \<open>PopMin\<close> of a non-empty tree returns, and what
  it returns is the minimum; the node keeps fewer than ten pending elements, in order.
\<close>

lemma PopMin_leaf_ok:
  assumes "tree_ok k n" "n_isleaf n" "0 < n_size n" "n_size n < 10"
  shows "\<exists>v n'. PopMin n = Some (Inr (v, n')) \<and> popped k n v n' \<and>
    (\<forall>e. e \<in># tree_mset n \<longrightarrow> v \<le> e) \<and> length (n_elements n') < 10 \<and> n_sorted n'"
proof -
  obtain v n' where v: "popMinLeaf n = Inr (v, n')" "popped k n v n'"
    "\<And>e. e \<in># tree_mset n \<Longrightarrow> v \<le> e" "n_sorted n'"
    using popMinLeaf_ok [OF assms(1-3)] by metis
  moreover have "PopMin n = Some (popMinLeaf n)"
    using assms(2,4) by (subst PopMin.simps) simp
  moreover have "length (n_elements n') < 10"
    using popMinLeaf_elements [OF v(1)] tree_ok_leaf(2) [OF assms(1,2)] assms(4) by simp
  ultimately show ?thesis by auto
qed

lemma PopMin_ok:
  assumes "tree_ok k n" "0 < n_size n" "\<And>v. count (tree_mset n) v < 10"
  shows "\<exists>v n'. PopMin n = Some (Inr (v, n')) \<and> popped k n v n' \<and>
    (\<forall>e. e \<in># tree_mset n \<longrightarrow> v \<le> e) \<and> length (n_elements n') < 10 \<and> n_sorted n'"
  using assms
proof (induction k arbitrary: n)
  case 0
  have leaf: "n_isleaf n" using 0(1) by (auto elim: tree_ok_inner)
  moreover have "n_size n < 10" using level_0_count [OF 0(1)] 0(3) [of "n_low n"] by simp
  ultimately show ?case using PopMin_leaf_ok [OF 0(1) _ 0(2)] by blast
next
  case (Suc j)
  show ?case
  proof (cases "n_isleaf n \<and> n_size n < 10")
    case True
    then show ?thesis using PopMin_leaf_ok [OF Suc.prems(1) _ Suc.prems(2)] by blast
  next
    case False
    define n0 where "n0 = (if n_isleaf n then expandLeaf n else n)"
    have n0: "tree_ok (Suc j) n0" "\<not> n_isleaf n0" "n_low n0 = n_low n" "tree_mset n0 = tree_mset n"
      using expandLeaf_ok [OF Suc.prems(1)] Suc.prems(1) by (auto simp: n0_def)
    obtain n1 where n1: "distributeElementsToLeaves n0 = Inr n1" "tree_ok (Suc j) n1"
      "\<not> n_isleaf n1" "n_elements n1 = []" "n_sorted n1" "n_low n1 = n_low n0"
      "tree_mset n1 = tree_mset n0"
      using distribute_ok [OF n0(1,2)] by metis
    obtain lc rc where c: "n_left n1 = Some lc" "n_right n1 = Some rc" "tree_ok j lc" "tree_ok j rc"
      "n_low lc = n_low n1" "n_low rc = n_mid n1" "tree_mset n1 = tree_mset lc + tree_mset rc"
      using n1 by (auto elim: tree_ok_inner)
    have step: "PopMin n =
      (if Size lc > 0 then
         Option.bind (PopMin lc) (\<lambda>res. Some (rbind res (\<lambda>(v, lc'). Inr (v, afterPopLeft n1 lc'))))
       else
         Option.bind (PopMin rc) (\<lambda>res. Some (rbind res (\<lambda>(v, rc'). Inr (v, afterPopRight n1 rc')))))"
      using False n1(1) c(1,2) by (subst PopMin.simps) (auto simp: n0_def)
    have cnt: "count (tree_mset lc) v < 10" "count (tree_mset rc) v < 10" for v
      using Suc.prems(3) [of v] c(7) n0(4) n1(7) by auto
    show ?thesis
    proof (cases "Size lc > 0")
      case True
      then obtain v lc' where v: "PopMin lc = Some (Inr (v, lc'))" "popped j lc v lc'"
        "\<And>e. e \<in># tree_mset lc \<Longrightarrow> v \<le> e"
        using Suc.IH [OF c(3) _ cnt(1)] by blast
      have "v \<in># tree_mset lc" using v(2) by (simp add: popped_def)
      moreover have "n_high lc = n_mid n1 - 1" using tree_ok_child_bounds(1) [OF n1(2) c(3,5)] .
      ultimately have "v < n_mid n1"
        using tree_ok_range [OF c(3)] tree_ok_left_less [OF n1(2)] by metis
      with v(3) tree_ok_range [OF c(4)] c(6,7) n0(4) n1(7) have "\<forall>e. e \<in># tree_mset n \<longrightarrow> v \<le> e"
        by fastforce
      with True step v afterPop_ok(1) [OF n1(2,3) v(2) c(1)] n1 n0 show ?thesis
        by (auto simp: popped_def)
    next
      case False
      then have "tree_mset lc = {#}" using tree_ok_size [OF c(3)] by simp
      moreover from this have "0 < Size rc"
        using Suc.prems(1,2) c(4,7) n0(4) n1(7) tree_ok_size [of j rc] tree_ok_size [of "Suc j" n]
        by simp
      then obtain v rc' where v: "PopMin rc = Some (Inr (v, rc'))" "popped j rc v rc'"
        "\<And>e. e \<in># tree_mset rc \<Longrightarrow> v \<le> e"
        using Suc.IH [OF c(4) _ cnt(2)] by blast
      ultimately show ?thesis
        using False step v afterPop_ok(2) [OF n1(2,3) v(2) c(2)] n1 n0 c(7)
        by (auto simp: popped_def)
    qed
  qed
qed

section \<open>PopNearMax\<close>

lemma popFirstElement_ok:
  assumes "tree_ok k n" "n_isleaf n" "0 < n_size n"
  obtains v n' where "popFirstElement n = Inr (v, n')" "popped k n v n'"
proof -
  obtain ex co lo mi hi es so sz where
    n: "n = TreeNode ex co lo mi hi es so True sz None None"
    using assms by (cases n) (auto simp: tree_ok.simps)
  with assms obtain v vs where "es = v # vs" by (cases es) (auto simp: tree_ok.simps)
  with assms that [of v "TreeNode ex co lo mi hi vs so True (sz - 1) None None"] show ?thesis
    by (simp add: n popped_def tree_ok.simps)
qed

lemma PopNearMax_ok:
  assumes "tree_ok k n" "0 < n_size n"
  shows "\<exists>v n'. PopNearMax n = Inr (v, n') \<and> popped k n v n' \<and>
    (\<not> n_isleaf n \<longrightarrow> (\<exists>e. e \<in># tree_mset n \<and> n_mid n \<le> e) \<longrightarrow> n_mid n \<le> v)"
  using assms
proof (induction k arbitrary: n)
  case 0
  then have "n_isleaf n" by (auto elim: tree_ok_inner)
  with 0 show ?case by (subst PopNearMax.simps) (auto elim: popFirstElement_ok)
next
  case (Suc j)
  show ?case
  proof (cases "n_isleaf n")
    case True
    with Suc.prems show ?thesis by (subst PopNearMax.simps) (auto elim: popFirstElement_ok)
  next
    case inner: False
    obtain lc rc where c: "n_left n = Some lc" "n_right n = Some rc" "tree_ok j lc" "tree_ok j rc"
      "n_low rc = n_mid n"
      using Suc.prems(1) inner by (auto elim: tree_ok_inner)
    obtain n1 where n1: "distributeElementsToLeaves n = Inr n1" "tree_ok (Suc j) n1"
      "\<not> n_isleaf n1" "n_elements n1 = []" "n_low n1 = n_low n" "n_mid n1 = n_mid n"
      "tree_mset n1 = tree_mset n"
      using distribute_ok [OF Suc.prems(1) inner] by metis
    obtain l1 r1 where d: "n_left n1 = Some l1" "n_right n1 = Some r1" "tree_ok j l1" "tree_ok j r1"
      "n_low l1 = n_low n" "n_low r1 = n_mid n" "tree_mset n = tree_mset l1 + tree_mset r1"
      using n1 by (auto elim: tree_ok_inner)
    have step: "PopNearMax n =
      (if Size rc > 0 then rbind (PopNearMax rc) (\<lambda>(v, rc'). Inr (v, afterPopRight n rc'))
       else if Size r1 > 0 then rbind (PopNearMax r1) (\<lambda>(v, rc'). Inr (v, afterPopRight n1 rc'))
       else rbind (PopNearMax l1) (\<lambda>(v, lc'). Inr (v, afterPopLeft n1 lc')))"
      using inner c(1,2) n1(1) d(1,2) by (subst PopNearMax.simps) simp
    have right: "n_mid n \<le> v" if "popped j r v r'" "tree_ok j r" "n_low r = n_mid n" for r v r'
      using that tree_ok_range [OF that(2), of v] by (simp add: popped_def)
    consider "Size rc > 0" | "\<not> Size rc > 0" "Size r1 > 0" | "\<not> Size rc > 0" "\<not> Size r1 > 0"
      by blast
    then show ?thesis
    proof cases
      case 1
      then obtain v r' where "PopNearMax rc = Inr (v, r')" "popped j rc v r'"
        using Suc.IH [OF c(4)] by blast
      with 1 step afterPop_ok(2) [OF Suc.prems(1) inner _ c(2)] right [OF _ c(4,5)] show ?thesis
        by auto
    next
      case 2
      then obtain v r' where "PopNearMax r1 = Inr (v, r')" "popped j r1 v r'"
        using Suc.IH [OF d(4)] by blast
      with 2 step afterPop_ok(2) [OF n1(2,3) _ d(2)] right [OF _ d(4,6)] n1(5,7) show ?thesis
        by (auto simp: popped_def)
    next
      case 3
      then have "tree_mset r1 = {#}" using tree_ok_size [OF d(4)] by simp
      moreover from this have "0 < Size l1"
        using Suc.prems d(3,7) tree_ok_size [of j l1] tree_ok_size [of "Suc j" n] by simp
      then obtain v l' where v: "PopNearMax l1 = Inr (v, l')" "popped j l1 v l'"
        using Suc.IH [OF d(3)] by blast
      moreover have "e < n_mid n" if "e \<in># tree_mset l1" for e
        using tree_ok_range [OF d(3) that] tree_ok_child_bounds(1) [OF n1(2) d(3)] d(5) n1(5,6)
          tree_ok_left_less [OF n1(2)] by metis
      ultimately have "\<not> (\<exists>e. e \<in># tree_mset n \<and> n_mid n \<le> e)"
        using d(7) by (auto simp: not_le [symmetric])
      with 3 step v afterPop_ok(1) [OF n1(2,3) v(2) d(1)] n1(5,7) show ?thesis
        by (auto simp: popped_def)
    qed
  qed
qed

section \<open>Where PopMin does not return\<close>

text \<open>
  A leaf that holds ten or more copies of one value is split for ever: every split puts all
  copies into the same new leaf.
\<close>

definition crowded :: "u64 \<Rightarrow> TreeNode \<Rightarrow> bool" where
  "crowded v n \<longleftrightarrow> n_isleaf n \<and> 10 \<le> n_size n \<and>
     n_elements n = replicate (nat (n_size n)) v"

lemma distribute_replicate:
  "rfold (distributeElement mi) (replicate m v) (Some l, Some r) =
     Inr (if v < mi then (Some ((Insert v ^^ m) l), Some r) else (Some l, Some ((Insert v ^^ m) r)))"
  by (induction m arbitrary: l r) (simp_all add: distributeElement_def funpow_swap1)

lemma Insert_funpow_init:
  "(Insert v ^^ m) (initTreeNode lo hi) =
     TreeNode 20 6 lo (lo + (hi - lo) div 2 + 1) hi (replicate m v) (m = 0) True (int m) None None"
  by (induction m) (simp_all add: initTreeNode_def replicate_append_same)

lemma PopMin_crowded:
  assumes "crowded v n"
  shows "PopMin n = None"
proof (rule ccontr)
  assume "PopMin n \<noteq> None"
  then obtain r where ret: "PopMin n = Some r" by blast
  have "\<not> crowded v n"
  proof (rule PopMin.raw_induct [where P = "\<lambda>n r. \<not> crowded v n", OF _ ret])
    fix f n r
    assume IH: "\<And>n r. f n = Some r \<Longrightarrow> \<not> crowded v n"
      and eq: "(if n_isleaf n \<and> n_size n < 10 then Some (popMinLeaf n)
        else case distributeElementsToLeaves (if n_isleaf n then expandLeaf n else n) of
          Inl e \<Rightarrow> Some (Inl e)
        | Inr n1 \<Rightarrow> (case n_left n1 of None \<Rightarrow> Some (Inl NilDeref)
             | Some lc \<Rightarrow> if Size lc > 0 then Option.bind (f lc)
                     (\<lambda>res. Some (rbind res (\<lambda>(v, lc'). Inr (v, afterPopLeft n1 lc'))))
                 else (case n_right n1 of None \<Rightarrow> Some (Inl NilDeref)
                    | Some rc \<Rightarrow> Option.bind (f rc)
                          (\<lambda>res. Some (rbind res (\<lambda>(v, rc'). Inr (v, afterPopRight n1 rc'))))))) = Some r"
    show "\<not> crowded v n"
    proof
      assume c: "crowded v n"
      then obtain ex co lo mi hi so sz l r' where
        n: "n = TreeNode ex co lo mi hi (replicate (nat sz) v) so True sz l r'" and sz: "10 \<le> sz"
        by (cases n) (auto simp: crowded_def)
      have crowd: "crowded v ((Insert v ^^ nat sz) (initTreeNode a b))" for a b
        using sz by (simp add: Insert_funpow_init crowded_def)
      then have none: "f ((Insert v ^^ nat sz) (initTreeNode a b)) = None" for a b
        using IH by (metis option.exhaust)
      define L where "L = (if v < mi then (Insert v ^^ nat sz) (initTreeNode lo (mi - 1))
                           else initTreeNode lo (mi - 1))"
      define R where "R = (if v < mi then initTreeNode mi hi else (Insert v ^^ nat sz) (initTreeNode mi hi))"
      have "distributeElementsToLeaves (if n_isleaf n then expandLeaf n else n) =
          Inr (TreeNode ex co lo mi hi [] True False sz (Some L) (Some R))"
        by (simp add: n distribute_replicate L_def R_def)
      moreover have "\<not> (n_isleaf n \<and> n_size n < 10)" using sz by (simp add: n)
      ultimately have "(if Size L > 0 then f L else f R) \<noteq> None"
        using eq by (cases "Size L > 0") (auto simp: bind_eq_Some_conv)
      moreover have "Size L > 0 \<longleftrightarrow> v < mi" using sz by (simp add: L_def Insert_funpow_init)
      ultimately show False using none by (auto simp: L_def R_def split: if_splits)
    qed
  qed
  with assms show False by simp
qed

section \<open>The contract of a priority queue\<close>

text \<open>Popping \<open>m\<close> times.\<close>

fun popn :: "('q \<Rightarrow> ('a \<times> 'q) result) \<Rightarrow> nat \<Rightarrow> 'q \<Rightarrow> ('a list \<times> 'q) result" where
  "popn pop 0 q = Inr ([], q)"
| "popn pop (Suc m) q =
     rbind (pop q) (\<lambda>(x, q'). rbind (popn pop m q') (\<lambda>(xs, q''). Inr (x # xs, q'')))"

text \<open>
  What a trigger queue relies on: a set of distinct ids, a minimum that can be taken out, and
  some element that can be taken out for eviction.
\<close>

locale priority_queue =
  fixes invar :: "'q \<Rightarrow> bool"
    and contents :: "'q \<Rightarrow> 'a::linorder multiset"
    and emptyq :: 'q
    and insert_elem :: "'a \<Rightarrow> 'q \<Rightarrow> 'q"
    and pop_min :: "'q \<Rightarrow> ('a \<times> 'q) result"
    and pop_some :: "'q \<Rightarrow> ('a \<times> 'q) result"
    and card_of :: "'q \<Rightarrow> int"
  assumes empty_ok: "invar emptyq" "contents emptyq = {#}"
    and insert_ok: "invar q \<Longrightarrow> x \<notin># contents q \<Longrightarrow> invar (insert_elem x q)"
      "contents (insert_elem x q) = add_mset x (contents q)"
    and pop_min_ok: "invar q \<Longrightarrow> contents q \<noteq> {#} \<Longrightarrow>
      ok (pop_min q) (\<lambda>(x, q'). invar q' \<and> contents q = add_mset x (contents q') \<and>
        (\<forall>y. y \<in># contents q \<longrightarrow> x \<le> y))"
    and pop_some_ok: "invar q \<Longrightarrow> contents q \<noteq> {#} \<Longrightarrow>
      ok (pop_some q) (\<lambda>(x, q'). invar q' \<and> contents q = add_mset x (contents q'))"
    and card_ok: "invar q \<Longrightarrow> card_of q = int (size (contents q))"
begin

lemma card_pos: "invar q \<Longrightarrow> 0 < card_of q \<longleftrightarrow> contents q \<noteq> {#}"
  by (simp add: card_ok nonempty_has_size)

lemma insert_all:
  "invar q \<Longrightarrow> distinct xs \<Longrightarrow> set xs \<inter> set_mset (contents q) = {} \<Longrightarrow>
     invar (fold insert_elem xs q) \<and> contents (fold insert_elem xs q) = contents q + mset xs"
  by (induction xs arbitrary: q) (auto simp: insert_ok)

lemma popn_ok:
  "invar q \<Longrightarrow> m \<le> size (contents q) \<Longrightarrow>
     ok (popn pop_min m q) (\<lambda>(xs, q'). invar q' \<and> contents q = mset xs + contents q' \<and> sorted xs \<and>
       length xs = m \<and> (\<forall>x y. x \<in> set xs \<longrightarrow> y \<in># contents q' \<longrightarrow> x \<le> y))"
proof (induction m arbitrary: q)
  case 0
  then show ?case by simp
next
  case (Suc m)
  then have "contents q \<noteq> {#}" by auto
  from pop_min_ok [OF Suc.prems(1) this] obtain x q' where
    p: "pop_min q = Inr (x, q')" "invar q'" "contents q = add_mset x (contents q')"
      "\<And>y. y \<in># contents q \<Longrightarrow> x \<le> y"
    by (auto simp: ok_iff)
  with Suc.prems have "m \<le> size (contents q')" by simp
  from Suc.IH [OF p(2) this] obtain xs q'' where
    "popn pop_min m q' = Inr (xs, q'')" "invar q''" "contents q' = mset xs + contents q''"
    "sorted xs" "length xs = m" "\<And>x y. x \<in> set xs \<Longrightarrow> y \<in># contents q'' \<Longrightarrow> x \<le> y"
    by (auto simp: ok_iff)
  with p show ?case by auto
qed

lemma drain_sorted:
  assumes "distinct xs"
  shows "ok (popn pop_min (length xs) (fold insert_elem xs emptyq)) (\<lambda>(ys, q). ys = sort xs)"
proof -
  let ?q = "fold insert_elem xs emptyq"
  have q: "invar ?q" "contents ?q = mset xs"
    using insert_all [OF empty_ok(1) assms] empty_ok by auto
  have "ys = sort xs" if "mset xs = mset ys + c" "sorted ys" "length ys = length xs" for ys c
  proof -
    have "c = {#}" using arg_cong [OF that(1), of size] that(3) by simp
    with that show ?thesis by (simp add: properties_for_sort)
  qed
  with popn_ok [OF q(1), of "length xs"] q(2) show ?thesis
    by (auto simp: ok_iff)
qed

end

definition tree_invar :: "TreeNode \<Rightarrow> bool" where
  "tree_invar n \<longleftrightarrow> tree_ok 64 n \<and> (\<forall>v. count (tree_mset n) v \<le> 1)"

interpretation tq: priority_queue tree_invar tree_mset InitPartialPriorityTree Insert
  "\<lambda>n. returns (PopMin n)" PopNearMax Size
proof unfold_locales
  show "tree_invar InitPartialPriorityTree"
    using Init_ok by (simp add: tree_invar_def InitPartialPriorityTree_def)
  show "tree_mset InitPartialPriorityTree = {#}" by (simp add: InitPartialPriorityTree_def)
next
  fix n x assume n: "tree_invar n" and x: "x \<notin># tree_mset n"
  have hi: "n_high n = - 1" "n_low n = 0"
  proof -
    have "uint (n_high n) + 1 = uint (n_low n) + 2 ^ 64"
      using n tree_okE(1) [of 64 n] by (simp add: tree_invar_def)
    moreover have "uint (n_high n) < 2 ^ 64" using uint_lt2p [of "n_high n"] by simp
    ultimately have "uint (n_low n) = 0" "uint (n_high n) = 2 ^ 64 - 1"
      using uint_ge_0 [of "n_low n"] by linarith+
    then show "n_high n = - 1" "n_low n = 0"
      by (simp_all add: word_uint_eq_iff unsigned_minus_1_eq_mask mask_eq_exp_minus_1)
  qed
  with n have "tree_ok 64 (Insert x n)" by (auto simp: tree_invar_def intro!: Insert_ok)
  moreover have "count (tree_mset (Insert x n)) v \<le> 1" for v
    using n x by (auto simp: tree_invar_def not_in_iff)
  ultimately show "tree_invar (Insert x n)" by (simp add: tree_invar_def)
next
  fix n assume n: "tree_invar n" and ne: "tree_mset n \<noteq> {#}"
  then have sz: "0 < n_size n" and t: "tree_ok 64 n"
    using tree_ok_size [of 64 n] by (simp_all add: tree_invar_def nonempty_has_size)
  have less: "count (tree_mset m) v \<le> 1" if "popped 64 n u m" for u m v
  proof -
    have "count (add_mset u (tree_mset m)) v \<le> 1"
      using that n by (metis popped_def tree_invar_def)
    then show ?thesis by (simp split: if_splits)
  qed
  have "count (tree_mset n) v < 10" for v
    using n le_less_trans [of "count (tree_mset n) v" 1 10] by (simp add: tree_invar_def)
  from PopMin_ok [OF t sz this] less
  show "ok (returns (PopMin n)) (\<lambda>(x, q'). tree_invar q' \<and> tree_mset n = add_mset x (tree_mset q') \<and>
        (\<forall>y. y \<in># tree_mset n \<longrightarrow> x \<le> y))"
    by (fastforce simp: tree_invar_def popped_def)
  from PopNearMax_ok [OF t sz] less
  show "ok (PopNearMax n) (\<lambda>(x, q'). tree_invar q' \<and> tree_mset n = add_mset x (tree_mset q'))"
    by (fastforce simp: tree_invar_def popped_def)
qed (auto simp: tree_invar_def intro: tree_ok_size)

section \<open>Properties\<close>

text \<open>C14: From a well-formed non-empty tree with fewer than ten copies of every value,
  \<open>PopMin\<close> returns; it takes out exactly one occurrence of the least element, keeps the tree
  well-formed, and leaves fewer than ten pending elements at the node, in order.\<close>

theorem PopMin_returns_minimum:
  assumes "tree_ok k n" and "0 < Size n" and "\<forall>v. count (tree_mset n) v < 10"
  shows "\<exists>v n'. PopMin n = Some (Inr (v, n')) \<and> tree_ok k n' \<and>
    tree_mset n = add_mset v (tree_mset n') \<and> v = Min_mset (tree_mset n) \<and>
    length (n_elements n') < 10 \<and> n_sorted n'"
proof -
  from PopMin_ok [OF assms(1,2)] assms(3) obtain v n' where
    p: "PopMin n = Some (Inr (v, n'))" "popped k n v n'" "\<And>e. e \<in># tree_mset n \<Longrightarrow> v \<le> e"
      "length (n_elements n') < 10" "n_sorted n'"
    by blast
  moreover have "v = Min_mset (tree_mset n)"
    using p(2,3) by (intro Min_eqI [symmetric]) (auto simp: popped_def)
  ultimately show ?thesis by (auto simp: popped_def)
qed

lemma three_ok: "tree_ok 64 (fold Insert [3, 1, 2] InitPartialPriorityTree)"
  using tq.insert_all [of InitPartialPriorityTree "[3, 1, 2]"] tq.empty_ok
  by (simp add: tree_invar_def)

theorem PopMin_returns_minimum_witness:
  "\<exists>v n'. PopMin (fold Insert [3, 1, 2] InitPartialPriorityTree) = Some (Inr (v, n')) \<and>
     v = Min_mset {#1, 2, 3#}"
proof -
  let ?n = "fold Insert [3, 1, 2] InitPartialPriorityTree"
  have m: "tree_mset ?n = {#1, 2, 3#}" and "0 < Size ?n"
    by (simp_all add: InitPartialPriorityTree_def add_mset_commute)
  moreover from m have "\<forall>v. count (tree_mset ?n) v < 10" by simp
  ultimately show ?thesis using PopMin_returns_minimum [OF three_ok] by metis
qed

text \<open>C24: Draining a tree filled with distinct ids by \<open>PopMin\<close> yields them in ascending order,
  however many leaves were split on the way: the tree refines sorting.\<close>

theorem PopMin_drains_sorted:
  assumes "distinct xs"
  shows "\<exists>t. popn (\<lambda>n. returns (PopMin n)) (length xs) (fold Insert xs InitPartialPriorityTree) =
    Inr (sort xs, t)"
  using tq.drain_sorted [OF assms] by (auto simp: ok_iff)

theorem PopMin_drains_sorted_witness:
  "\<exists>t. popn (\<lambda>n. returns (PopMin n)) 12
     (fold Insert [9, 8, 7, 6, 5, 4, 3, 2, 1, 0, 11, 10] InitPartialPriorityTree) =
    Inr ([0, 1, 2, 3, 4, 5, 6, 7, 8, 9, 10, 11], t)"
proof -
  let ?xs = "[9, 8, 7, 6, 5, 4, 3, 2, 1, 0, 11, 10] :: u64 list"
  have d: "distinct ?xs" by code_simp
  have s: "sort ?xs = [0, 1, 2, 3, 4, 5, 6, 7, 8, 9, 10, 11]" by code_simp
  have l: "length ?xs = 12" by code_simp
  show ?thesis using PopMin_drains_sorted [OF d] unfolding s l .
qed

text \<open>\<open>PopNearMax\<close> of a well-formed non-empty tree takes out exactly one element; at an
  inner node it never takes an element of the lower half of the range while the tree holds one
  of the upper half.\<close>

theorem PopNearMax_takes_large:
  assumes "tree_ok k n" and "0 < Size n"
  shows "\<exists>v n'. PopNearMax n = Inr (v, n') \<and> tree_ok k n' \<and>
    tree_mset n = add_mset v (tree_mset n') \<and>
    (\<not> n_isleaf n \<and> (\<exists>e. e \<in># tree_mset n \<and> n_mid n \<le> e) \<longrightarrow> n_mid n \<le> v)"
  using PopNearMax_ok [OF assms] by (auto simp: popped_def)

theorem PopNearMax_takes_large_witness:
  "\<exists>v n'. PopNearMax (fold Insert [3, 1, 2] InitPartialPriorityTree) = Inr (v, n') \<and> tree_ok 64 n'"
proof -
  have "0 < Size (fold Insert [3, 1, 2] InitPartialPriorityTree)"
    by (simp add: InitPartialPriorityTree_def)
  with PopNearMax_takes_large [OF three_ok] show ?thesis by metis
qed

text \<open>C28: Ten or more copies of one id make \<open>PopMin\<close> recurse for ever: the leaf that holds
  them is split again and again, and the call never returns.\<close>

theorem PopMin_diverges_on_duplicates:
  assumes "10 \<le> m"
  shows "PopMin (fold Insert (replicate m v) InitPartialPriorityTree) = None"
proof -
  have "fold Insert (replicate m v) t = (Insert v ^^ m) t" for t
    by (induction m arbitrary: t) (simp_all add: funpow_swap1)
  then have "crowded v (fold Insert (replicate m v) InitPartialPriorityTree)"
    using assms by (simp add: InitPartialPriorityTree_def Insert_funpow_init crowded_def)
  then show ?thesis by (rule PopMin_crowded)
qed

theorem PopMin_diverges_on_duplicates_witness:
  "PopMin (fold Insert (replicate 10 7) InitPartialPriorityTree) = None"
  using PopMin_diverges_on_duplicates [of 10 7] by simp

end
