(* ===== verification/Agent_State.thy ===== *)
theory Agent_State
  imports Go_List Priority_Tree
begin

text \<open>
  The state of the agent's data manager: the structs of \<^verbatim>\<open>datamanager.go\<close>,
  \<^verbatim>\<open>trace.go\<close>, \<^verbatim>\<open>firedtrigger.go\<close> and \<^verbatim>\<open>triggerqueue.go\<close>, and the heap they live in.
  Traces, fired triggers and trigger queues are shared by pointers in the source; here a pointer
  is an address into one of three heaps.  Heaps are total functions because Go has no dangling
  pointers; \<open>next_trace\<close>, \<open>next_fired\<close> and \<open>next_queue\<close> are the next free addresses.
\<close>

type_synonym taddr = nat
type_synonym faddr = nat
type_synonym qaddr = nat

record TriggerID =
  queue_id :: int
  base_trace_id :: u64

text \<open>The three implementations of the interface \<^verbatim>\<open>tracestate\<close>; nil is \<open>None\<close> of
  \<open>tr_state\<close>.\<close>

datatype tracestate =
    untriggeredTrace (ut_buffers: "buffer list") (ut_breadcrumbs: "string list")
      (ut_last_modified: time) (ut_dm_lru_element: nat)
  | triggeredTrace (t_triggers: "(TriggerID, faddr) gomap")
  | reportingTrace (rt_buffers: "buffer list") (rt_triggers: "(TriggerID, faddr) gomap")

record Trace =
  tr_id :: u64
  tr_state :: "tracestate option"

text \<open>The two implementations of \<^verbatim>\<open>firedtriggerstate\<close>.\<close>

datatype firedtriggerstate =
    idleTrigger (it_last_modified: time) (it_tq_lru_element: nat)
  | reportingTrigger

record FiredTrigger =
  ft_id :: TriggerID
  ft_queue :: qaddr
  ft_traces :: "(u64, taddr) gomap"
  ft_buffer_count :: int
  ft_state :: "firedtriggerstate option"

record TriggerMetrics =
  tm_count :: int
  tm_local :: int
  tm_remote :: int
  tm_dropped :: int
  tm_evicted :: int
  tm_buffers :: int
  tm_reported_buffers :: int
  tm_evicted_buffers :: int

definition zeroMetrics :: TriggerMetrics where
  "zeroMetrics = \<lparr>tm_count = 0, tm_local = 0, tm_remote = 0, tm_dropped = 0, tm_evicted = 0,
     tm_buffers = 0, tm_reported_buffers = 0, tm_evicted_buffers = 0\<rparr>"

record TriggerQueue =
  tq_id :: int
  tq_trace_count :: int
  tq_buffer_count :: int
  tq_fired :: "(u64, faddr) gomap"
  tq_reporting :: TreeNode
  tq_idle :: "faddr golist"
  tq_metrics :: TriggerMetrics

record UntriggeredData =
  ud_lru :: "taddr golist"
  ud_trace_count :: int
  ud_buffer_count :: int
  ud_event_horizion :: time

record TriggeredData =
  td_trace_count :: int
  td_buffer_count :: int
  td_queues :: "(int, qaddr) gomap"

record DataManager =
  dm_now :: time
  dm_traces :: "(u64, taddr) gomap"
  dm_untriggered :: UntriggeredData
  dm_triggered :: TriggeredData
  dm_trace_count :: int
  dm_buffer_count :: int

record dms = DataManager +
  h_traces :: "taddr \<Rightarrow> Trace"
  h_fired :: "faddr \<Rightarrow> FiredTrigger"
  h_queues :: "qaddr \<Rightarrow> TriggerQueue"
  next_trace :: taddr
  next_fired :: faddr
  next_queue :: qaddr

section \<open>Field updates through pointers\<close>

definition upd_trace :: "taddr \<Rightarrow> (Trace \<Rightarrow> Trace) \<Rightarrow> dms \<Rightarrow> dms" where
  "upd_trace a g s = s\<lparr>h_traces := (h_traces s)(a := g (h_traces s a))\<rparr>"

definition upd_fired :: "faddr \<Rightarrow> (FiredTrigger \<Rightarrow> FiredTrigger) \<Rightarrow> dms \<Rightarrow> dms" where
  "upd_fired f g s = s\<lparr>h_fired := (h_fired s)(f := g (h_fired s f))\<rparr>"

definition upd_queue :: "qaddr \<Rightarrow> (TriggerQueue \<Rightarrow> TriggerQueue) \<Rightarrow> dms \<Rightarrow> dms" where
  "upd_queue q g s = s\<lparr>h_queues := (h_queues s)(q := g (h_queues s q))\<rparr>"

definition upd_untriggered :: "(UntriggeredData \<Rightarrow> UntriggeredData) \<Rightarrow> dms \<Rightarrow> dms" where
  "upd_untriggered g s = s\<lparr>dm_untriggered := g (dm_untriggered s)\<rparr>"

definition upd_triggered :: "(TriggeredData \<Rightarrow> TriggeredData) \<Rightarrow> dms \<Rightarrow> dms" where
  "upd_triggered g s = s\<lparr>dm_triggered := g (dm_triggered s)\<rparr>"

definition upd_metrics :: "qaddr \<Rightarrow> (TriggerMetrics \<Rightarrow> TriggerMetrics) \<Rightarrow> dms \<Rightarrow> dms" where
  "upd_metrics q g = upd_queue q (\<lambda>tq. tq\<lparr>tq_metrics := g (tq_metrics tq)\<rparr>)"

abbreviation len :: "'a list \<Rightarrow> int" where
  "len xs \<equiv> int (length xs)"

lemmas upd_defs = upd_trace_def upd_fired_def upd_queue_def upd_untriggered_def upd_triggered_def
  upd_metrics_def

text \<open>\<^verbatim>\<open>InitDataManager\<close> and \<^verbatim>\<open>Init\<close> (datamanager.go); the zero \<^verbatim>\<open>time.Time\<close> is 0.
  The initial contents of the heaps are never read.\<close>

definition InitDataManager :: "time \<Rightarrow> dms" where
  "InitDataManager now =
     \<lparr>dm_now = now, dm_traces = [],
      dm_untriggered = \<lparr>ud_lru = list_New, ud_trace_count = 0, ud_buffer_count = 0,
        ud_event_horizion = 0\<rparr>,
      dm_triggered = \<lparr>td_trace_count = 0, td_buffer_count = 0, td_queues = []\<rparr>,
      dm_trace_count = 0, dm_buffer_count = 0,
      h_traces = (\<lambda>_. \<lparr>tr_id = 0, tr_state = None\<rparr>),
      h_fired = (\<lambda>_. \<lparr>ft_id = \<lparr>queue_id = 0, base_trace_id = 0\<rparr>, ft_queue = 0, ft_traces = [],
        ft_buffer_count = 0, ft_state = None\<rparr>),
      h_queues = (\<lambda>_. \<lparr>tq_id = 0, tq_trace_count = 0, tq_buffer_count = 0, tq_fired = [],
        tq_reporting = InitPartialPriorityTree, tq_idle = list_New, tq_metrics = zeroMetrics\<rparr>),
      next_trace = 0, next_fired = 0, next_queue = 0\<rparr>"

end
