(* ===== verification/Agent_Invariant.thy ===== *)
theory Agent_Invariant
  imports Agent_State
begin

text \<open>
  The invariant of the data manager: which objects are live, how the pointers between traces,
  fired triggers and queues agree, which list and which tree an object is in, and what every
  counter counts.

  While a fired trigger is being attached to a trace or unhooked from its traces, the links of
  that trigger are ahead of, or behind, its field \<open>ft_traces\<close>.  The parts of the invariant
  therefore take the links of each trigger as a parameter \<open>E\<close>; between operations \<open>E f\<close> is
  \<open>ft_traces\<close> of \<open>f\<close>.
\<close>

section \<open>Live objects\<close>

definition live_trace :: "dms \<Rightarrow> u64 \<Rightarrow> taddr \<Rightarrow> bool" where
  "live_trace s i a \<longleftrightarrow> mget (dm_traces s) i = Some a"

definition live_queue :: "dms \<Rightarrow> int \<Rightarrow> qaddr \<Rightarrow> bool" where
  "live_queue s k q \<longleftrightarrow> mget (td_queues (dm_triggered s)) k = Some q"

definition live_fired :: "dms \<Rightarrow> TriggerID \<Rightarrow> faddr \<Rightarrow> bool" where
  "live_fired s i f \<longleftrightarrow> (\<exists>q. live_queue s (queue_id i) q \<and>
     mget (tq_fired (h_queues s q)) (base_trace_id i) = Some f)"

section \<open>Views of a state\<close>

fun st_buffers :: "tracestate option \<Rightarrow> buffer list" where
  "st_buffers (Some (untriggeredTrace b c l e)) = b"
| "st_buffers (Some (reportingTrace b ts)) = b"
| "st_buffers _ = []"

fun st_triggers :: "tracestate option \<Rightarrow> (TriggerID, faddr) gomap" where
  "st_triggers (Some (triggeredTrace ts)) = ts"
| "st_triggers (Some (reportingTrace b ts)) = ts"
| "st_triggers _ = []"

fun st_elem :: "tracestate option \<Rightarrow> nat option" where
  "st_elem (Some (untriggeredTrace b c l e)) = Some e"
| "st_elem _ = None"

fun st_stamp :: "tracestate option \<Rightarrow> time" where
  "st_stamp (Some (untriggeredTrace b c l e)) = l"
| "st_stamp _ = 0"

fun st_reporting :: "tracestate option \<Rightarrow> bool" where
  "st_reporting (Some (reportingTrace b ts)) = True"
| "st_reporting _ = False"

fun ft_elem :: "firedtriggerstate option \<Rightarrow> nat option" where
  "ft_elem (Some (idleTrigger l e)) = Some e"
| "ft_elem _ = None"

fun ft_stamp :: "firedtriggerstate option \<Rightarrow> time" where
  "ft_stamp (Some (idleTrigger l e)) = l"
| "ft_stamp _ = 0"

abbreviation tstate :: "dms \<Rightarrow> taddr \<Rightarrow> tracestate option" where
  "tstate s a \<equiv> tr_state (h_traces s a)"

abbreviation tbufs :: "dms \<Rightarrow> taddr \<Rightarrow> buffer list" where
  "tbufs s a \<equiv> st_buffers (tstate s a)"

abbreviation ttrigs :: "dms \<Rightarrow> taddr \<Rightarrow> (TriggerID, faddr) gomap" where
  "ttrigs s a \<equiv> st_triggers (tstate s a)"

type_synonym links = "faddr \<Rightarrow> (u64, taddr) gomap"

text \<open>All buffers the data manager holds.\<close>

definition held :: "dms \<Rightarrow> buffer multiset" where
  "held s = msum (\<lambda>(i, a). mset (tbufs s a)) (dm_traces s)"

section \<open>The invariant\<close>

definition queue_ok ::
    "time \<Rightarrow> (faddr \<Rightarrow> FiredTrigger) \<Rightarrow> faddr \<Rightarrow> links \<Rightarrow> int \<Rightarrow> qaddr \<Rightarrow> TriggerQueue \<Rightarrow> bool" where
  "queue_ok now H nf E k q Q \<longleftrightarrow>
     tq_id Q = k \<and> mok (tq_fired Q) \<and> list_wf (tq_idle Q) \<and> tree_invar (tq_reporting Q) \<and>
     (\<forall>b f. mget (tq_fired Q) b = Some f \<longrightarrow>
        f < nf \<and> ft_id (H f) = \<lparr>queue_id = k, base_trace_id = b\<rparr> \<and> ft_queue (H f) = q \<and>
        ft_state (H f) \<noteq> None) \<and>
     (\<forall>e f. (e, f) \<in> set (elems (tq_idle Q)) \<longleftrightarrow>
        (\<exists>b. mget (tq_fired Q) b = Some f) \<and> ft_elem (ft_state (H f)) = Some e) \<and>
     (\<forall>b. b \<in># tree_mset (tq_reporting Q) \<longleftrightarrow>
        (\<exists>f. mget (tq_fired Q) b = Some f \<and> ft_state (H f) = Some reportingTrigger)) \<and>
     lru_sorted (\<lambda>(e, f). ft_stamp (ft_state (H f))) (elems (tq_idle Q)) \<and>
     (\<forall>e f. (e, f) \<in> set (elems (tq_idle Q)) \<longrightarrow> ft_stamp (ft_state (H f)) \<le> now) \<and>
     tq_buffer_count Q = msum (\<lambda>(b, f). ft_buffer_count (H f)) (tq_fired Q) \<and>
     tq_trace_count Q = msum (\<lambda>(b, f). len (E f)) (tq_fired Q)"

definition queues_ok :: "links \<Rightarrow> dms \<Rightarrow> bool" where
  "queues_ok E s \<longleftrightarrow> mok (td_queues (dm_triggered s)) \<and>
     (\<forall>k q. live_queue s k q \<longrightarrow> q < next_queue s \<and>
        queue_ok (dm_now s) (h_fired s) (next_fired s) E k q (h_queues s q))"

definition trace_ok :: "links \<Rightarrow> dms \<Rightarrow> u64 \<Rightarrow> taddr \<Rightarrow> bool" where
  "trace_ok E s i a \<longleftrightarrow>
     a < next_trace s \<and> tr_id (h_traces s a) = i \<and> tstate s a \<noteq> None \<and> mok (ttrigs s a) \<and>
     (st_elem (tstate s a) = None \<longrightarrow> ttrigs s a \<noteq> []) \<and>
     (\<forall>tid f. mget (ttrigs s a) tid = Some f \<longleftrightarrow> live_fired s tid f \<and> mget (E f) i = Some a) \<and>
     (st_reporting (tstate s a) \<longrightarrow>
        (\<forall>tid f. mget (ttrigs s a) tid = Some f \<longrightarrow> ft_state (h_fired s f) = Some reportingTrigger))"

definition fired_ok :: "links \<Rightarrow> dms \<Rightarrow> faddr \<Rightarrow> bool" where
  "fired_ok E s f \<longleftrightarrow> mok (E f) \<and> (\<forall>i a. mget (E f) i = Some a \<longrightarrow> live_trace s i a) \<and>
     ft_buffer_count (h_fired s f) = msum (\<lambda>(i, a). len (tbufs s a)) (E f)"

definition lru_ok :: "dms \<Rightarrow> bool" where
  "lru_ok s \<longleftrightarrow> list_wf (ud_lru (dm_untriggered s)) \<and>
     (\<forall>e a. (e, a) \<in> set (elems (ud_lru (dm_untriggered s))) \<longleftrightarrow>
        (\<exists>i. live_trace s i a) \<and> st_elem (tstate s a) = Some e) \<and>
     lru_sorted (\<lambda>(e, a). st_stamp (tstate s a)) (elems (ud_lru (dm_untriggered s))) \<and>
     (\<forall>e a. (e, a) \<in> set (elems (ud_lru (dm_untriggered s))) \<longrightarrow> st_stamp (tstate s a) \<le> dm_now s)"

abbreviation untriggered_p :: "dms \<Rightarrow> taddr \<Rightarrow> bool" where
  "untriggered_p s a \<equiv> st_elem (tstate s a) \<noteq> None"

definition counts_ok :: "dms \<Rightarrow> bool" where
  "counts_ok s \<longleftrightarrow>
     dm_trace_count s = len (dm_traces s) \<and>
     dm_buffer_count s = msum (\<lambda>(i, a). len (tbufs s a)) (dm_traces s) \<and>
     ud_trace_count (dm_untriggered s) =
       msum (\<lambda>(i, a). if untriggered_p s a then 1 else 0) (dm_traces s) \<and>
     ud_buffer_count (dm_untriggered s) =
       msum (\<lambda>(i, a). if untriggered_p s a then len (tbufs s a) else 0) (dm_traces s) \<and>
     td_trace_count (dm_triggered s) =
       msum (\<lambda>(i, a). if untriggered_p s a then 0 else 1) (dm_traces s) \<and>
     td_buffer_count (dm_triggered s) =
       msum (\<lambda>(i, a). if untriggered_p s a then 0 else len (tbufs s a)) (dm_traces s)"

definition inv :: "links \<Rightarrow> dms \<Rightarrow> bool" where
  "inv E s \<longleftrightarrow> mok (dm_traces s) \<and> queues_ok E s \<and>
     (\<forall>i a. live_trace s i a \<longrightarrow> trace_ok E s i a) \<and>
     (\<forall>tid f. live_fired s tid f \<longrightarrow> fired_ok E s f) \<and> lru_ok s \<and> counts_ok s"

definition dm_inv :: "dms \<Rightarrow> bool" where
  "dm_inv s \<longleftrightarrow> inv (\<lambda>f. ft_traces (h_fired s f)) s"

section \<open>Basic consequences\<close>

lemma invD:
  assumes "inv E s"
  shows "mok (dm_traces s)" "queues_ok E s" "live_trace s i a \<Longrightarrow> trace_ok E s i a"
    "live_fired s tid f \<Longrightarrow> fired_ok E s f" "lru_ok s" "counts_ok s"
  using assms by (auto simp: inv_def)

lemma queues_okD:
  assumes "queues_ok E s" "live_queue s k q"
  shows "q < next_queue s" "queue_ok (dm_now s) (h_fired s) (next_fired s) E k q (h_queues s q)"
  using assms by (auto simp: queues_ok_def)

lemma live_firedI:
  "live_queue s k q \<Longrightarrow> mget (tq_fired (h_queues s q)) b = Some f \<Longrightarrow>
     live_fired s \<lparr>queue_id = k, base_trace_id = b\<rparr> f"
  by (auto simp: live_fired_def)

lemma live_firedE:
  assumes "queues_ok E s" "live_fired s tid f"
  obtains q where "live_queue s (queue_id tid) q"
    "mget (tq_fired (h_queues s q)) (base_trace_id tid) = Some f"
    "ft_queue (h_fired s f) = q" "ft_id (h_fired s f) = tid" "f < next_fired s"
    "ft_state (h_fired s f) \<noteq> None"
proof -
  from assms(2) obtain q where q: "live_queue s (queue_id tid) q"
    "mget (tq_fired (h_queues s q)) (base_trace_id tid) = Some f"
    by (auto simp: live_fired_def)
  with queues_okD(2) [OF assms(1) q(1)] have "ft_queue (h_fired s f) = q" "f < next_fired s"
    "ft_state (h_fired s f) \<noteq> None"
    "ft_id (h_fired s f) = \<lparr>queue_id = queue_id tid, base_trace_id = base_trace_id tid\<rparr>"
    by (auto simp: queue_ok_def)
  with q that show ?thesis by simp
qed

lemma live_fired_inj:
  "queues_ok E s \<Longrightarrow> live_fired s tid f \<Longrightarrow> live_fired s tid' f \<Longrightarrow> tid = tid'"
  by (metis live_firedE)

lemma live_fired_id: "queues_ok E s \<Longrightarrow> live_fired s tid f \<Longrightarrow> ft_id (h_fired s f) = tid"
  by (metis live_firedE)

text \<open>Which parts of the state a live trigger depends on.\<close>

lemma live_fired_cong:
  assumes "td_queues (dm_triggered s') = td_queues (dm_triggered s)"
    and "\<And>q. tq_fired (h_queues s' q) = tq_fired (h_queues s q)"
  shows "live_fired s' tid f \<longleftrightarrow> live_fired s tid f"
  using assms by (simp add: live_fired_def live_queue_def)

lemma live_trace_addr_inj:
  "inv E s \<Longrightarrow> live_trace s i a \<Longrightarrow> live_trace s j a \<Longrightarrow> i = j"
  by (metis invD(3) trace_ok_def)

lemma queue_ok_cong:
  assumes "queue_ok now H nf E k q Q"
    and "\<And>b f. mget (tq_fired Q) b = Some f \<Longrightarrow> H' f = H f \<and> len (E' f) = len (E f)"
  shows "queue_ok now H' nf E' k q Q"
proof -
  have m: "mok (tq_fired Q)" and idle: "\<And>e f. (e, f) \<in> set (elems (tq_idle Q)) \<Longrightarrow> H' f = H f"
    using assms by (auto simp: queue_ok_def)
  have f: "H' f = H f" "len (E' f) = len (E f)" if "(b, f) \<in> set (tq_fired Q)" for b f
    using assms(2) m that by (auto simp: mget_set)
  have "msum (\<lambda>(b, f). ft_buffer_count (H' f)) (tq_fired Q) = msum (\<lambda>(b, f). ft_buffer_count (H f)) (tq_fired Q)"
    "msum (\<lambda>(b, f). len (E' f)) (tq_fired Q) = msum (\<lambda>(b, f). len (E f)) (tq_fired Q)"
    using f by (auto intro!: msum_cong)
  moreover have "lru_sorted (\<lambda>(e, f). ft_stamp (ft_state (H' f))) (elems (tq_idle Q))"
    using assms(1) idle by (auto simp: queue_ok_def elim!: lru_sorted_cong)
  moreover have "\<forall>b f. mget (tq_fired Q) b = Some f \<longrightarrow> f < nf \<and>
      ft_id (H' f) = \<lparr>queue_id = k, base_trace_id = b\<rparr> \<and> ft_queue (H' f) = q \<and> ft_state (H' f) \<noteq> None"
    using assms by (simp add: queue_ok_def)
  moreover have "\<forall>e f. (e, f) \<in> set (elems (tq_idle Q)) \<longleftrightarrow>
      (\<exists>b. mget (tq_fired Q) b = Some f) \<and> ft_elem (ft_state (H' f)) = Some e"
    using assms(1) [unfolded queue_ok_def] assms(2) by metis
  moreover have "\<forall>b. b \<in># tree_mset (tq_reporting Q) \<longleftrightarrow>
      (\<exists>f. mget (tq_fired Q) b = Some f \<and> ft_state (H' f) = Some reportingTrigger)"
    using assms(1) [unfolded queue_ok_def] assms(2) by metis
  moreover have "\<forall>e f. (e, f) \<in> set (elems (tq_idle Q)) \<longrightarrow> ft_stamp (ft_state (H' f)) \<le> now"
    using assms(1) [unfolded queue_ok_def] idle by simp
  ultimately show ?thesis using assms(1) by (simp add: queue_ok_def)
qed

text \<open>Other traces are not affected by a step that keeps their links.\<close>

lemma trace_ok_frame:
  assumes "trace_ok E s j b" and "h_traces s' b = h_traces s b" and "next_trace s \<le> next_trace s'"
    and "\<And>tid f. live_fired s' tid f \<longleftrightarrow> live_fired s tid f"
    and "\<And>tid f. live_fired s tid f \<Longrightarrow> mget (E' f) j = mget (E f) j"
    and "\<And>tid f. live_fired s tid f \<Longrightarrow> ft_state (h_fired s f) = Some reportingTrigger \<Longrightarrow>
           ft_state (h_fired s' f) = Some reportingTrigger"
  shows "trace_ok E' s' j b"
proof -
  have "\<forall>tid f. mget (ttrigs s b) tid = Some f \<longleftrightarrow> live_fired s tid f \<and> mget (E' f) j = Some b"
    using assms(1,5) by (auto simp: trace_ok_def)
  moreover have "st_reporting (tstate s b) \<longrightarrow>
      (\<forall>tid f. mget (ttrigs s b) tid = Some f \<longrightarrow> ft_state (h_fired s' f) = Some reportingTrigger)"
    using assms(1,6) by (auto simp: trace_ok_def)
  ultimately show ?thesis using assms(1-4) by (auto simp: trace_ok_def)
qed

text \<open>The numbers of buffers are the sizes of the multisets of buffers.\<close>

lemma msum_size: "msum (\<lambda>p. int (size (h p :: 'x multiset))) m = int (size (msum h m))"
  by (induction m) auto

lemma held_size: "counts_ok s \<Longrightarrow> dm_buffer_count s = int (size (held s))"
  unfolding held_def msum_size [symmetric] counts_ok_def
  by (auto intro!: msum_cong)

lemma inv_Init: "dm_inv (InitDataManager now)"
  by (simp add: dm_inv_def inv_def InitDataManager_def queues_ok_def live_queue_def live_trace_def
      live_fired_def lru_ok_def counts_ok_def)

section \<open>Map order\<close>

text \<open>The invariant and the buffers held do not depend on the order of the maps.\<close>

definition reorder_queues :: "(int, qaddr) gomap \<Rightarrow> dms \<Rightarrow> dms" where
  "reorder_queues m s = s\<lparr>dm_triggered := (dm_triggered s)\<lparr>td_queues := m\<rparr>\<rparr>"

definition reorder_links :: "faddr \<Rightarrow> (u64, taddr) gomap \<Rightarrow> dms \<Rightarrow> dms" where
  "reorder_links f m s = s\<lparr>h_fired := (h_fired s)(f := (h_fired s f)\<lparr>ft_traces := m\<rparr>)\<rparr>"

lemma reordered:
  assumes "mset m' = mset m" and "mok m"
  shows "mok m'" "mget m' = mget m" "len m' = len m" "msum h m' = msum h m"
proof -
  have "mset (mkeys m') = mset (mkeys m)" using assms(1) by (metis mset_map)
  then show d: "mok m'" using assms(2) by (metis mok_def mset_eq_imp_distinct_iff)
  show "mget m' = mget m"
    using assms d mset_eq_setD [OF assms(1)] map_of_inject_set [of m' m] by (simp add: mok_def)
  show "len m' = len m" using mset_eq_length [OF assms(1)] by simp
  show "msum h m' = msum h m" by (simp add: msum_def assms(1))
qed

lemma reorder_queues_inv:
  assumes "dm_inv s" and "mset m = mset (td_queues (dm_triggered s))"
  shows "dm_inv (reorder_queues m s) \<and> held (reorder_queues m s) = held s \<and>
    (\<forall>k q. live_queue (reorder_queues m s) k q \<longleftrightarrow> live_queue s k q)"
proof -
  have "mok (td_queues (dm_triggered s))" using assms(1) by (simp add: dm_inv_def inv_def queues_ok_def)
  note r = reordered [OF assms(2) this]
  let ?s = "reorder_queues m s"
  have S: "dm_traces ?s = dm_traces s" "h_traces ?s = h_traces s" "h_queues ?s = h_queues s" "h_fired ?s = h_fired s"
    "td_queues (dm_triggered ?s) = m" "td_trace_count (dm_triggered ?s) = td_trace_count (dm_triggered s)"
    "td_buffer_count (dm_triggered ?s) = td_buffer_count (dm_triggered s)"
    "dm_untriggered ?s = dm_untriggered s" "dm_now ?s = dm_now s" "next_fired ?s = next_fired s" "next_queue ?s = next_queue s"
    "next_trace ?s = next_trace s" "dm_trace_count ?s = dm_trace_count s" "dm_buffer_count ?s = dm_buffer_count s"
    by (simp_all add: reorder_queues_def)
  have L: "live_queue ?s k q \<longleftrightarrow> live_queue s k q" "live_trace ?s i a \<longleftrightarrow> live_trace s i a" "live_fired ?s tid g \<longleftrightarrow> live_fired s tid g"
    for k q i a tid g by (simp_all add: live_queue_def live_trace_def live_fired_def S r(2))
  show ?thesis using assms(1) r(1)
    unfolding dm_inv_def inv_def queues_ok_def trace_ok_def fired_ok_def lru_ok_def counts_ok_def held_def S L by blast
qed

lemma reorder_links_inv:
  assumes "dm_inv s" and "live_fired s tid f" and "mset m = mset (ft_traces (h_fired s f))"
  shows "dm_inv (reorder_links f m s) \<and> held (reorder_links f m s) = held s \<and>
    (\<forall>k q. live_queue (reorder_links f m s) k q \<longleftrightarrow> live_queue s k q)"
proof -
  have "mok (ft_traces (h_fired s f))" using assms(1,2) by (auto simp: dm_inv_def inv_def fired_ok_def)
  note r = reordered [OF assms(3) this]
  let ?s = "reorder_links f m s"
  have E: "mok (ft_traces (h_fired ?s g)) = mok (ft_traces (h_fired s g))" "mget (ft_traces (h_fired ?s g)) = mget (ft_traces (h_fired s g))"
    "len (ft_traces (h_fired ?s g)) = len (ft_traces (h_fired s g))"
    "msum h (ft_traces (h_fired ?s g)) = msum h (ft_traces (h_fired s g))" for g and h :: "u64 \<times> taddr \<Rightarrow> int"
    using \<open>mok (ft_traces (h_fired s f))\<close> by (simp_all add: reorder_links_def r mset_eq_length [OF assms(3)])
  have F: "ft_id (h_fired ?s g) = ft_id (h_fired s g)" "ft_queue (h_fired ?s g) = ft_queue (h_fired s g)"
    "ft_state (h_fired ?s g) = ft_state (h_fired s g)" "ft_buffer_count (h_fired ?s g) = ft_buffer_count (h_fired s g)" for g
    by (simp_all add: reorder_links_def)
  have S: "dm_traces ?s = dm_traces s" "h_traces ?s = h_traces s" "h_queues ?s = h_queues s" "dm_triggered ?s = dm_triggered s"
    "dm_untriggered ?s = dm_untriggered s" "dm_now ?s = dm_now s" "next_fired ?s = next_fired s" "next_queue ?s = next_queue s"
    "next_trace ?s = next_trace s" "dm_trace_count ?s = dm_trace_count s" "dm_buffer_count ?s = dm_buffer_count s"
    by (simp_all add: reorder_links_def)
  have L: "live_queue ?s k q \<longleftrightarrow> live_queue s k q" "live_trace ?s i a \<longleftrightarrow> live_trace s i a" "live_fired ?s tid g \<longleftrightarrow> live_fired s tid g"
    for k q i a tid g by (simp_all add: live_queue_def live_trace_def live_fired_def S)
  have "queues_ok (\<lambda>g. ft_traces (h_fired ?s g)) ?s"
    using assms(1) unfolding dm_inv_def inv_def queues_ok_def queue_ok_def S L F E by blast
  moreover have "trace_ok (\<lambda>g. ft_traces (h_fired ?s g)) ?s i a" if "live_trace s i a" for i a
    using assms(1) that unfolding dm_inv_def inv_def trace_ok_def S L F E by blast
  moreover have "fired_ok (\<lambda>g. ft_traces (h_fired ?s g)) ?s g" if "live_fired s tid g" for tid g
    using assms(1) that unfolding dm_inv_def inv_def fired_ok_def S L F E by blast
  moreover have "lru_ok ?s" "counts_ok ?s" "held ?s = held s"
    using assms(1) unfolding dm_inv_def inv_def lru_ok_def counts_ok_def held_def S L by blast+
  moreover have "mok (dm_traces s)" using assms(1) by (simp add: dm_inv_def inv_def)
  ultimately show ?thesis by (simp add: dm_inv_def inv_def S L)
qed

end
