(* ===== verification/Trace_Machine.thy ===== *)
theory Trace_Machine
  imports Agent_Invariant
begin

text \<open>
  The trace state machine of \<^verbatim>\<open>trace.go\<close> and the two notifications of
  \<^verbatim>\<open>firedtrigger.go\<close> (\<^verbatim>\<open>buffersAdded\<close>, \<^verbatim>\<open>buffersRemoved\<close>) it calls.  Each method of
  each implementation of \<^verbatim>\<open>tracestate\<close> is one definition; the methods of \<^verbatim>\<open>*Trace\<close>
  dispatch on the current state and store the state that the method returns.
\<close>

section \<open>Notifications to a fired trigger\<close>

definition idle_buffersAdded :: "faddr \<Rightarrow> nat \<Rightarrow> dms \<Rightarrow> firedtriggerstate \<times> dms" where
  "idle_buffersAdded f elem s =
     (reportingTrigger,
      upd_queue (ft_queue (h_fired s f))
        (\<lambda>tq. tq\<lparr>tq_idle := list_Remove elem (tq_idle tq),
                 tq_reporting := Insert (base_trace_id (ft_id (h_fired s f))) (tq_reporting tq)\<rparr>) s)"

definition reporting_buffersAdded :: "faddr \<Rightarrow> dms \<Rightarrow> firedtriggerstate \<times> dms" where
  "reporting_buffersAdded f s = (reportingTrigger, s)"

definition FT_buffersAdded :: "faddr \<Rightarrow> int \<Rightarrow> dms \<Rightarrow> dms result" where
  "FT_buffersAdded f cnt s =
     (let s1 = upd_fired f (\<lambda>ft. ft\<lparr>ft_buffer_count := ft_buffer_count ft + cnt\<rparr>) s;
          s2 = upd_queue (ft_queue (h_fired s1 f))
                 (\<lambda>tq. tq\<lparr>tq_buffer_count := tq_buffer_count tq + cnt\<rparr>) s1;
          s3 = upd_metrics (ft_queue (h_fired s2 f))
                 (\<lambda>m. m\<lparr>tm_buffers := tm_buffers m + cnt\<rparr>) s2
      in
        case ft_state (h_fired s3 f) of
          None \<Rightarrow> Inl NilDeref
        | Some st \<Rightarrow>
            (let (st', s4) = (case st of
                                idleTrigger lm elem \<Rightarrow> idle_buffersAdded f elem s3
                              | reportingTrigger \<Rightarrow> reporting_buffersAdded f s3)
             in Inr (upd_fired f (\<lambda>ft. ft\<lparr>ft_state := Some st'\<rparr>) s4)))"

definition FT_buffersRemoved :: "faddr \<Rightarrow> int \<Rightarrow> dms \<Rightarrow> dms" where
  "FT_buffersRemoved f cnt s =
     (let s1 = upd_fired f (\<lambda>ft. ft\<lparr>ft_buffer_count := ft_buffer_count ft - cnt\<rparr>) s
      in upd_queue (ft_queue (h_fired s1 f))
           (\<lambda>tq. tq\<lparr>tq_buffer_count := tq_buffer_count tq - cnt\<rparr>) s1)"

section \<open>Untriggered traces\<close>

definition initUntriggeredTrace :: "u64 \<Rightarrow> dms \<Rightarrow> taddr \<times> dms" where
  "initUntriggeredTrace trace_id s =
     (let a = next_trace s;
          s1 = s\<lparr>next_trace := Suc a, dm_traces := mput trace_id a (dm_traces s)\<rparr>;
          (elem, lru') = list_PushFront a (ud_lru (dm_untriggered s1));
          s2 = upd_untriggered (\<lambda>u. u\<lparr>ud_lru := lru'\<rparr>) s1;
          s3 = upd_trace a (\<lambda>_. \<lparr>tr_id = trace_id,
                 tr_state = Some (untriggeredTrace [] [] (dm_now s) elem)\<rparr>) s2;
          s4 = s3\<lparr>dm_trace_count := dm_trace_count s3 + 1\<rparr>
      in (a, upd_untriggered (\<lambda>u. u\<lparr>ud_trace_count := ud_trace_count u + 1\<rparr>) s4))"

definition untriggered_addBuffers ::
    "buffer list \<Rightarrow> string list \<Rightarrow> time \<Rightarrow> nat \<Rightarrow> buffer list \<Rightarrow> dms \<Rightarrow> tracestate \<times> dms" where
  "untriggered_addBuffers bufs bcs lm elem buffers s =
     (let s1 = upd_untriggered (\<lambda>u. u\<lparr>ud_lru := list_MoveToFront elem (ud_lru u)\<rparr>) s;
          s2 = s1\<lparr>dm_buffer_count := dm_buffer_count s1 + len buffers\<rparr>
      in (untriggeredTrace (bufs @ buffers) bcs (dm_now s) elem,
          upd_untriggered (\<lambda>u. u\<lparr>ud_buffer_count := ud_buffer_count u + len buffers\<rparr>) s2))"

definition untriggered_addBreadcrumbs ::
    "buffer list \<Rightarrow> string list \<Rightarrow> time \<Rightarrow> nat \<Rightarrow> string list \<Rightarrow> dms \<Rightarrow>
       tracestate \<times> string list \<times> dms" where
  "untriggered_addBreadcrumbs bufs bcs lm elem breadcrumbs s =
     (untriggeredTrace bufs (bcs @ breadcrumbs) (dm_now s) elem, [],
      upd_untriggered (\<lambda>u. u\<lparr>ud_lru := list_MoveToFront elem (ud_lru u)\<rparr>) s)"

definition untriggered_addTrigger ::
    "buffer list \<Rightarrow> string list \<Rightarrow> time \<Rightarrow> nat \<Rightarrow> faddr \<Rightarrow> dms \<Rightarrow>
       (tracestate \<times> string list \<times> dms) result" where
  "untriggered_addTrigger bufs bcs lm elem fired s =
     (let s1 = upd_untriggered (\<lambda>u. u\<lparr>ud_lru := list_Remove elem (ud_lru u)\<rparr>) s;
          s2 = upd_untriggered (\<lambda>u. u\<lparr>ud_trace_count := ud_trace_count u - 1,
                                      ud_buffer_count := ud_buffer_count u - len bufs\<rparr>) s1;
          s3 = upd_triggered (\<lambda>d. d\<lparr>td_trace_count := td_trace_count d + 1,
                                    td_buffer_count := td_buffer_count d + len bufs\<rparr>) s2;
          s4 = upd_queue (ft_queue (h_fired s3 fired))
                 (\<lambda>tq. tq\<lparr>tq_trace_count := tq_trace_count tq + 1\<rparr>) s3
      in
        if len bufs > 0 then
          rbind (FT_buffersAdded fired (len bufs) s4)
            (\<lambda>s5. Inr (reportingTrace bufs [(ft_id (h_fired s5 fired), fired)], bcs, s5))
        else Inr (triggeredTrace [(ft_id (h_fired s4 fired), fired)], bcs, s4))"

definition untriggered_takeBuffers ::
    "buffer list \<Rightarrow> string list \<Rightarrow> time \<Rightarrow> nat \<Rightarrow> u64 \<Rightarrow> dms \<Rightarrow>
       tracestate \<times> buffer list \<times> dms" where
  "untriggered_takeBuffers bufs bcs lm elem trace_id s =
     (let s1 = s\<lparr>dm_trace_count := dm_trace_count s - 1,
                dm_buffer_count := dm_buffer_count s - len bufs\<rparr>;
          s2 = upd_untriggered (\<lambda>u. u\<lparr>ud_trace_count := ud_trace_count u - 1,
                 ud_buffer_count := ud_buffer_count u - len bufs,
                 ud_lru := list_Remove elem (ud_lru u), ud_event_horizion := lm\<rparr>) s1
      in (untriggeredTrace [] bcs lm elem, bufs, s2\<lparr>dm_traces := mdel trace_id (dm_traces s2)\<rparr>))"

definition untriggered_removeTrigger :: "(tracestate option \<times> buffer list \<times> dms) result" where
  "untriggered_removeTrigger = Inl (Fatal ''Cannot remove a trigger from an untriggered trace'')"

section \<open>Triggered traces\<close>

definition triggered_addBuffers ::
    "(TriggerID, faddr) gomap \<Rightarrow> buffer list \<Rightarrow> dms \<Rightarrow> (tracestate \<times> dms) result" where
  "triggered_addBuffers triggers buffers s =
     (let s1 = s\<lparr>dm_buffer_count := dm_buffer_count s + len buffers\<rparr>;
          s2 = upd_triggered (\<lambda>d. d\<lparr>td_buffer_count := td_buffer_count d + len buffers\<rparr>) s1
      in rbind (rfold (\<lambda>(_, f). FT_buffersAdded f (len buffers)) triggers s2)
           (\<lambda>s3. Inr (reportingTrace buffers triggers, s3)))"

definition triggered_addBreadcrumbs ::
    "(TriggerID, faddr) gomap \<Rightarrow> string list \<Rightarrow> dms \<Rightarrow> tracestate \<times> string list \<times> dms" where
  "triggered_addBreadcrumbs triggers breadcrumbs s = (triggeredTrace triggers, breadcrumbs, s)"

definition triggered_addTrigger ::
    "(TriggerID, faddr) gomap \<Rightarrow> faddr \<Rightarrow> dms \<Rightarrow> tracestate \<times> string list \<times> dms" where
  "triggered_addTrigger triggers fired s =
     (let id = ft_id (h_fired s fired) in
      if mget triggers id = None
      then (triggeredTrace (mput id fired triggers), [],
            upd_queue (ft_queue (h_fired s fired))
              (\<lambda>tq. tq\<lparr>tq_trace_count := tq_trace_count tq + 1\<rparr>) s)
      else (triggeredTrace triggers, [], s))"

definition triggered_takeBuffers ::
    "(TriggerID, faddr) gomap \<Rightarrow> dms \<Rightarrow> tracestate \<times> buffer list \<times> dms" where
  "triggered_takeBuffers triggers s = (triggeredTrace triggers, [], s)"

definition triggered_removeTrigger ::
    "(TriggerID, faddr) gomap \<Rightarrow> u64 \<Rightarrow> faddr \<Rightarrow> dms \<Rightarrow>
       (tracestate option \<times> buffer list \<times> dms) result" where
  "triggered_removeTrigger triggers trace_id f s =
     (let id = ft_id (h_fired s f) in
      if mget triggers id = None
      then Inl (Fatal ''Attempted to removeTrigger for f that does not exist'')
      else
        (let triggers' = mdel id triggers;
             s1 = upd_queue (ft_queue (h_fired s f))
                    (\<lambda>tq. tq\<lparr>tq_trace_count := tq_trace_count tq - 1\<rparr>) s
         in
           if len triggers' = 0 then
             (let s2 = s1\<lparr>dm_trace_count := dm_trace_count s1 - 1\<rparr>;
                  s3 = upd_triggered (\<lambda>d. d\<lparr>td_trace_count := td_trace_count d - 1\<rparr>) s2
              in Inr (None, [], s3\<lparr>dm_traces := mdel trace_id (dm_traces s3)\<rparr>))
           else Inr (Some (triggeredTrace triggers'), [], s1)))"

section \<open>Reporting traces\<close>

definition reporting_addBuffers ::
    "buffer list \<Rightarrow> (TriggerID, faddr) gomap \<Rightarrow> buffer list \<Rightarrow> dms \<Rightarrow> (tracestate \<times> dms) result" where
  "reporting_addBuffers bufs triggers buffers s =
     (let s1 = s\<lparr>dm_buffer_count := dm_buffer_count s + len buffers\<rparr>;
          s2 = upd_triggered (\<lambda>d. d\<lparr>td_buffer_count := td_buffer_count d + len buffers\<rparr>) s1
      in rbind (rfold (\<lambda>(_, f). FT_buffersAdded f (len buffers)) triggers s2)
           (\<lambda>s3. Inr (reportingTrace (bufs @ buffers) triggers, s3)))"

definition reporting_addBreadcrumbs ::
    "buffer list \<Rightarrow> (TriggerID, faddr) gomap \<Rightarrow> string list \<Rightarrow> dms \<Rightarrow>
       tracestate \<times> string list \<times> dms" where
  "reporting_addBreadcrumbs bufs triggers breadcrumbs s =
     (reportingTrace bufs triggers, breadcrumbs, s)"

definition reporting_addTrigger ::
    "buffer list \<Rightarrow> (TriggerID, faddr) gomap \<Rightarrow> faddr \<Rightarrow> dms \<Rightarrow>
       (tracestate \<times> string list \<times> dms) result" where
  "reporting_addTrigger bufs triggers fired s =
     (let id = ft_id (h_fired s fired) in
      if mget triggers id = None
      then
        (let s1 = upd_queue (ft_queue (h_fired s fired))
                    (\<lambda>tq. tq\<lparr>tq_trace_count := tq_trace_count tq + 1\<rparr>) s
         in rbind (FT_buffersAdded fired (len bufs) s1)
              (\<lambda>s2. Inr (reportingTrace bufs (mput id fired triggers), [], s2)))
      else Inr (reportingTrace bufs triggers, [], s))"

definition reporting_takeBuffers ::
    "buffer list \<Rightarrow> (TriggerID, faddr) gomap \<Rightarrow> dms \<Rightarrow> tracestate \<times> buffer list \<times> dms" where
  "reporting_takeBuffers bufs triggers s =
     (let s1 = s\<lparr>dm_buffer_count := dm_buffer_count s - len bufs\<rparr>;
          s2 = upd_triggered (\<lambda>d. d\<lparr>td_buffer_count := td_buffer_count d - len bufs\<rparr>) s1;
          s3 = fold (\<lambda>(_, f). FT_buffersRemoved f (len bufs)) triggers s2
      in (triggeredTrace triggers, bufs, s3))"

definition reporting_removeTrigger ::
    "buffer list \<Rightarrow> (TriggerID, faddr) gomap \<Rightarrow> u64 \<Rightarrow> faddr \<Rightarrow> dms \<Rightarrow>
       (tracestate option \<times> buffer list \<times> dms) result" where
  "reporting_removeTrigger bufs triggers trace_id f s =
     (let id = ft_id (h_fired s f) in
      if mget triggers id = None
      then Inl (Fatal ''Attempted to removeTrigger in reportingTrace for f that does not exist'')
      else
        (let triggers' = mdel id triggers;
             s1 = upd_queue (ft_queue (h_fired s f))
                    (\<lambda>tq. tq\<lparr>tq_trace_count := tq_trace_count tq - 1\<rparr>) s;
             s2 = FT_buffersRemoved f (len bufs) s1
         in
           if len triggers' = 0 then
             (let s3 = s2\<lparr>dm_trace_count := dm_trace_count s2 - 1,
                         dm_buffer_count := dm_buffer_count s2 - len bufs\<rparr>;
                  s4 = upd_triggered (\<lambda>d. d\<lparr>td_trace_count := td_trace_count d - 1,
                         td_buffer_count := td_buffer_count d - len bufs\<rparr>) s3
              in Inr (None, bufs, s4\<lparr>dm_traces := mdel trace_id (dm_traces s4)\<rparr>))
           else Inr (Some (reportingTrace bufs triggers'), [], s2)))"

section \<open>The methods of Trace\<close>

definition set_state :: "taddr \<Rightarrow> tracestate option \<Rightarrow> dms \<Rightarrow> dms" where
  "set_state t st = upd_trace t (\<lambda>tr. tr\<lparr>tr_state := st\<rparr>)"

definition Trace_AddBuffers :: "taddr \<Rightarrow> buffer list \<Rightarrow> dms \<Rightarrow> dms result" where
  "Trace_AddBuffers t buffers s =
     (case tr_state (h_traces s t) of
        None \<Rightarrow> Inl NilDeref
      | Some (untriggeredTrace bufs bcs lm elem) \<Rightarrow>
          (let (st, s') = untriggered_addBuffers bufs bcs lm elem buffers s
           in Inr (set_state t (Some st) s'))
      | Some (triggeredTrace triggers) \<Rightarrow>
          rbind (triggered_addBuffers triggers buffers s)
            (\<lambda>(st, s'). Inr (set_state t (Some st) s'))
      | Some (reportingTrace bufs triggers) \<Rightarrow>
          rbind (reporting_addBuffers bufs triggers buffers s)
            (\<lambda>(st, s'). Inr (set_state t (Some st) s')))"

definition Trace_AddBreadcrumbs :: "taddr \<Rightarrow> string list \<Rightarrow> dms \<Rightarrow> (string list \<times> dms) result" where
  "Trace_AddBreadcrumbs t breadcrumbs s =
     (case tr_state (h_traces s t) of
        None \<Rightarrow> Inl NilDeref
      | Some st0 \<Rightarrow>
          (let (st, to_report, s') =
             (case st0 of
                untriggeredTrace bufs bcs lm elem \<Rightarrow>
                  untriggered_addBreadcrumbs bufs bcs lm elem breadcrumbs s
              | triggeredTrace triggers \<Rightarrow> triggered_addBreadcrumbs triggers breadcrumbs s
              | reportingTrace bufs triggers \<Rightarrow> reporting_addBreadcrumbs bufs triggers breadcrumbs s)
           in Inr (to_report, set_state t (Some st) s')))"

definition Trace_AddTrigger :: "taddr \<Rightarrow> faddr \<Rightarrow> dms \<Rightarrow> (string list \<times> dms) result" where
  "Trace_AddTrigger t f s =
     (case tr_state (h_traces s t) of
        None \<Rightarrow> Inl NilDeref
      | Some st0 \<Rightarrow>
          rbind (case st0 of
                   untriggeredTrace bufs bcs lm elem \<Rightarrow> untriggered_addTrigger bufs bcs lm elem f s
                 | triggeredTrace triggers \<Rightarrow> Inr (triggered_addTrigger triggers f s)
                 | reportingTrace bufs triggers \<Rightarrow> reporting_addTrigger bufs triggers f s)
            (\<lambda>(st, to_report, s'). Inr (to_report, set_state t (Some st) s')))"

definition Trace_RemoveTrigger :: "taddr \<Rightarrow> faddr \<Rightarrow> dms \<Rightarrow> (buffer list \<times> dms) result" where
  "Trace_RemoveTrigger t f s =
     (case tr_state (h_traces s t) of
        None \<Rightarrow> Inl NilDeref
      | Some st0 \<Rightarrow>
          rbind (case st0 of
                   untriggeredTrace bufs bcs lm elem \<Rightarrow> untriggered_removeTrigger
                 | triggeredTrace triggers \<Rightarrow>
                     triggered_removeTrigger triggers (tr_id (h_traces s t)) f s
                 | reportingTrace bufs triggers \<Rightarrow>
                     reporting_removeTrigger bufs triggers (tr_id (h_traces s t)) f s)
            (\<lambda>(st, buffers, s'). Inr (buffers, set_state t st s')))"

definition Trace_TakeBuffers :: "taddr \<Rightarrow> dms \<Rightarrow> (buffer list \<times> dms) result" where
  "Trace_TakeBuffers t s =
     (case tr_state (h_traces s t) of
        None \<Rightarrow> Inl NilDeref
      | Some st0 \<Rightarrow>
          (let (st, buffers, s') =
             (case st0 of
                untriggeredTrace bufs bcs lm elem \<Rightarrow>
                  untriggered_takeBuffers bufs bcs lm elem (tr_id (h_traces s t)) s
              | triggeredTrace triggers \<Rightarrow> triggered_takeBuffers triggers s
              | reportingTrace bufs triggers \<Rightarrow> reporting_takeBuffers bufs triggers s)
           in Inr (buffers, set_state t (Some st) s')))"

section \<open>Notifications keep the queues consistent\<close>

text \<open>The state of a trigger after \<^verbatim>\<open>buffersAdded\<close>, and the state of its queue.\<close>

definition ft_added :: "int \<Rightarrow> FiredTrigger \<Rightarrow> FiredTrigger" where
  "ft_added c ft = ft\<lparr>ft_buffer_count := ft_buffer_count ft + c, ft_state := Some reportingTrigger\<rparr>"

definition tq_added :: "int \<Rightarrow> FiredTrigger \<Rightarrow> TriggerQueue \<Rightarrow> TriggerQueue" where
  "tq_added c ft tq =
     (let tq1 = tq\<lparr>tq_buffer_count := tq_buffer_count tq + c,
                   tq_metrics := (tq_metrics tq)\<lparr>tm_buffers := tm_buffers (tq_metrics tq) + c\<rparr>\<rparr>
      in case ft_elem (ft_state ft) of
           None \<Rightarrow> tq1
         | Some e \<Rightarrow> tq1\<lparr>tq_idle := list_Remove e (tq_idle tq),
                       tq_reporting := Insert (base_trace_id (ft_id ft)) (tq_reporting tq)\<rparr>)"

lemma tq_added_simps [simp]:
  "tq_fired (tq_added c ft tq) = tq_fired tq" "tq_id (tq_added c ft tq) = tq_id tq"
  "tq_trace_count (tq_added c ft tq) = tq_trace_count tq"
  "tq_buffer_count (tq_added c ft tq) = tq_buffer_count tq + c"
  by (simp_all add: tq_added_def Let_def split: option.split)

lemma ft_added_simps [simp]:
  "ft_id (ft_added c ft) = ft_id ft" "ft_queue (ft_added c ft) = ft_queue ft"
  "ft_traces (ft_added c ft) = ft_traces ft" "ft_state (ft_added c ft) = Some reportingTrigger"
  "ft_buffer_count (ft_added c ft) = ft_buffer_count ft + c"
  by (simp_all add: ft_added_def)

lemma FT_buffersAdded_eq:
  assumes "ft_state (h_fired s f) \<noteq> None"
  shows "FT_buffersAdded f c s =
    Inr (s\<lparr>h_fired := (h_fired s)(f := ft_added c (h_fired s f)),
          h_queues := (h_queues s)(ft_queue (h_fired s f) :=
            tq_added c (h_fired s f) (h_queues s (ft_queue (h_fired s f))))\<rparr>)"
proof -
  from assms obtain st where "ft_state (h_fired s f) = Some st" by blast
  then show ?thesis
    by (cases st) (simp_all add: FT_buffersAdded_def upd_defs idle_buffersAdded_def
        reporting_buffersAdded_def ft_added_def tq_added_def)
qed

lemma queue_fired_only:
  "queue_ok now H nf E k q Q \<Longrightarrow> mget (tq_fired Q) b = Some f \<Longrightarrow> mget (tq_fired Q) b' = Some f \<Longrightarrow> b' = b"
  unfolding queue_ok_def by (metis TriggerID.ext_inject)

lemma queue_sum_added:
  assumes ok: "queue_ok now H nf E k q Q" and f: "mget (tq_fired Q) b = Some f"
  shows "msum (\<lambda>(b, g). ft_buffer_count ((H(f := ft_added c (H f))) g)) (tq_fired Q) = tq_buffer_count Q + c"
proof -
  have m: "mok (tq_fired Q)" and cnt: "tq_buffer_count Q = msum (\<lambda>(b, f). ft_buffer_count (H f)) (tq_fired Q)"
    using ok by (simp_all add: queue_ok_def)
  have "f' \<noteq> f" if "(b', f') \<in> set (tq_fired Q)" "b' \<noteq> b" for b' f'
    using queue_fired_only [OF ok f] that m by (auto simp: mget_set)
  then show ?thesis
    using msum_change [OF m f, of "\<lambda>(b, g). ft_buffer_count ((H(f := ft_added c (H f))) g)" "\<lambda>(b, f). ft_buffer_count (H f)"] cnt
    by simp
qed

text \<open>An idle trigger that gets buffers leaves the idle list and enters the reporting tree.\<close>

lemma queue_idle_added:
  assumes ok: "queue_ok now H nf E k q Q" and f: "mget (tq_fired Q) b = Some f" and e: "ft_elem (ft_state (H f)) = Some e"
  shows "(e', f') \<in> set (elems (list_Remove e (tq_idle Q))) \<longleftrightarrow> (e', f') \<in> set (elems (tq_idle Q)) \<and> f' \<noteq> f"
proof -
  have wf: "list_wf (tq_idle Q)" and idle: "\<And>e f. (e, f) \<in> set (elems (tq_idle Q)) \<longleftrightarrow>
      (\<exists>b. mget (tq_fired Q) b = Some f) \<and> ft_elem (ft_state (H f)) = Some e"
    using ok by (simp_all add: queue_ok_def)
  have "(e, f) \<in> set (elems (tq_idle Q))" using idle f e by blast
  then have "e' = e \<longleftrightarrow> f' = f" if "(e', f') \<in> set (elems (tq_idle Q))"
    using that lst.handle_value_unique [OF wf] idle by (metis e option.inject)
  then show ?thesis by (auto simp: lst.remove_set [OF wf])
qed

lemma queue_reporting_added:
  assumes ok: "queue_ok now H nf E k q Q" and f: "mget (tq_fired Q) b = Some f" and e: "ft_elem (ft_state (H f)) = Some e"
  shows "(\<exists>f'. mget (tq_fired Q) b' = Some f' \<and> ft_state ((H(f := ft_added c (H f))) f') = Some reportingTrigger) \<longleftrightarrow>
    b' = b \<or> b' \<in># tree_mset (tq_reporting Q)"
proof (cases "b' = b")
  case True
  then show ?thesis using f e by simp
next
  case False
  then have "f' \<noteq> f" if "mget (tq_fired Q) b' = Some f'" for f' using queue_fired_only [OF ok f] that by metis
  moreover have "b' \<in># tree_mset (tq_reporting Q) \<longleftrightarrow>
      (\<exists>f. mget (tq_fired Q) b' = Some f \<and> ft_state (H f) = Some reportingTrigger)" using ok by (simp add: queue_ok_def)
  ultimately show ?thesis using False by auto
qed

lemma queue_ok_added:
  assumes ok: "queue_ok now H nf E k q Q" and f: "mget (tq_fired Q) b = Some f"
  shows "queue_ok now (H(f := ft_added c (H f))) nf E k q (tq_added c (H f) Q)"
proof (cases "ft_elem (ft_state (H f))")
  let ?H = "H(f := ft_added c (H f))" and ?Q = "tq_added c (H f) Q"
  have id: "ft_id (H f) = \<lparr>queue_id = k, base_trace_id = b\<rparr>" "ft_state (H f) \<noteq> None" using ok f by (auto simp: queue_ok_def)
  note sum = queue_sum_added [OF ok f, of c]
  {
    case None
    then have "ft_state (H f) = Some reportingTrigger"
      using id by (cases "ft_state (H f)" rule: ft_elem.cases) auto
    then have "ft_state (?H f') = ft_state (H f')" "ft_id (?H f') = ft_id (H f')" "ft_queue (?H f') = ft_queue (H f')" for f'
      by simp_all
    moreover have "tq_idle ?Q = tq_idle Q" "tq_reporting ?Q = tq_reporting Q" using None by (simp_all add: tq_added_def)
    ultimately show ?thesis using ok sum unfolding queue_ok_def by simp
  next
    case (Some e)
    then have Q': "tq_idle ?Q = list_Remove e (tq_idle Q)" "tq_reporting ?Q = Insert b (tq_reporting Q)"
      using id by (simp_all add: tq_added_def)
    note idle = queue_idle_added [OF ok f Some]
    have wf: "list_wf (tq_idle Q)" and lru: "lru_sorted (\<lambda>(e, f). ft_stamp (ft_state (H f))) (elems (tq_idle Q))"
      and tr: "tree_invar (tq_reporting Q)" using ok by (simp_all add: queue_ok_def)
    have b: "b \<notin># tree_mset (tq_reporting Q)" using ok f Some by (auto simp: queue_ok_def)
    have "\<forall>e' f'. (e', f') \<in> set (elems (tq_idle ?Q)) \<longleftrightarrow>
        (\<exists>b. mget (tq_fired ?Q) b = Some f') \<and> ft_elem (ft_state (?H f')) = Some e'"
      using ok by (auto simp: idle Q' queue_ok_def)
    moreover have "\<forall>b'. b' \<in># tree_mset (tq_reporting ?Q) \<longleftrightarrow>
        (\<exists>f'. mget (tq_fired ?Q) b' = Some f' \<and> ft_state (?H f') = Some reportingTrigger)"
      using queue_reporting_added [OF ok f Some, of _ c] b tr by (simp add: Q' tq.insert_ok)
    moreover have "lru_sorted (\<lambda>(e, f). ft_stamp (ft_state (?H f))) (elems (tq_idle ?Q))"
      using lru_sorted_cong [OF lst.lru_remove [OF wf lru, of e]] idle unfolding Q' by force
    moreover have "\<forall>e' f'. (e', f') \<in> set (elems (tq_idle ?Q)) \<longrightarrow> ft_stamp (ft_state (?H f')) \<le> now"
      using ok by (auto simp: idle Q' queue_ok_def)
    ultimately show ?thesis using ok sum b tr wf unfolding queue_ok_def by (simp add: Q' lst.remove_wf tq.insert_ok)
  }
qed

lemma live_queue_inj:
  "queues_ok E s \<Longrightarrow> live_queue s k q \<Longrightarrow> live_queue s k' q \<Longrightarrow> k = k'"
  by (metis queue_ok_def queues_okD(2))

text \<open>A change of one trigger and of its queue leaves the other queues alone.\<close>

lemma queues_ok_upd:
  assumes q: "queues_ok E s" and f: "live_fired s tid f"
    and H': "\<And>g. g \<noteq> f \<Longrightarrow> H' g = h_fired s g" and E': "\<And>g. g \<noteq> f \<Longrightarrow> E' g = E g"
    and Q': "queue_ok (dm_now s) H' (next_fired s) E' (queue_id tid) (ft_queue (h_fired s f)) Q'"
  shows "queues_ok E' (s\<lparr>h_fired := H', h_queues := (h_queues s)(ft_queue (h_fired s f) := Q')\<rparr>)"
proof -
  obtain p where p: "live_queue s (queue_id tid) p" "ft_queue (h_fired s f) = p"
    using live_firedE [OF q f] by metis
  have "q' < next_queue s \<and> queue_ok (dm_now s) H' (next_fired s) E' k q' (((h_queues s)(p := Q')) q')"
    if k: "live_queue s k q'" for k q'
  proof (cases "q' = p")
    case True
    with k p Q' have "k = queue_id tid" using live_queue_inj [OF q] by blast
    with True p Q' queues_okD(1) [OF q k] show ?thesis by simp
  next
    case False
    have "g \<noteq> f" if "mget (tq_fired (h_queues s q')) b = Some g" for b g
      using queues_okD(2) [OF q k] that False p(2) by (auto simp: queue_ok_def)
    then have "queue_ok (dm_now s) H' (next_fired s) E' k q' (h_queues s q')"
      using H' E' by (intro queue_ok_cong [OF queues_okD(2) [OF q k]]) metis
    with False queues_okD(1) [OF q k] show ?thesis by simp
  qed
  then show ?thesis using q p by (simp add: queues_ok_def live_queue_def)
qed

lemma FT_buffersAdded_ok:
  assumes q: "queues_ok E s" and f: "live_fired s tid f"
  shows "ok (FT_buffersAdded f c s) (\<lambda>s'. \<exists>Qh.
     s' = s\<lparr>h_fired := (h_fired s)(f := ft_added c (h_fired s f)), h_queues := Qh\<rparr> \<and>
     queues_ok E s' \<and> (\<forall>q. tq_fired (Qh q) = tq_fired (h_queues s q)))"
proof -
  obtain p where p: "live_queue s (queue_id tid) p" "ft_queue (h_fired s f) = p"
    "mget (tq_fired (h_queues s p)) (base_trace_id tid) = Some f" "ft_state (h_fired s f) \<noteq> None"
    using live_firedE [OF q f] by metis
  have "queues_ok E (s\<lparr>h_fired := (h_fired s)(f := ft_added c (h_fired s f)),
      h_queues := (h_queues s)(ft_queue (h_fired s f) := tq_added c (h_fired s f) (h_queues s p))\<rparr>)"
    by (rule queues_ok_upd [OF q f])
      (use queue_ok_added [OF queues_okD(2) [OF q p(1)] p(3)] p(2) in auto)
  with p show ?thesis by (auto simp: FT_buffersAdded_eq intro!: exI)
qed

text \<open>Apply a change to all triggers of a set.\<close>

definition at_all :: "(FiredTrigger \<Rightarrow> FiredTrigger) \<Rightarrow> faddr set \<Rightarrow> (faddr \<Rightarrow> FiredTrigger) \<Rightarrow> faddr \<Rightarrow> FiredTrigger" where
  "at_all g S H = (\<lambda>f. if f \<in> S then g (H f) else H f)"

lemma at_all_empty [simp]: "at_all g {} H = H"
  by (simp add: at_all_def)

lemma at_all_insert: "f \<notin> S \<Longrightarrow> (at_all g S H)(f := g (at_all g S H f)) = at_all g (insert f S) H"
  by (auto simp: at_all_def)

lemma buffersAdded_fold_ok:
  assumes "queues_ok E s" "\<And>tid f. (tid, f) \<in> set trs \<Longrightarrow> live_fired s tid f" "distinct (mvals trs)"
  shows "ok (rfold (\<lambda>(_, f). FT_buffersAdded f c) trs s) (\<lambda>s'. \<exists>Qh.
     s' = s\<lparr>h_fired := at_all (ft_added c) (set (mvals trs)) (h_fired s), h_queues := Qh\<rparr> \<and>
     queues_ok E s' \<and> (\<forall>q. tq_fired (Qh q) = tq_fired (h_queues s q)))"
proof (rule ok_rfold [where I = "\<lambda>ys s'. \<exists>Qh.
     s' = s\<lparr>h_fired := at_all (ft_added c) (set (mvals ys)) (h_fired s), h_queues := Qh\<rparr> \<and>
     queues_ok E s' \<and> (\<forall>q. tq_fired (Qh q) = tq_fired (h_queues s q))"], goal_cases)
  case 1
  show ?case using assms(1) by (intro exI [of _ "h_queues s"]) simp
next
  case (2 ys x zs s')
  obtain tid f where x: "x = (tid, f)" by (cases x)
  from 2(2) obtain Qh where s': "s' = s\<lparr>h_fired := at_all (ft_added c) (set (mvals ys)) (h_fired s),
      h_queues := Qh\<rparr>" "queues_ok E s'" "\<And>q. tq_fired (Qh q) = tq_fired (h_queues s q)"
    by blast
  have "live_fired s tid f" using assms(2) 2(1) x by simp
  then have live: "live_fired s' tid f" using s'(3) by (simp add: s'(1) live_fired_def live_queue_def)
  have "f \<notin> set (mvals ys)" using assms(3) 2(1) x by simp
  from at_all_insert [OF this, of "ft_added c" "h_fired s"] FT_buffersAdded_ok [OF s'(2) live, of c] s'(3)
  show ?case by (auto simp: x ok_iff s'(1))
qed

text \<open>Removing buffers changes one counter of the trigger and one of its queue.\<close>

definition ft_removed :: "int \<Rightarrow> FiredTrigger \<Rightarrow> FiredTrigger" where
  "ft_removed c ft = ft\<lparr>ft_buffer_count := ft_buffer_count ft - c\<rparr>"

lemma ft_removed_simps [simp]:
  "ft_id (ft_removed c ft) = ft_id ft" "ft_queue (ft_removed c ft) = ft_queue ft"
  "ft_traces (ft_removed c ft) = ft_traces ft" "ft_state (ft_removed c ft) = ft_state ft"
  "ft_buffer_count (ft_removed c ft) = ft_buffer_count ft - c"
  by (simp_all add: ft_removed_def)

text \<open>Two queues that differ in their counters and metrics only.\<close>

definition same_queue :: "TriggerQueue \<Rightarrow> TriggerQueue \<Rightarrow> bool" where
  "same_queue Q Q' \<longleftrightarrow> tq_id Q' = tq_id Q \<and> tq_fired Q' = tq_fired Q \<and>
     tq_reporting Q' = tq_reporting Q \<and> tq_idle Q' = tq_idle Q"

lemma same_queue_refl [simp]: "same_queue Q Q"
  by (simp add: same_queue_def)

lemma same_queue_trans: "same_queue Q Q' \<Longrightarrow> same_queue Q' Q'' \<Longrightarrow> same_queue Q Q''"
  by (simp add: same_queue_def)

lemma queue_ok_count:
  assumes ok: "queue_ok now H nf E k q Q" and f: "mget (tq_fired Q) b = Some f"
    and Q': "same_queue Q Q'" "tq_buffer_count Q' = tq_buffer_count Q - c"
      "tq_trace_count Q' = tq_trace_count Q"
  shows "queue_ok now (H(f := ft_removed c (H f))) nf E k q Q'"
proof -
  let ?H = "H(f := ft_removed c (H f))"
  have m: "mok (tq_fired Q)" and cnt: "tq_buffer_count Q = msum (\<lambda>(b, f). ft_buffer_count (H f)) (tq_fired Q)"
    and ids: "\<And>b f. mget (tq_fired Q) b = Some f \<Longrightarrow> ft_id (H f) = \<lparr>queue_id = k, base_trace_id = b\<rparr>"
    using ok by (simp_all add: queue_ok_def)
  have "f' \<noteq> f" if "(b', f') \<in> set (tq_fired Q)" "b' \<noteq> b" for b' f'
    using ids [OF f] ids [of b' f'] that m by (auto simp: mget_set)
  then have "msum (\<lambda>(b, f). ft_buffer_count (?H f)) (tq_fired Q) = tq_buffer_count Q - c"
    using msum_change [OF m f, of "\<lambda>(b, f). ft_buffer_count (?H f)" "\<lambda>(b, f). ft_buffer_count (H f)"] cnt
    by simp
  moreover have "ft_state (?H f') = ft_state (H f')" "ft_id (?H f') = ft_id (H f')"
    "ft_queue (?H f') = ft_queue (H f')" for f' by simp_all
  ultimately show ?thesis using ok Q' unfolding queue_ok_def same_queue_def by simp
qed

lemma queue_ok_links:
  assumes ok: "queue_ok now H nf E k q Q" and f: "mget (tq_fired Q) b = Some f"
    and Q': "same_queue Q Q'" "tq_buffer_count Q' = tq_buffer_count Q"
      "tq_trace_count Q' = tq_trace_count Q + len L - len (E f)"
  shows "queue_ok now H nf (E(f := L)) k q Q'"
proof -
  have m: "mok (tq_fired Q)" and cnt: "tq_trace_count Q = msum (\<lambda>(b, f). len (E f)) (tq_fired Q)"
    and ids: "\<And>b f. mget (tq_fired Q) b = Some f \<Longrightarrow> ft_id (H f) = \<lparr>queue_id = k, base_trace_id = b\<rparr>"
    using ok by (simp_all add: queue_ok_def)
  have "f' \<noteq> f" if "(b', f') \<in> set (tq_fired Q)" "b' \<noteq> b" for b' f'
    using ids [OF f] ids [of b' f'] that m by (auto simp: mget_set)
  then have "msum (\<lambda>(b, f'). len ((E(f := L)) f')) (tq_fired Q) = tq_trace_count Q + len L - len (E f)"
    using msum_change [OF m f, of "\<lambda>(b, f'). len ((E(f := L)) f')" "\<lambda>(b, f). len (E f)"] cnt
    by simp
  then show ?thesis using ok Q' unfolding queue_ok_def same_queue_def by simp
qed

lemma FT_buffersRemoved_ok:
  assumes q: "queues_ok E s" and f: "live_fired s tid f"
  shows "\<exists>Qh. FT_buffersRemoved f c s =
     s\<lparr>h_fired := (h_fired s)(f := ft_removed c (h_fired s f)), h_queues := Qh\<rparr> \<and>
     queues_ok E (FT_buffersRemoved f c s) \<and> (\<forall>q. same_queue (h_queues s q) (Qh q))"
proof -
  obtain p where p: "live_queue s (queue_id tid) p" "ft_queue (h_fired s f) = p"
    "mget (tq_fired (h_queues s p)) (base_trace_id tid) = Some f"
    using live_firedE [OF q f] by metis
  define Q' where "Q' = (h_queues s p)\<lparr>tq_buffer_count := tq_buffer_count (h_queues s p) - c\<rparr>"
  have eq: "FT_buffersRemoved f c s = s\<lparr>h_fired := (h_fired s)(f := ft_removed c (h_fired s f)),
      h_queues := (h_queues s)(ft_queue (h_fired s f) := Q')\<rparr>"
    by (simp add: FT_buffersRemoved_def upd_defs ft_removed_def Q'_def p(2))
  have "same_queue (h_queues s p) Q'" by (simp add: Q'_def same_queue_def)
  then have "queues_ok E (s\<lparr>h_fired := (h_fired s)(f := ft_removed c (h_fired s f)),
      h_queues := (h_queues s)(ft_queue (h_fired s f) := Q')\<rparr>)"
    using queue_ok_count [OF queues_okD(2) [OF q p(1)] p(3), of Q' c] p(2)
    by (intro queues_ok_upd [OF q f]) (auto simp: Q'_def)
  with eq \<open>same_queue (h_queues s p) Q'\<close> p(2) show ?thesis
    by (intro exI [of _ "(h_queues s)(p := Q')"]) simp
qed

lemma buffersRemoved_fold_ok:
  assumes "queues_ok E s" "\<And>tid f. (tid, f) \<in> set trs \<Longrightarrow> live_fired s tid f" "distinct (mvals trs)"
  shows "\<exists>Qh. fold (\<lambda>(_, f). FT_buffersRemoved f c) trs s =
     s\<lparr>h_fired := at_all (ft_removed c) (set (mvals trs)) (h_fired s), h_queues := Qh\<rparr> \<and>
     queues_ok E (fold (\<lambda>(_, f). FT_buffersRemoved f c) trs s) \<and>
     (\<forall>q. same_queue (h_queues s q) (Qh q))"
  using assms
proof (induction trs rule: rev_induct)
  case Nil
  then show ?case by (auto intro: exI [of _ "h_queues s"])
next
  case (snoc x trs)
  obtain tid f where x: "x = (tid, f)" by (cases x)
  let ?s = "fold (\<lambda>(_, f). FT_buffersRemoved f c) trs s"
  from snoc obtain Qh where s': "?s = s\<lparr>h_fired := at_all (ft_removed c) (set (mvals trs)) (h_fired s),
      h_queues := Qh\<rparr>" "queues_ok E ?s" "\<And>q. same_queue (h_queues s q) (Qh q)"
    by auto
  have "live_fired s tid f" using snoc.prems(2) x by simp
  then have live: "live_fired ?s tid f" using s'(3) by (simp add: s'(1) live_fired_def live_queue_def same_queue_def)
  have "f \<notin> set (mvals trs)" using snoc.prems(3) x by auto
  from at_all_insert [OF this, of "ft_removed c" "h_fired s"] FT_buffersRemoved_ok [OF s'(2) live, of c] s'(3)
  show ?case by (auto simp: x s'(1) intro: same_queue_trans)
qed

lemma trace_count_ok:
  assumes q: "queues_ok E s" and f: "live_fired s tid f" and d: "d = len L - len (E f)"
  shows "queues_ok (E(f := L)) (upd_queue (ft_queue (h_fired s f))
     (\<lambda>tq. tq\<lparr>tq_trace_count := tq_trace_count tq + d\<rparr>) s)"
proof -
  obtain p where p: "live_queue s (queue_id tid) p" "ft_queue (h_fired s f) = p"
    "mget (tq_fired (h_queues s p)) (base_trace_id tid) = Some f"
    using live_firedE [OF q f] by metis
  define Q' where "Q' = (h_queues s p)\<lparr>tq_trace_count := tq_trace_count (h_queues s p) + d\<rparr>"
  have "queues_ok (E(f := L)) (s\<lparr>h_fired := h_fired s, h_queues := (h_queues s)(ft_queue (h_fired s f) := Q')\<rparr>)"
    using queue_ok_links [OF queues_okD(2) [OF q p(1)] p(3), of Q' L] p(2) d
    by (intro queues_ok_upd [OF q f]) (auto simp: Q'_def same_queue_def)
  then show ?thesis using p(2) by (simp add: upd_queue_def Q'_def)
qed

section \<open>How a step on one trace affects the invariant\<close>

lemma live_addr_neq:
  "inv E s \<Longrightarrow> live_trace s i a \<Longrightarrow> live_trace s j b \<Longrightarrow> j \<noteq> i \<Longrightarrow> b \<noteq> a"
  using live_trace_addr_inj by blast

lemma trigs_live:
  assumes "inv E s" "live_trace s i a"
  shows "\<And>tid f. (tid, f) \<in> set (ttrigs s a) \<Longrightarrow> live_fired s tid f \<and> mget (E f) i = Some a"
    and "distinct (mvals (ttrigs s a))"
    and "\<And>tid f. live_fired s tid f \<Longrightarrow> f \<in> set (mvals (ttrigs s a)) \<longleftrightarrow> mget (E f) i = Some a"
proof -
  have m: "mok (ttrigs s a)"
    and l: "\<And>tid f. mget (ttrigs s a) tid = Some f \<longleftrightarrow> live_fired s tid f \<and> mget (E f) i = Some a"
    using invD(3) [OF assms] by (simp_all add: trace_ok_def)
  show 1: "live_fired s tid f \<and> mget (E f) i = Some a" if "(tid, f) \<in> set (ttrigs s a)" for tid f
    using that m l by (simp add: mget_set)
  have "inj_on snd (set (ttrigs s a))"
  proof (rule inj_onI)
    fix x y assume "x \<in> set (ttrigs s a)" "y \<in> set (ttrigs s a)" "snd x = snd y"
    moreover from this have "fst x = fst y"
      using 1 live_fired_inj [OF invD(2) [OF assms(1)]] by (metis prod.collapse)
    ultimately show "x = y" by (simp add: prod_eq_iff)
  qed
  then show "distinct (mvals (ttrigs s a))"
    using m by (simp add: distinct_map mok_def)
  show "f \<in> set (mvals (ttrigs s a)) \<longleftrightarrow> mget (E f) i = Some a" if "live_fired s tid f" for tid f
  proof
    assume "f \<in> set (mvals (ttrigs s a))"
    then show "mget (E f) i = Some a" using 1 by auto
  next
    assume "mget (E f) i = Some a"
    with that l have "mget (ttrigs s a) tid = Some f" by simp
    then show "f \<in> set (mvals (ttrigs s a))" by (rule mget_in_vals)
  qed
qed

lemma inv_update_trace:
  assumes inv: "inv E s" and a: "live_trace s i a"
    and same: "dm_traces s' = dm_traces s" "next_trace s \<le> next_trace s'"
      "td_queues (dm_triggered s') = td_queues (dm_triggered s)"
      "\<And>q. tq_fired (h_queues s' q) = tq_fired (h_queues s q)"
    and T: "h_traces s' = (h_traces s)(a := t)"
    and q: "queues_ok E' s'" and t: "trace_ok E' s' i a"
    and link: "\<And>tid f j. live_fired s tid f \<Longrightarrow> j \<noteq> i \<Longrightarrow> mget (E' f) j = mget (E f) j"
    and rep: "\<And>tid f. live_fired s tid f \<Longrightarrow> ft_state (h_fired s f) = Some reportingTrigger \<Longrightarrow>
        ft_state (h_fired s' f) = Some reportingTrigger"
    and fired: "\<And>tid f. live_fired s tid f \<Longrightarrow> fired_ok E' s' f"
    and lru: "lru_ok s'" and counts: "counts_ok s'"
  shows "inv E' s'"
proof -
  have lf: "live_fired s' tid f \<longleftrightarrow> live_fired s tid f" for tid f
    using live_fired_cong same(3,4) by blast
  have "trace_ok E' s' j b" if "live_trace s' j b" for j b
  proof (cases "j = i")
    case True
    with that a t same(1) show ?thesis by (simp add: live_trace_def)
  next
    case False
    have j: "live_trace s j b" using that same(1) by (simp add: live_trace_def)
    with live_addr_neq [OF inv a _ False] T have "h_traces s' b = h_traces s b" by simp
    then show ?thesis
      by (rule trace_ok_frame [OF invD(3) [OF inv j]]) (use same lf link [OF _ False] rep in auto)
  qed
  then show ?thesis using invD(1) [OF inv] same(1) q fired lf lru counts by (simp add: inv_def)
qed

lemma counts_update:
  assumes c: "counts_ok s" and m: "mok (dm_traces s)" "live_trace s i a"
    and inj: "\<And>j b. live_trace s j b \<Longrightarrow> j \<noteq> i \<Longrightarrow> b \<noteq> a"
    and same: "dm_traces s' = dm_traces s" and T: "h_traces s' = (h_traces s)(a := t)"
    and n: "dm_trace_count s' = dm_trace_count s"
      "dm_buffer_count s' = dm_buffer_count s + len (tbufs s' a) - len (tbufs s a)"
    and u: "ud_trace_count (dm_untriggered s') + (if untriggered_p s a then 1 else 0) =
        ud_trace_count (dm_untriggered s) + (if untriggered_p s' a then 1 else 0)"
      "ud_buffer_count (dm_untriggered s') + (if untriggered_p s a then len (tbufs s a) else 0) =
        ud_buffer_count (dm_untriggered s) + (if untriggered_p s' a then len (tbufs s' a) else 0)"
    and d: "td_trace_count (dm_triggered s') + (if untriggered_p s a then 0 else 1) =
        td_trace_count (dm_triggered s) + (if untriggered_p s' a then 0 else 1)"
      "td_buffer_count (dm_triggered s') + (if untriggered_p s a then 0 else len (tbufs s a)) =
        td_buffer_count (dm_triggered s) + (if untriggered_p s' a then 0 else len (tbufs s' a))"
  shows "counts_ok s'"
proof -
  have ga: "mget (dm_traces s) i = Some a" using m(2) by (simp add: live_trace_def)
  have "h_traces s' b = h_traces s b" if "(j, b) \<in> set (dm_traces s)" "j \<noteq> i" for j b
    using that inj [of j b] m(1) T by (simp add: live_trace_def mget_set)
  then have ch: "g (h_traces s a) + msum (\<lambda>(j, b). g (h_traces s' b)) (dm_traces s) =
      g (h_traces s' a) + msum (\<lambda>(j, b). g (h_traces s b)) (dm_traces s)" for g :: "Trace \<Rightarrow> int"
    using msum_change [OF m(1) ga, of "\<lambda>(j, b). g (h_traces s' b)" "\<lambda>(j, b). g (h_traces s b)"]
    by simp
  show ?thesis
    using c n u d same
      ch [of "\<lambda>t. len (st_buffers (tr_state t))"]
      ch [of "\<lambda>t. if st_elem (tr_state t) \<noteq> None then 1 else 0"]
      ch [of "\<lambda>t. if st_elem (tr_state t) \<noteq> None then len (st_buffers (tr_state t)) else 0"]
      ch [of "\<lambda>t. if st_elem (tr_state t) \<noteq> None then 0 else 1"]
      ch [of "\<lambda>t. if st_elem (tr_state t) \<noteq> None then 0 else len (st_buffers (tr_state t))"]
    unfolding counts_ok_def by simp
qed

text \<open>A trigger whose links do not change: its counter follows the buffers of the trace.\<close>

lemma fired_update:
  assumes inv: "inv E s" and a: "live_trace s i a" and f: "live_fired s tid f"
    and T: "h_traces s' = (h_traces s)(a := t)" and same: "dm_traces s' = dm_traces s" and E': "E' f = E f"
    and c: "ft_buffer_count (h_fired s' f) = ft_buffer_count (h_fired s f) +
      (if mget (E f) i = Some a then len (tbufs s' a) - len (tbufs s a) else 0)"
  shows "fired_ok E' s' f"
proof -
  have fo: "fired_ok E s f" using invD(4) [OF inv f] .
  have other: "h_traces s' b = h_traces s b" if "(j, b) \<in> set (E f)" "j \<noteq> i" for j b
  proof -
    have "live_trace s j b" using fo that by (simp add: fired_ok_def mget_set)
    with live_addr_neq [OF inv a _ that(2)] T show ?thesis by simp
  qed
  have "msum (\<lambda>(i, a). len (tbufs s' a)) (E f) = msum (\<lambda>(i, a). len (tbufs s a)) (E f) +
      (if mget (E f) i = Some a then len (tbufs s' a) - len (tbufs s a) else 0)"
  proof (cases "mget (E f) i")
    case None
    then have "j \<noteq> i" if "(j, b) \<in> set (E f)" for j b
      using that by (force simp: map_of_eq_None_iff)
    with other None show ?thesis by (auto intro!: msum_cong)
  next
    case (Some b)
    with fo a have b: "b = a" by (simp add: fired_ok_def live_trace_def)
    have "mok (E f)" using fo by (simp add: fired_ok_def)
    from msum_change [OF this Some, of "\<lambda>(i, a). len (tbufs s' a)" "\<lambda>(i, a). len (tbufs s a)"] other
    show ?thesis by (simp add: Some b)
  qed
  with fo c same E' show ?thesis by (simp add: fired_ok_def live_trace_def)
qed

end
