(* ===== verification/Trace_Correct.thy ===== *)
theory Trace_Correct
  imports Trace_Machine
begin

text \<open>
  Every method of \<^verbatim>\<open>*Trace\<close> ends normally on a live trace, keeps the invariant of the data
  manager, and neither loses nor duplicates a buffer.
\<close>

section \<open>Frames: what a step leaves alone\<close>

text \<open>\<open>frame\<close> is what every method keeps; \<open>still\<close> is what the methods keep that only take data
  out: the lists, the trees and the states of all triggers.\<close>

definition frame :: "dms \<Rightarrow> dms \<Rightarrow> bool" where
  "frame s s' \<longleftrightarrow> dm_now s' = dm_now s \<and> next_trace s \<le> next_trace s' \<and> next_fired s' = next_fired s \<and>
     next_queue s' = next_queue s \<and> td_queues (dm_triggered s') = td_queues (dm_triggered s) \<and>
     (\<forall>q. tq_fired (h_queues s' q) = tq_fired (h_queues s q)) \<and>
     (\<forall>f. ft_id (h_fired s' f) = ft_id (h_fired s f) \<and> ft_queue (h_fired s' f) = ft_queue (h_fired s f) \<and>
        ft_traces (h_fired s' f) = ft_traces (h_fired s f))"

definition still :: "dms \<Rightarrow> dms \<Rightarrow> bool" where
  "still s s' \<longleftrightarrow> frame s s' \<and> (\<forall>q. same_queue (h_queues s q) (h_queues s' q)) \<and>
     (\<forall>f. ft_state (h_fired s' f) = ft_state (h_fired s f))"

lemma frame_refl [simp]: "frame s s"
  by (simp add: frame_def)

lemma frame_trans: "frame s s' \<Longrightarrow> frame s' s'' \<Longrightarrow> frame s s''"
  by (simp add: frame_def)

lemma still_refl [simp]: "still s s"
  by (simp add: still_def)

lemma still_trans: "still s s' \<Longrightarrow> still s' s'' \<Longrightarrow> still s s''"
  unfolding still_def by (metis frame_trans same_queue_trans)

lemma still_frame: "still s s' \<Longrightarrow> frame s s'"
  by (simp add: still_def)

lemma frame_live_fired: "frame s s' \<Longrightarrow> live_fired s' tid f \<longleftrightarrow> live_fired s tid f"
  by (rule live_fired_cong) (simp_all add: frame_def)

lemma frame_live_queue: "frame s s' \<Longrightarrow> live_queue s' k q \<longleftrightarrow> live_queue s k q"
  by (simp add: frame_def live_queue_def)

lemma frame_links: "frame s s' \<Longrightarrow> (\<lambda>f. ft_traces (h_fired s' f)) = (\<lambda>f. ft_traces (h_fired s f))"
  by (simp add: frame_def)

section \<open>The least-recently-used list\<close>

lemma lru_okD:
  assumes "lru_ok s"
  shows "list_wf (ud_lru (dm_untriggered s))"
    "(e, a) \<in> set (elems (ud_lru (dm_untriggered s))) \<longleftrightarrow>
        (\<exists>i. live_trace s i a) \<and> st_elem (tstate s a) = Some e"
    "lru_sorted (\<lambda>(e, a). st_stamp (tstate s a)) (elems (ud_lru (dm_untriggered s)))"
    "(e, a) \<in> set (elems (ud_lru (dm_untriggered s))) \<Longrightarrow> st_stamp (tstate s a) \<le> dm_now s"
  using assms by (simp_all add: lru_ok_def)

lemma lru_elem_unique:
  assumes "lru_ok s" "live_trace s i a" "st_elem (tstate s a) = Some e"
    and "(e', b) \<in> set (elems (ud_lru (dm_untriggered s)))"
  shows "e' = e \<longleftrightarrow> b = a"
  using lst.handle_value_unique [OF lru_okD(1) [OF assms(1)], of e b a] lru_okD(2) [OF assms(1)] assms(2-)
  by (metis option.inject)

text \<open>The trace at \<open>a\<close> leaves the list, or was not in it.\<close>

lemma lru_drop:
  assumes lru: "lru_ok s" and a: "live_trace s i a"
    and other: "\<And>b. b \<noteq> a \<Longrightarrow> (\<exists>j. live_trace s' j b) \<longleftrightarrow> (\<exists>j. live_trace s j b)"
      "\<And>b. b \<noteq> a \<Longrightarrow> h_traces s' b = h_traces s b"
    and gone: "\<And>j. live_trace s' j a \<Longrightarrow> st_elem (tstate s' a) = None"
    and now: "dm_now s' = dm_now s"
    and L: "ud_lru (dm_untriggered s') = (case st_elem (tstate s a) of
        None \<Rightarrow> ud_lru (dm_untriggered s) | Some e \<Rightarrow> list_Remove e (ud_lru (dm_untriggered s)))"
  shows "lru_ok s'"
proof -
  let ?l = "ud_lru (dm_untriggered s)" and ?l' = "ud_lru (dm_untriggered s')"
  have wf: "list_wf ?l" using lru by (rule lru_okD)
  have sub: "(e, b) \<in> set (elems ?l') \<longleftrightarrow> (e, b) \<in> set (elems ?l) \<and> b \<noteq> a" for e b
  proof (cases "st_elem (tstate s a)")
    case None
    then show ?thesis using lru_okD(2) [OF lru] by (auto simp: L)
  next
    case (Some e0)
    then show ?thesis using lru_elem_unique [OF lru a Some] by (auto simp: L lst.remove_set [OF wf])
  qed
  have "(e, b) \<in> set (elems ?l') \<longleftrightarrow> (\<exists>j. live_trace s' j b) \<and> st_elem (tstate s' b) = Some e" for e b
    using other gone by (cases "b = a") (auto simp: sub lru_okD(2) [OF lru])
  moreover have "lru_sorted (\<lambda>(e, a). st_stamp (tstate s a)) (elems ?l')"
    using lru_okD(3) [OF lru] lst.lru_remove [OF wf lru_okD(3) [OF lru]]
    by (auto simp: L split: option.split)
  then have "lru_sorted (\<lambda>(e, a). st_stamp (tstate s' a)) (elems ?l')"
    by (rule lru_sorted_cong) (auto simp: sub other(2))
  moreover have "list_wf ?l'" using wf by (auto simp: L lst.remove_wf split: option.split)
  moreover have "st_stamp (tstate s' b) \<le> dm_now s'" if "(e, b) \<in> set (elems ?l')" for e b
    using that lru_okD(4) [OF lru] by (auto simp: sub other(2) now)
  ultimately show ?thesis by (simp add: lru_ok_def)
qed

text \<open>The trace at \<open>a\<close> is touched.\<close>

lemma lru_touch:
  assumes lru: "lru_ok s" and a: "live_trace s i a" and e: "st_elem (tstate s a) = Some e"
    and same: "dm_traces s' = dm_traces s" "dm_now s' = dm_now s"
    and T: "h_traces s' = (h_traces s)(a := t)"
    and t: "st_elem (tr_state t) = Some e" "st_stamp (tr_state t) = dm_now s"
    and L: "ud_lru (dm_untriggered s') = list_MoveToFront e (ud_lru (dm_untriggered s))"
  shows "lru_ok s'"
proof -
  let ?l = "ud_lru (dm_untriggered s)" and ?l' = "ud_lru (dm_untriggered s')"
  have wf: "list_wf ?l" using lru by (rule lru_okD)
  have ea: "(e, a) \<in> set (elems ?l)" using lru_okD(2) [OF lru] a e by blast
  have ms: "set (elems ?l') = set (elems ?l)" using lst.move_set [OF wf ea] by (simp add: L)
  have "(e', b) \<in> set (elems ?l') \<longleftrightarrow> (\<exists>j. live_trace s' j b) \<and> st_elem (tstate s' b) = Some e'" for e' b
    using lru_okD(2) [OF lru, of e' b] e t(1) by (cases "b = a") (auto simp: ms T same(1) live_trace_def)
  moreover have "lru_sorted (\<lambda>(e, a). st_stamp (tstate s' a)) (elems ?l')"
    unfolding L
  proof (rule lst.lru_move [OF wf lru_okD(3) [OF lru] ea])
    fix q assume q: "q \<in> set (elems ?l)" "fst q \<noteq> e"
    then have "snd q \<noteq> a" using lru_elem_unique [OF lru a e, of "fst q" "snd q"] by simp
    then show "(case q of (e, a) \<Rightarrow> st_stamp (tstate s' a)) = (case q of (e, a) \<Rightarrow> st_stamp (tstate s a)) \<and>
        (case q of (e, a) \<Rightarrow> st_stamp (tstate s a)) \<le> (case (e, a) of (e, a) \<Rightarrow> st_stamp (tstate s' a))"
      using q lru_okD(4) [OF lru, of "fst q" "snd q"] by (auto simp: T t(2) split: prod.splits)
  qed
  moreover have "list_wf ?l'" using wf by (simp add: L lst.move_wf)
  moreover have "st_stamp (tstate s' b) \<le> dm_now s'" if "(e', b) \<in> set (elems ?l')" for e' b
    using that lru_okD(4) [OF lru, of e' b] t(2) by (simp add: ms T same(2))
  ultimately show ?thesis by (simp add: lru_ok_def)
qed

section \<open>Buffers held\<close>

lemma held_update:
  assumes m: "mok (dm_traces s)" "live_trace s i a"
    and inj: "\<And>j b. live_trace s j b \<Longrightarrow> j \<noteq> i \<Longrightarrow> b \<noteq> a"
    and same: "dm_traces s' = dm_traces s" and T: "h_traces s' = (h_traces s)(a := t)"
  shows "mset (tbufs s a) + held s' = mset (tbufs s' a) + held s"
proof -
  have "h_traces s' b = h_traces s b" if "(j, b) \<in> set (dm_traces s)" "j \<noteq> i" for j b
    using that inj [of j b] m(1) T by (simp add: live_trace_def mget_set)
  then show ?thesis
    using msum_change [OF m(1), of i a "\<lambda>(j, b). mset (tbufs s' b)" "\<lambda>(j, b). mset (tbufs s b)"] m(2)
    by (simp add: held_def same live_trace_def)
qed

lemma held_delete:
  assumes m: "mok (dm_traces s)" "live_trace s i a"
    and inj: "\<And>j b. live_trace s j b \<Longrightarrow> j \<noteq> i \<Longrightarrow> b \<noteq> a"
    and del: "dm_traces s' = mdel i (dm_traces s)" and T: "\<And>b. b \<noteq> a \<Longrightarrow> h_traces s' b = h_traces s b"
  shows "held s = mset (tbufs s a) + held s'"
proof -
  have "b \<noteq> a" if "(j, b) \<in> set (mdel i (dm_traces s))" for j b
    using that inj [of j b] m(1) by (auto simp: AList.delete_eq live_trace_def mget_set)
  then have "msum (\<lambda>(j, b). mset (tbufs s b)) (mdel i (dm_traces s)) = held s'"
    unfolding held_def del using T by (auto intro!: msum_cong)
  then show ?thesis
    using msum_del [OF m(1), of i a "\<lambda>(j, b). mset (tbufs s b)"] m(2)
    by (simp add: held_def live_trace_def)
qed

section \<open>Steps that keep the triggers of a trace\<close>

lemma inv_same_links:
  assumes inv: "inv E s" and a: "live_trace s i a"
    and fr: "frame s s'" and same: "dm_traces s' = dm_traces s"
    and T: "h_traces s' = (h_traces s)(a := (h_traces s a)\<lparr>tr_state := Some st\<rparr>)"
    and st: "st_triggers (Some st) = ttrigs s a" "st_elem (Some st) = None \<longleftrightarrow> st_elem (tstate s a) = None"
    and d: "d = len (st_buffers (Some st)) - len (tbufs s a)"
    and q: "queues_ok E s'"
    and rep: "\<And>tid f. live_fired s tid f \<Longrightarrow> ft_state (h_fired s f) = Some reportingTrigger \<Longrightarrow>
        ft_state (h_fired s' f) = Some reportingTrigger"
      "\<And>f. st_reporting (Some st) \<Longrightarrow> f \<in> set (mvals (ttrigs s a)) \<Longrightarrow>
        ft_state (h_fired s' f) = Some reportingTrigger"
    and c: "\<And>tid f. live_fired s tid f \<Longrightarrow> ft_buffer_count (h_fired s' f) = ft_buffer_count (h_fired s f) +
        (if f \<in> set (mvals (ttrigs s a)) then d else 0)"
    and lru: "lru_ok s'"
    and n: "dm_trace_count s' = dm_trace_count s" "dm_buffer_count s' = dm_buffer_count s + d"
      "ud_trace_count (dm_untriggered s') = ud_trace_count (dm_untriggered s)"
      "ud_buffer_count (dm_untriggered s') = ud_buffer_count (dm_untriggered s) + (if untriggered_p s a then d else 0)"
      "td_trace_count (dm_triggered s') = td_trace_count (dm_triggered s)"
      "td_buffer_count (dm_triggered s') = td_buffer_count (dm_triggered s) + (if untriggered_p s a then 0 else d)"
  shows "inv E s' \<and> mset (tbufs s a) + held s' = mset (st_buffers (Some st)) + held s"
proof -
  have to: "trace_ok E s i a" using invD(3) [OF inv a] .
  have lf: "live_fired s' tid f \<longleftrightarrow> live_fired s tid f" for tid f using frame_live_fired [OF fr] .
  have rr: "st_reporting (Some st) \<longrightarrow> (\<forall>tid f. mget (ttrigs s a) tid = Some f \<longrightarrow>
      ft_state (h_fired s' f) = Some reportingTrigger)"
    using rep(2) mget_in_vals by metis
  have t: "trace_ok E s' i a"
    using to st fr rr by (simp add: trace_ok_def T lf frame_def)
  have b: "tbufs s' a = st_buffers (Some st)" by (simp add: T)
  have "inv E s'"
  proof (rule inv_update_trace [OF inv a same _ _ _ T q t])
    show "fired_ok E s' f" if "live_fired s tid f" for tid f
      by (rule fired_update [OF inv a that T same])
        (use c [OF that] trigs_live(3) [OF inv a that] d b in auto)
    show "counts_ok s'"
      by (rule counts_update [OF invD(6) [OF inv] invD(1) [OF inv] a live_addr_neq [OF inv a] same T])
        (use n d b st(2) in \<open>auto simp: T\<close>)
  qed (use fr rep(1) lru in \<open>auto simp: frame_def\<close>)
  with held_update [OF invD(1) [OF inv] a live_addr_neq [OF inv a] same T] b show ?thesis by simp
qed

lemma untriggered_no_links:
  assumes "inv E s" "live_trace s i a" "untriggered_p s a"
  shows "ttrigs s a = []"
  using assms(3) by (cases "tstate s a" rule: st_elem.cases) auto

lemmas frame_simps = frame_def upd_defs set_state_def Let_def

lemma set_state_simps [simp]:
  "h_traces (set_state a st s) = (h_traces s)(a := (h_traces s a)\<lparr>tr_state := st\<rparr>)"
  "h_fired (set_state a st s) = h_fired s" "h_queues (set_state a st s) = h_queues s"
  "dm_traces (set_state a st s) = dm_traces s" "dm_now (set_state a st s) = dm_now s"
  "dm_untriggered (set_state a st s) = dm_untriggered s" "dm_triggered (set_state a st s) = dm_triggered s"
  "dm_trace_count (set_state a st s) = dm_trace_count s"
  "dm_buffer_count (set_state a st s) = dm_buffer_count s"
  "next_trace (set_state a st s) = next_trace s" "next_fired (set_state a st s) = next_fired s"
  "next_queue (set_state a st s) = next_queue s"
  by (simp_all add: set_state_def upd_defs)

lemma queues_ok_cong:
  assumes "queues_ok E s" "dm_now s' = dm_now s" "h_fired s' = h_fired s" "h_queues s' = h_queues s"
    "next_fired s' = next_fired s" "next_queue s' = next_queue s"
    "td_queues (dm_triggered s') = td_queues (dm_triggered s)"
  shows "queues_ok E s'"
  using assms by (simp add: queues_ok_def live_queue_def)

lemma inv_touched:
  assumes inv: "inv E s" and a: "live_trace s i a"
    and st: "tstate s a = Some (untriggeredTrace bufs bcs lm e)"
    and fr: "frame s s'" and same: "dm_traces s' = dm_traces s" "h_fired s' = h_fired s" "h_queues s' = h_queues s"
      "dm_trace_count s' = dm_trace_count s" "dm_triggered s' = dm_triggered s"
    and T: "h_traces s' = (h_traces s)(a := (h_traces s a)\<lparr>tr_state :=
        Some (untriggeredTrace bufs' bcs' (dm_now s) e)\<rparr>)"
    and c: "dm_buffer_count s' = dm_buffer_count s + (len bufs' - len bufs)"
    and u: "dm_untriggered s' = (dm_untriggered s)\<lparr>ud_lru := list_MoveToFront e (ud_lru (dm_untriggered s)),
        ud_buffer_count := ud_buffer_count (dm_untriggered s) + (len bufs' - len bufs)\<rparr>"
  shows "inv E s' \<and> mset bufs + held s' = mset bufs' + held s"
proof -
  have "lru_ok s'" by (rule lru_touch [OF invD(5) [OF inv] a _ same(1) _ T]) (use st fr u in \<open>auto simp: frame_def\<close>)
  moreover have "queues_ok E s'"
    by (rule queues_ok_cong [OF invD(2) [OF inv]]) (use fr same in \<open>auto simp: frame_def\<close>)
  ultimately have "inv E s' \<and> mset (tbufs s a) + held s' =
      mset (st_buffers (Some (untriggeredTrace bufs' bcs' (dm_now s) e))) + held s"
    by (intro inv_same_links [OF inv a fr same(1) T]) (use st same c u in auto)
  then show ?thesis by (simp add: st)
qed

lemma untriggered_addBuffers_ok:
  assumes inv: "inv E s" and a: "live_trace s i a"
    and st: "tstate s a = Some (untriggeredTrace bufs bcs lm e)"
  shows "ok (Trace_AddBuffers a buffers s) (\<lambda>s'. inv E s' \<and> held s' = held s + mset buffers \<and> frame s s' \<and>
    dm_traces s' = dm_traces s \<and> tbufs s' a = tbufs s a @ buffers \<and> (\<forall>c. c \<noteq> a \<longrightarrow> h_traces s' c = h_traces s c))"
proof -
  define s' where "s' = set_state a (Some (untriggeredTrace (bufs @ buffers) bcs (dm_now s) e))
     (s\<lparr>dm_untriggered := (dm_untriggered s)\<lparr>ud_lru := list_MoveToFront e (ud_lru (dm_untriggered s)),
        ud_buffer_count := ud_buffer_count (dm_untriggered s) + len buffers\<rparr>,
        dm_buffer_count := dm_buffer_count s + len buffers\<rparr>)"
  have "Trace_AddBuffers a buffers s = Inr s'"
    by (simp add: Trace_AddBuffers_def st untriggered_addBuffers_def s'_def upd_defs)
  moreover have "inv E s' \<and> mset (tbufs s a) + held s' = mset (bufs @ buffers) + held s"
    using inv_touched [OF inv a st, of s' "bufs @ buffers" bcs] by (simp add: s'_def frame_def st)
  moreover have "frame s s'" "dm_traces s' = dm_traces s" "tbufs s' a = tbufs s a @ buffers"
    "\<forall>c. c \<noteq> a \<longrightarrow> h_traces s' c = h_traces s c"
    by (simp_all add: frame_def s'_def st)
  ultimately show ?thesis by (simp add: st ac_simps)
qed

lemma triggered_addBuffers_ok:
  assumes inv: "inv E s" and a: "live_trace s i a" and st: "st_elem (tstate s a) = None"
  shows "ok (Trace_AddBuffers a buffers s) (\<lambda>s'. inv E s' \<and> held s' = held s + mset buffers \<and> frame s s' \<and>
    dm_traces s' = dm_traces s \<and> tbufs s' a = tbufs s a @ buffers \<and> (\<forall>c. c \<noteq> a \<longrightarrow> h_traces s' c = h_traces s c))"
proof -
  let ?trs = "ttrigs s a" and ?st = "reportingTrace (tbufs s a @ buffers) (ttrigs s a)"
  define s1 where "s1 = s\<lparr>dm_buffer_count := dm_buffer_count s + len buffers,
    dm_triggered := (dm_triggered s)\<lparr>td_buffer_count := td_buffer_count (dm_triggered s) + len buffers\<rparr>\<rparr>"
  have q1: "queues_ok E s1" using queues_ok_cong [OF invD(2) [OF inv], of s1] by (simp add: s1_def)
  have lf1: "live_fired s1 tid f" if "(tid, f) \<in> set ?trs" for tid f
    using trigs_live(1) [OF inv a that] by (simp add: s1_def live_fired_def live_queue_def)
  obtain Qh s2 where s2: "rfold (\<lambda>(_, f). FT_buffersAdded f (len buffers)) ?trs s1 = Inr s2"
    "s2 = s1\<lparr>h_fired := at_all (ft_added (len buffers)) (set (mvals ?trs)) (h_fired s1), h_queues := Qh\<rparr>"
    "queues_ok E s2" "\<And>q. tq_fired (Qh q) = tq_fired (h_queues s1 q)"
    using buffersAdded_fold_ok [OF q1 lf1 trigs_live(2) [OF inv a], of "len buffers"] by (auto simp: ok_iff)
  define s' where "s' = set_state a (Some ?st) s2"
  have nn: "tstate s a \<noteq> None" using invD(3) [OF inv a] by (simp add: trace_ok_def)
  have eq: "Trace_AddBuffers a buffers s = Inr s'"
    using st nn s2(1) unfolding s1_def
    by (cases "tstate s a" rule: st_triggers.cases)
      (auto simp: Trace_AddBuffers_def triggered_addBuffers_def reporting_addBuffers_def upd_defs s'_def)
  have fr: "frame s s'" by (simp add: frame_def s'_def s2(2,4) s1_def at_all_def)
  have "inv E s' \<and> mset (tbufs s a) + held s' = mset (st_buffers (Some ?st)) + held s"
  proof (rule inv_same_links [OF inv a fr])
    show "lru_ok s'"
      by (rule lru_drop [OF invD(5) [OF inv] a]) (auto simp: s'_def s2(2) s1_def live_trace_def st)
    show "queues_ok E s'" by (rule queues_ok_cong [OF s2(3)]) (simp_all add: s'_def)
  qed (auto simp: s'_def s2(2) s1_def st at_all_def)
  moreover have "dm_traces s' = dm_traces s" "tbufs s' a = tbufs s a @ buffers"
    "\<forall>c. c \<noteq> a \<longrightarrow> h_traces s' c = h_traces s c"
    by (simp_all add: s'_def s2(2) s1_def)
  ultimately show ?thesis using eq fr by (simp add: ac_simps)
qed

lemma Trace_AddBuffers_ok [ok_rules]:
  assumes "inv E s" "live_trace s i a"
  shows "ok (Trace_AddBuffers a buffers s) (\<lambda>s'. inv E s' \<and> held s' = held s + mset buffers \<and> frame s s' \<and>
    dm_traces s' = dm_traces s \<and> tbufs s' a = tbufs s a @ buffers \<and> (\<forall>c. c \<noteq> a \<longrightarrow> h_traces s' c = h_traces s c))"
proof (cases "st_elem (tstate s a)")
  case (Some e)
  then obtain b c l where "tstate s a = Some (untriggeredTrace b c l e)"
    by (cases "tstate s a" rule: st_elem.cases) auto
  with assms show ?thesis by (rule untriggered_addBuffers_ok)
qed (rule triggered_addBuffers_ok [OF assms])

text \<open>A trace that stays as it is.\<close>

lemma set_state_same: "tstate s a = st \<Longrightarrow> set_state a st s = s"
  by (auto simp: set_state_def upd_trace_def)

text \<open>Breadcrumbs are kept while the trace is untriggered, and handed back for reporting afterwards.\<close>

fun st_breadcrumbs :: "tracestate option \<Rightarrow> string list" where
  "st_breadcrumbs (Some (untriggeredTrace b c l e)) = c"
| "st_breadcrumbs _ = []"

lemma Trace_AddBreadcrumbs_ok [ok_rules]:
  assumes inv: "inv E s" and a: "live_trace s i a"
  shows "ok (Trace_AddBreadcrumbs a bcs s) (\<lambda>(r, s'). inv E s' \<and> held s' = held s \<and> frame s s' \<and>
    dm_traces s' = dm_traces s \<and> tbufs s' a = tbufs s a \<and>
    (if untriggered_p s a then r = [] \<and> st_breadcrumbs (tstate s' a) = st_breadcrumbs (tstate s a) @ bcs
     else r = bcs \<and> s' = s))"
proof (cases "tstate s a")
  case None
  then show ?thesis using invD(3) [OF inv a] by (simp add: trace_ok_def)
next
  case (Some st)
  show ?thesis
  proof (cases st)
    case (untriggeredTrace bufs c lm e)
    with Some have st: "tstate s a = Some (untriggeredTrace bufs c lm e)" by simp
    define s' where "s' = set_state a (Some (untriggeredTrace bufs (c @ bcs) (dm_now s) e))
      (s\<lparr>dm_untriggered := (dm_untriggered s)\<lparr>ud_lru := list_MoveToFront e (ud_lru (dm_untriggered s))\<rparr>\<rparr>)"
    have "Trace_AddBreadcrumbs a bcs s = Inr ([], s')"
      by (simp add: Trace_AddBreadcrumbs_def st untriggered_addBreadcrumbs_def s'_def upd_defs)
    moreover have "inv E s' \<and> mset bufs + held s' = mset bufs + held s"
      using inv_touched [OF inv a st, of s' bufs "c @ bcs"] by (simp add: s'_def frame_def)
    moreover have "frame s s'" "dm_traces s' = dm_traces s" by (simp_all add: s'_def frame_def)
    ultimately show ?thesis by (simp add: st s'_def)
  qed (use inv Some in \<open>auto simp: Trace_AddBreadcrumbs_def triggered_addBreadcrumbs_def
      reporting_addBreadcrumbs_def set_state_same\<close>)
qed

text \<open>Taking the buffers of a trace that has triggers.\<close>

lemma Trace_TakeBuffers_ok [ok_rules]:
  assumes inv: "inv E s" and a: "live_trace s i a" and st: "st_elem (tstate s a) = None"
  shows "ok (Trace_TakeBuffers a s) (\<lambda>(b, s'). inv E s' \<and> b = tbufs s a \<and> mset b + held s' = held s \<and>
    still s s' \<and> dm_traces s' = dm_traces s \<and>
    h_traces s' = (h_traces s)(a := (h_traces s a)\<lparr>tr_state := Some (triggeredTrace (ttrigs s a))\<rparr>))"
proof (cases "st_reporting (tstate s a)")
  case False
  then obtain trs where t: "tstate s a = Some (triggeredTrace trs)"
    using st invD(3) [OF inv a] by (cases "tstate s a" rule: st_triggers.cases) (auto simp: trace_ok_def)
  then have "h_traces s = (h_traces s)(a := (h_traces s a)\<lparr>tr_state := Some (triggeredTrace trs)\<rparr>)"
    by auto
  with t show ?thesis
    using inv by (simp add: Trace_TakeBuffers_def triggered_takeBuffers_def set_state_same)
next
  case True
  then obtain b trs where rt: "tstate s a = Some (reportingTrace b trs)"
    by (cases "tstate s a" rule: st_triggers.cases) auto
  define s1 where "s1 = s\<lparr>dm_buffer_count := dm_buffer_count s - len b,
    dm_triggered := (dm_triggered s)\<lparr>td_buffer_count := td_buffer_count (dm_triggered s) - len b\<rparr>\<rparr>"
  define s2 where "s2 = fold (\<lambda>(_, f). FT_buffersRemoved f (len b)) trs s1"
  have q1: "queues_ok E s1" using queues_ok_cong [OF invD(2) [OF inv], of s1] by (simp add: s1_def)
  have lf1: "live_fired s1 tid f" if "(tid, f) \<in> set trs" for tid f
    using trigs_live(1) [OF inv a, of tid f] that by (simp add: rt s1_def live_fired_def live_queue_def)
  obtain Qh where s2: "s2 = s1\<lparr>h_fired := at_all (ft_removed (len b)) (set (mvals trs)) (h_fired s1),
      h_queues := Qh\<rparr>" "queues_ok E s2" "\<And>q. same_queue (h_queues s1 q) (Qh q)"
    using buffersRemoved_fold_ok [OF q1 lf1, of trs "len b"] trigs_live(2) [OF inv a] unfolding s2_def by (auto simp: rt)
  define s' where "s' = set_state a (Some (triggeredTrace trs)) s2"
  have eq: "Trace_TakeBuffers a s = Inr (b, s')"
    by (simp add: Trace_TakeBuffers_def rt reporting_takeBuffers_def upd_defs s'_def s2_def s1_def)
  have tq: "tq_fired (Qh q) = tq_fired (h_queues s q)" "same_queue (h_queues s q) (Qh q)" for q
    using s2(3) [of q] by (simp_all add: s1_def same_queue_def)
  have fr: "still s s'"
    by (simp add: still_def frame_def s'_def s2(1) s1_def at_all_def tq)
  have "inv E s' \<and> mset (tbufs s a) + held s' = mset (st_buffers (Some (triggeredTrace trs))) + held s"
  proof (rule inv_same_links [OF inv a still_frame [OF fr]])
    show "lru_ok s'"
      by (rule lru_drop [OF invD(5) [OF inv] a]) (auto simp: s'_def s2(1) s1_def live_trace_def st)
    show "queues_ok E s'" by (rule queues_ok_cong [OF s2(2)]) (simp_all add: s'_def)
  qed (auto simp: s'_def s2(1) s1_def rt at_all_def)
  moreover have "dm_traces s' = dm_traces s"
    "h_traces s' = (h_traces s)(a := (h_traces s a)\<lparr>tr_state := Some (triggeredTrace trs)\<rparr>)"
    by (simp_all add: s'_def s2(1) s1_def)
  ultimately show ?thesis using eq fr by (simp add: rt)
qed

section \<open>Attaching a trigger to a trace\<close>

lemma mput_same: "mget m k = Some v \<Longrightarrow> mput k v m = m"
  by (induction m) auto

lemma live_fired_fun: "live_fired s tid f \<Longrightarrow> live_fired s tid f' \<Longrightarrow> f' = f"
  by (auto simp: live_fired_def live_queue_def)

lemma fired_link:
  assumes inv: "inv E s" and a: "live_trace s i a" and f: "live_fired s tid f" and new: "mget (E f) i = None"
    and T: "h_traces s' = (h_traces s)(a := t)" and same: "dm_traces s' = dm_traces s"
    and c: "ft_buffer_count (h_fired s' f) = ft_buffer_count (h_fired s f) + len (st_buffers (tr_state t))"
  shows "fired_ok (E(f := mput i a (E f))) s' f"
proof -
  have fo: "fired_ok E s f" using invD(4) [OF inv f] .
  have "h_traces s' b = h_traces s b" if "(j, b) \<in> set (E f)" for j b
  proof -
    have "mget (E f) j = Some b" "live_trace s j b" using fo that by (simp_all add: fired_ok_def mget_set)
    with new have "j \<noteq> i" by auto
    with live_addr_neq [OF inv a \<open>live_trace s j b\<close>] T show ?thesis by simp
  qed
  then have "msum (\<lambda>(i, a). len (tbufs s' a)) (E f) = msum (\<lambda>(i, a). len (tbufs s a)) (E f)"
    by (auto intro!: msum_cong)
  then show ?thesis
    using fo c a T same by (auto simp: fired_ok_def msum_put_fresh [OF new] mget_mput live_trace_def)
qed

lemma inv_add_link:
  assumes inv: "inv E s" and a: "live_trace s i a" and f: "live_fired s tid f" and new: "mget (E f) i = None"
    and fr: "frame s s'" and same: "dm_traces s' = dm_traces s"
    and T: "h_traces s' = (h_traces s)(a := (h_traces s a)\<lparr>tr_state := Some st\<rparr>)"
    and st: "st_triggers (Some st) = mput tid f (ttrigs s a)" "st_elem (Some st) = None"
      "st_buffers (Some st) = tbufs s a"
    and q: "queues_ok (E(f := mput i a (E f))) s'"
    and rep: "\<And>f. ft_state (h_fired s f) = Some reportingTrigger \<Longrightarrow> ft_state (h_fired s' f) = Some reportingTrigger"
      "st_reporting (Some st) \<Longrightarrow> ft_state (h_fired s' f) = Some reportingTrigger"
      "st_reporting (Some st) \<Longrightarrow> st_reporting (tstate s a) \<or> ttrigs s a = []"
    and c: "\<And>f'. ft_buffer_count (h_fired s' f') = ft_buffer_count (h_fired s f') + (if f' = f then len (tbufs s a) else 0)"
    and L: "ud_lru (dm_untriggered s') = (case st_elem (tstate s a) of
        None \<Rightarrow> ud_lru (dm_untriggered s) | Some e \<Rightarrow> list_Remove e (ud_lru (dm_untriggered s)))"
    and n: "dm_trace_count s' = dm_trace_count s" "dm_buffer_count s' = dm_buffer_count s"
      "ud_trace_count (dm_untriggered s') = ud_trace_count (dm_untriggered s) - (if untriggered_p s a then 1 else 0)"
      "ud_buffer_count (dm_untriggered s') = ud_buffer_count (dm_untriggered s) - (if untriggered_p s a then len (tbufs s a) else 0)"
      "td_trace_count (dm_triggered s') = td_trace_count (dm_triggered s) + (if untriggered_p s a then 1 else 0)"
      "td_buffer_count (dm_triggered s') = td_buffer_count (dm_triggered s) + (if untriggered_p s a then len (tbufs s a) else 0)"
  shows "inv (E(f := mput i a (E f))) s' \<and> held s' = held s"
proof -
  let ?E = "E(f := mput i a (E f))"
  have to: "trace_ok E s i a" using invD(3) [OF inv a] .
  have lf: "live_fired s' tid f \<longleftrightarrow> live_fired s tid f" for tid f using frame_live_fired [OF fr] .
  have b: "tbufs s' a = tbufs s a" using st(3) by (simp add: T)
  have g: "mget (st_triggers (Some st)) tid' = Some f' \<longleftrightarrow> live_fired s tid' f' \<and> mget (?E f') i = Some a" for tid' f'
  proof (cases "tid' = tid")
    case True
    then have "live_fired s tid' f' \<longleftrightarrow> f' = f" using f live_fired_fun by metis
    with True show ?thesis by (auto simp: st(1) mget_mput)
  next
    case False
    then have "f' \<noteq> f" if "live_fired s tid' f'" using that f live_fired_inj [OF invD(2) [OF inv]] by metis
    with False to show ?thesis by (auto simp: st(1) mget_mput trace_ok_def)
  qed
  have r: "st_reporting (Some st) \<longrightarrow> (\<forall>tid' f'. mget (st_triggers (Some st)) tid' = Some f' \<longrightarrow>
      ft_state (h_fired s' f') = Some reportingTrigger)"
    using to rep by (auto simp: st(1) mget_mput trace_ok_def split: if_splits)
  have t: "trace_ok ?E s' i a"
    unfolding trace_ok_def using to st fr g r by (simp add: T lf trace_ok_def frame_def)
  have "inv ?E s'"
  proof (rule inv_update_trace [OF inv a same _ _ _ T q t])
    show "fired_ok ?E s' f'" if f': "live_fired s tid' f'" for tid' f'
    proof (cases "f' = f")
      case True
      then show ?thesis using fired_link [OF inv a f new T same] c st(3) by simp
    next
      case False
      with c [of f'] b show ?thesis by (intro fired_update [OF inv a f' T same]) auto
    qed
    show "counts_ok s'"
      by (rule counts_update [OF invD(6) [OF inv] invD(1) [OF inv] a live_addr_neq [OF inv a] same T])
        (use n b st(2) in \<open>auto simp: T\<close>)
    show "lru_ok s'"
      by (rule lru_drop [OF invD(5) [OF inv] a]) (use L same st(2) fr in \<open>auto simp: live_trace_def T frame_def\<close>)
  qed (use fr rep(1) in \<open>auto simp: frame_def mget_mput\<close>)
  with held_update [OF invD(1) [OF inv] a live_addr_neq [OF inv a] same T] b show ?thesis by simp
qed

text \<open>One more trace in the queue's count, then the notification that buffers were added.\<close>

definition count_trace :: "faddr \<Rightarrow> int \<Rightarrow> dms \<Rightarrow> dms" where
  "count_trace f d s = upd_queue (ft_queue (h_fired s f)) (\<lambda>tq. tq\<lparr>tq_trace_count := tq_trace_count tq + d\<rparr>) s"

lemma count_trace_simps [simp]:
  "h_traces (count_trace f d s) = h_traces s" "h_fired (count_trace f d s) = h_fired s"
  "dm_traces (count_trace f d s) = dm_traces s" "dm_now (count_trace f d s) = dm_now s"
  "dm_untriggered (count_trace f d s) = dm_untriggered s" "dm_triggered (count_trace f d s) = dm_triggered s"
  "dm_trace_count (count_trace f d s) = dm_trace_count s" "dm_buffer_count (count_trace f d s) = dm_buffer_count s"
  "next_trace (count_trace f d s) = next_trace s" "next_fired (count_trace f d s) = next_fired s"
  "next_queue (count_trace f d s) = next_queue s" "same_queue (h_queues s q) (h_queues (count_trace f d s) q)"
  "tq_fired (h_queues (count_trace f d s) q) = tq_fired (h_queues s q)"
  by (simp_all add: count_trace_def upd_defs same_queue_def)

lemma count_trace_frame [simp]: "still s (count_trace f d s)"
  by (simp add: still_def frame_def)

lemma count_and_add_ok:
  assumes "queues_ok E s" "live_fired s tid f" "mget (E f) i = None"
  shows "queues_ok (E(f := mput i a (E f))) (count_trace f 1 s)"
    and "ok (FT_buffersAdded f c (count_trace f 1 s)) (\<lambda>s'. \<exists>Qh.
       s' = s\<lparr>h_fired := (h_fired s)(f := ft_added c (h_fired s f)), h_queues := Qh\<rparr> \<and>
       queues_ok (E(f := mput i a (E f))) s' \<and> (\<forall>q. tq_fired (Qh q) = tq_fired (h_queues s q)))"
proof -
  have "i \<notin> set (mkeys (E f))" using assms(3) by (simp add: mget_None_keys)
  then have "1 = len (mput i a (E f)) - len (E f)" by (simp add: mput_fresh)
  from trace_count_ok [OF assms(1,2) this]
  show q: "queues_ok (E(f := mput i a (E f))) (count_trace f 1 s)" by (simp add: count_trace_def)
  have "live_fired (count_trace f 1 s) tid f"
    using frame_live_fired [OF still_frame [OF count_trace_frame]] assms(2) by blast
  from FT_buffersAdded_ok [OF q this, of c]
  show "ok (FT_buffersAdded f c (count_trace f 1 s)) (\<lambda>s'. \<exists>Qh.
       s' = s\<lparr>h_fired := (h_fired s)(f := ft_added c (h_fired s f)), h_queues := Qh\<rparr> \<and>
       queues_ok (E(f := mput i a (E f))) s' \<and> (\<forall>q. tq_fired (Qh q) = tq_fired (h_queues s q)))"
    by (rule ok_mono) (auto simp: count_trace_def upd_defs)
qed

text \<open>An untriggered trace: it leaves the list, moves to the other counters, and gives up its
  breadcrumbs.\<close>

definition to_triggered :: "nat \<Rightarrow> buffer list \<Rightarrow> dms \<Rightarrow> dms" where
  "to_triggered e bufs s = s\<lparr>
     dm_untriggered := (dm_untriggered s)\<lparr>ud_lru := list_Remove e (ud_lru (dm_untriggered s)),
        ud_trace_count := ud_trace_count (dm_untriggered s) - 1,
        ud_buffer_count := ud_buffer_count (dm_untriggered s) - len bufs\<rparr>,
     dm_triggered := (dm_triggered s)\<lparr>td_trace_count := td_trace_count (dm_triggered s) + 1,
        td_buffer_count := td_buffer_count (dm_triggered s) + len bufs\<rparr>\<rparr>"

lemma untriggered_addTrigger_eq:
  "untriggered_addTrigger bufs bcs lm e f s =
     (let s4 = count_trace f 1 (to_triggered e bufs s) in
      if len bufs > 0 then
        rbind (FT_buffersAdded f (len bufs) s4)
          (\<lambda>s5. Inr (reportingTrace bufs [(ft_id (h_fired s5 f), f)], bcs, s5))
      else Inr (triggeredTrace [(ft_id (h_fired s f), f)], bcs, s4))"
  by (simp add: untriggered_addTrigger_def count_trace_def to_triggered_def upd_defs Let_def)

lemma untriggered_addTrigger_ok:
  assumes inv: "inv E s" and a: "live_trace s i a" and f: "live_fired s tid f"
    and st: "tstate s a = Some (untriggeredTrace bufs bcs lm e)"
  shows "ok (Trace_AddTrigger a f s) (\<lambda>(r, s'). inv (E(f := mput i a (E f))) s' \<and> held s' = held s \<and>
    frame s s' \<and> dm_traces s' = dm_traces s \<and>
    (\<forall>c. c \<noteq> a \<longrightarrow> h_traces s' c = h_traces s c) \<and> r = bcs)"
proof -
  let ?s1 = "to_triggered e bufs s"
  have id: "ft_id (h_fired s f) = tid" using live_fired_id [OF invD(2) [OF inv] f] .
  have new: "mget (E f) i = None"
    using trigs_live(3) [OF inv a f] invD(4) [OF inv f] a st
    by (cases "mget (E f) i") (auto simp: fired_ok_def live_trace_def)
  have q1: "queues_ok E ?s1"
    using queues_ok_cong [OF invD(2) [OF inv], of ?s1] by (simp add: to_triggered_def)
  have f1: "live_fired ?s1 tid f" using f by (simp add: to_triggered_def live_fired_def live_queue_def)
  show ?thesis
  proof (cases "bufs = []")
    case True
    let ?st = "triggeredTrace [(tid, f)]"
    let ?s = "set_state a (Some ?st) (count_trace f 1 ?s1)"
    have fr: "frame s ?s" by (simp add: frame_def to_triggered_def)
    have "queues_ok (E(f := mput i a (E f))) ?s"
      by (rule queues_ok_cong [OF count_and_add_ok(1) [OF q1 f1 new, of a]]) (simp_all add: to_triggered_def)
    then have "inv (E(f := mput i a (E f))) ?s \<and> held ?s = held s"
      by (intro inv_add_link [OF inv a f new fr, of ?st]) (auto simp: st True to_triggered_def)
    with True fr show ?thesis
      by (simp add: Trace_AddTrigger_def st untriggered_addTrigger_eq id to_triggered_def)
  next
    case False
    let ?st = "reportingTrace bufs [(tid, f)]"
    obtain Qh s2 where s2: "FT_buffersAdded f (len bufs) (count_trace f 1 ?s1) = Inr s2"
      "s2 = ?s1\<lparr>h_fired := (h_fired ?s1)(f := ft_added (len bufs) (h_fired ?s1 f)), h_queues := Qh\<rparr>"
      "queues_ok (E(f := mput i a (E f))) s2" "\<And>q. tq_fired (Qh q) = tq_fired (h_queues ?s1 q)"
      using count_and_add_ok(2) [OF q1 f1 new, of "len bufs" a] by (auto simp: ok_iff)
    let ?s = "set_state a (Some ?st) s2"
    have fr: "frame s ?s" by (simp add: frame_def s2(2,4)) (simp add: to_triggered_def)
    have "queues_ok (E(f := mput i a (E f))) ?s" by (rule queues_ok_cong [OF s2(3)]) simp_all
    then have "inv (E(f := mput i a (E f))) ?s \<and> held ?s = held s"
      by (intro inv_add_link [OF inv a f new fr, of ?st]) (auto simp: st s2(2) to_triggered_def)
    moreover have "ft_id (h_fired s2 f) = tid" using id by (simp add: s2(2) to_triggered_def)
    moreover have "dm_traces s2 = dm_traces s" "h_traces s2 = h_traces s" by (simp_all add: s2(2) to_triggered_def)
    ultimately show ?thesis using False fr s2(1)
      by (simp add: Trace_AddTrigger_def st untriggered_addTrigger_eq)
  qed
qed

lemma triggered_addTrigger_ok:
  assumes inv: "inv E s" and a: "live_trace s i a" and f: "live_fired s tid f"
    and st: "tstate s a = Some (triggeredTrace trs)" and new: "mget (E f) i = None"
  shows "ok (Trace_AddTrigger a f s) (\<lambda>(r, s'). inv (E(f := mput i a (E f))) s' \<and> held s' = held s \<and>
    frame s s' \<and> dm_traces s' = dm_traces s \<and>
    (\<forall>c. c \<noteq> a \<longrightarrow> h_traces s' c = h_traces s c) \<and> r = [])"
proof -
  have id: "ft_id (h_fired s f) = tid" using live_fired_id [OF invD(2) [OF inv] f] .
  have g: "mget trs tid = None"
    using invD(3) [OF inv a] new live_fired_fun [OF f] by (cases "mget trs tid") (auto simp: trace_ok_def st)
  let ?st = "triggeredTrace (mput tid f trs)"
  let ?s = "set_state a (Some ?st) (count_trace f 1 s)"
  have fr: "frame s ?s" by (simp add: frame_def)
  have "queues_ok (E(f := mput i a (E f))) ?s"
    by (rule queues_ok_cong [OF count_and_add_ok(1) [OF invD(2) [OF inv] f new, of a]]) simp_all
  then have "inv (E(f := mput i a (E f))) ?s \<and> held ?s = held s"
    by (intro inv_add_link [OF inv a f new fr, of ?st]) (auto simp: st)
  with fr g show ?thesis
    by (simp add: Trace_AddTrigger_def st triggered_addTrigger_def id Let_def count_trace_def [symmetric])
qed

lemma reporting_addTrigger_ok:
  assumes inv: "inv E s" and a: "live_trace s i a" and f: "live_fired s tid f"
    and st: "tstate s a = Some (reportingTrace bufs trs)" and new: "mget (E f) i = None"
  shows "ok (Trace_AddTrigger a f s) (\<lambda>(r, s'). inv (E(f := mput i a (E f))) s' \<and> held s' = held s \<and>
    frame s s' \<and> dm_traces s' = dm_traces s \<and>
    (\<forall>c. c \<noteq> a \<longrightarrow> h_traces s' c = h_traces s c) \<and> r = [])"
proof -
  have id: "ft_id (h_fired s f) = tid" using live_fired_id [OF invD(2) [OF inv] f] .
  have g: "mget trs tid = None"
    using invD(3) [OF inv a] new live_fired_fun [OF f] by (cases "mget trs tid") (auto simp: trace_ok_def st)
  let ?st = "reportingTrace bufs (mput tid f trs)"
  obtain Qh s2 where s2: "FT_buffersAdded f (len bufs) (count_trace f 1 s) = Inr s2"
    "s2 = s\<lparr>h_fired := (h_fired s)(f := ft_added (len bufs) (h_fired s f)), h_queues := Qh\<rparr>"
    "queues_ok (E(f := mput i a (E f))) s2" "\<And>q. tq_fired (Qh q) = tq_fired (h_queues s q)"
    using count_and_add_ok(2) [OF invD(2) [OF inv] f new, of "len bufs" a] by (auto simp: ok_iff)
  let ?s = "set_state a (Some ?st) s2"
  have fr: "frame s ?s" by (simp add: frame_def s2(2,4))
  have "queues_ok (E(f := mput i a (E f))) ?s" by (rule queues_ok_cong [OF s2(3)]) simp_all
  then have "inv (E(f := mput i a (E f))) ?s \<and> held ?s = held s"
    by (intro inv_add_link [OF inv a f new fr, of ?st]) (auto simp: st s2(2))
  moreover have "dm_traces s2 = dm_traces s" "h_traces s2 = h_traces s" by (simp_all add: s2(2))
  ultimately show ?thesis using fr g s2(1)
    by (simp add: Trace_AddTrigger_def st reporting_addTrigger_def id Let_def count_trace_def [symmetric])
qed

lemma again_addTrigger_ok:
  assumes inv: "inv E s" and a: "live_trace s i a" and f: "live_fired s tid f" and old: "mget (E f) i = Some a"
  shows "Trace_AddTrigger a f s = Inr ([], s) \<and> E(f := mput i a (E f)) = E \<and> \<not> untriggered_p s a"
proof -
  have id: "ft_id (h_fired s f) = tid" using live_fired_id [OF invD(2) [OF inv] f] .
  have g: "mget (ttrigs s a) tid = Some f" and n: "tstate s a \<noteq> None"
    using invD(3) [OF inv a] old f by (simp_all add: trace_ok_def)
  from g n have "Trace_AddTrigger a f s = Inr ([], s) \<and> \<not> untriggered_p s a"
    by (cases "tstate s a" rule: st_triggers.cases)
      (auto simp: Trace_AddTrigger_def triggered_addTrigger_def reporting_addTrigger_def id set_state_same)
  then show ?thesis using mput_same [OF old] by simp
qed

lemma Trace_AddTrigger_ok [ok_rules]:
  assumes inv: "inv E s" and a: "live_trace s i a" and f: "live_fired s tid f"
  shows "ok (Trace_AddTrigger a f s) (\<lambda>(r, s'). inv (E(f := mput i a (E f))) s' \<and> held s' = held s \<and>
    frame s s' \<and> dm_traces s' = dm_traces s \<and>
    (\<forall>c. c \<noteq> a \<longrightarrow> h_traces s' c = h_traces s c) \<and> r = st_breadcrumbs (tstate s a))"
proof (cases "mget (E f) i")
  case (Some b)
  then have "b = a" using invD(4) [OF inv f] a by (simp add: fired_ok_def live_trace_def)
  with again_addTrigger_ok [OF inv a f] Some inv show ?thesis
    by (cases "tstate s a" rule: st_triggers.cases) auto
next
  case None
  show ?thesis
  proof (cases "tstate s a" rule: st_triggers.cases)
    case (1 trs)
    with triggered_addTrigger_ok [OF inv a f 1 None] show ?thesis by simp
  next
    case (2 b trs)
    with reporting_addTrigger_ok [OF inv a f 2 None] show ?thesis by simp
  next
    case "3_1"
    then show ?thesis using invD(3) [OF inv a] by (simp add: trace_ok_def)
  next
    case "3_2"
    with untriggered_addTrigger_ok [OF inv a f "3_2"] show ?thesis by simp
  qed
qed

section \<open>Deleting a trace\<close>

lemma mdel_absent: "mget m k = None \<Longrightarrow> mdel k m = m"
  by (simp add: mget_None_keys delete_id)

lemma mget_mdel_iff: "mget (mdel k m) j = Some v \<longleftrightarrow> j \<noteq> k \<and> mget m j = Some v"
  by (simp add: mget_mdel)

text \<open>A trigger loses the trace at \<open>a\<close>; the other traces keep their buffers.\<close>

lemma fired_unlink:
  assumes inv: "inv E s" and a: "live_trace s i a" and f: "live_fired s tid f"
    and T: "\<And>b. b \<noteq> a \<Longrightarrow> h_traces s' b = h_traces s b" and E': "E' f = mdel i (E f)"
    and live: "\<And>j b. j \<noteq> i \<Longrightarrow> live_trace s j b \<Longrightarrow> live_trace s' j b"
    and c: "ft_buffer_count (h_fired s' f) =
      ft_buffer_count (h_fired s f) - (if mget (E f) i = Some a then len (tbufs s a) else 0)"
  shows "fired_ok E' s' f"
proof -
  have fo: "fired_ok E s f" and m: "mok (E f)" using invD(4) [OF inv f] by (simp_all add: fired_ok_def)
  have "h_traces s' b = h_traces s b" if "(j, b) \<in> set (mdel i (E f))" for j b
  proof -
    have "j \<noteq> i" "mget (E f) j = Some b" using that m by (auto simp: AList.delete_eq mget_set)
    with fo have "live_trace s j b" by (simp add: fired_ok_def)
    with live_addr_neq [OF inv a _ \<open>j \<noteq> i\<close>] T show ?thesis by simp
  qed
  then have "msum (\<lambda>(i, a). len (tbufs s' a)) (mdel i (E f)) = msum (\<lambda>(i, a). len (tbufs s a)) (mdel i (E f))"
    by (auto intro!: msum_cong)
  moreover have "msum (\<lambda>(i, a). len (tbufs s a)) (E f) =
      (if mget (E f) i = Some a then len (tbufs s a) else 0) + msum (\<lambda>(i, a). len (tbufs s a)) (mdel i (E f))"
  proof (cases "mget (E f) i")
    case (Some b)
    then have "b = a" using fo a by (simp add: fired_ok_def live_trace_def)
    then show ?thesis using msum_del [OF m Some, of "\<lambda>(i, a). len (tbufs s a)"] Some by simp
  qed (simp add: mdel_absent)
  ultimately show ?thesis
    using fo m c live by (auto simp: fired_ok_def E' mget_mdel_iff)
qed

lemma counts_delete:
  assumes c: "counts_ok s" and m: "mok (dm_traces s)" "live_trace s i a"
    and inj: "\<And>j b. live_trace s j b \<Longrightarrow> j \<noteq> i \<Longrightarrow> b \<noteq> a"
    and del: "dm_traces s' = mdel i (dm_traces s)" and T: "\<And>b. b \<noteq> a \<Longrightarrow> h_traces s' b = h_traces s b"
    and n: "dm_trace_count s' = dm_trace_count s - 1" "dm_buffer_count s' = dm_buffer_count s - len (tbufs s a)"
      "ud_trace_count (dm_untriggered s') = ud_trace_count (dm_untriggered s) - (if untriggered_p s a then 1 else 0)"
      "ud_buffer_count (dm_untriggered s') = ud_buffer_count (dm_untriggered s) - (if untriggered_p s a then len (tbufs s a) else 0)"
      "td_trace_count (dm_triggered s') = td_trace_count (dm_triggered s) - (if untriggered_p s a then 0 else 1)"
      "td_buffer_count (dm_triggered s') = td_buffer_count (dm_triggered s) - (if untriggered_p s a then 0 else len (tbufs s a))"
  shows "counts_ok s'"
proof -
  have ga: "mget (dm_traces s) i = Some a" using m(2) by (simp add: live_trace_def)
  have "b \<noteq> a" if "(j, b) \<in> set (mdel i (dm_traces s))" for j b
    using that inj [of j b] m(1) by (auto simp: AList.delete_eq live_trace_def mget_set)
  then have "msum (\<lambda>(j, b). g (h_traces s b)) (mdel i (dm_traces s)) = msum (\<lambda>(j, b). g (h_traces s' b)) (dm_traces s')"
    for g :: "Trace \<Rightarrow> int" unfolding del using T by (auto intro!: msum_cong)
  then have ch: "msum (\<lambda>(j, b). g (h_traces s b)) (dm_traces s) = g (h_traces s a) + msum (\<lambda>(j, b). g (h_traces s' b)) (dm_traces s')"
    for g :: "Trace \<Rightarrow> int"
    using msum_del [OF m(1) ga, of "\<lambda>(j, b). g (h_traces s b)"] by simp
  have "len (dm_traces s) = len (dm_traces s') + 1" using length_mdel [OF m(1) ga] by (simp add: del)
  then show ?thesis
    using c n
      ch [of "\<lambda>t. len (st_buffers (tr_state t))"]
      ch [of "\<lambda>t. if st_elem (tr_state t) \<noteq> None then 1 else 0"]
      ch [of "\<lambda>t. if st_elem (tr_state t) \<noteq> None then len (st_buffers (tr_state t)) else 0"]
      ch [of "\<lambda>t. if st_elem (tr_state t) \<noteq> None then 0 else 1"]
      ch [of "\<lambda>t. if st_elem (tr_state t) \<noteq> None then 0 else len (st_buffers (tr_state t))"]
    unfolding counts_ok_def by simp
qed

lemma inv_delete:
  assumes inv: "inv E s" and a: "live_trace s i a" and fr: "frame s s'"
    and del: "dm_traces s' = mdel i (dm_traces s)" and T: "\<And>b. b \<noteq> a \<Longrightarrow> h_traces s' b = h_traces s b"
    and q: "queues_ok E' s'" and E': "\<And>tid f. live_fired s tid f \<Longrightarrow> E' f = mdel i (E f)"
    and rep: "\<And>f. ft_state (h_fired s' f) = ft_state (h_fired s f)"
    and c: "\<And>tid f. live_fired s tid f \<Longrightarrow> ft_buffer_count (h_fired s' f) =
      ft_buffer_count (h_fired s f) - (if mget (E f) i = Some a then len (tbufs s a) else 0)"
    and L: "ud_lru (dm_untriggered s') = (case st_elem (tstate s a) of
        None \<Rightarrow> ud_lru (dm_untriggered s) | Some e \<Rightarrow> list_Remove e (ud_lru (dm_untriggered s)))"
    and n: "dm_trace_count s' = dm_trace_count s - 1" "dm_buffer_count s' = dm_buffer_count s - len (tbufs s a)"
      "ud_trace_count (dm_untriggered s') = ud_trace_count (dm_untriggered s) - (if untriggered_p s a then 1 else 0)"
      "ud_buffer_count (dm_untriggered s') = ud_buffer_count (dm_untriggered s) - (if untriggered_p s a then len (tbufs s a) else 0)"
      "td_trace_count (dm_triggered s') = td_trace_count (dm_triggered s) - (if untriggered_p s a then 0 else 1)"
      "td_buffer_count (dm_triggered s') = td_buffer_count (dm_triggered s) - (if untriggered_p s a then 0 else len (tbufs s a))"
  shows "inv E' s' \<and> held s = mset (tbufs s a) + held s'"
proof -
  have lf: "live_fired s' tid f \<longleftrightarrow> live_fired s tid f" for tid f using frame_live_fired [OF fr] .
  have lt: "live_trace s' j b \<longleftrightarrow> live_trace s j b \<and> j \<noteq> i" for j b by (auto simp: live_trace_def del mget_mdel)
  have na: "b \<noteq> a" if "live_trace s' j b" for j b using that live_addr_neq [OF inv a, of j b] by (simp add: lt)
  have "trace_ok E' s' j b" if j: "live_trace s' j b" for j b
    by (rule trace_ok_frame [OF invD(3) [OF inv]])
      (use j na [OF j] T fr lf E' rep in \<open>auto simp: lt frame_def mget_mdel\<close>)
  moreover have "fired_ok E' s' f" if "live_fired s tid f" for tid f
    by (rule fired_unlink [OF inv a that T]) (use E' [OF that] c [OF that] in \<open>auto simp: lt\<close>)
  moreover have "lru_ok s'"
  proof (rule lru_drop [OF invD(5) [OF inv] a _ _ _ _ L])
    show "(\<exists>j. live_trace s' j b) \<longleftrightarrow> (\<exists>j. live_trace s j b)" if "b \<noteq> a" for b
      using that a by (auto simp: lt) (metis live_trace_def option.inject)
    show "st_elem (tstate s' a) = None" if "live_trace s' j a" for j using na [OF that] by simp
  qed (use T fr in \<open>auto simp: frame_def\<close>)
  moreover have "counts_ok s'"
    by (rule counts_delete [OF invD(6) [OF inv] invD(1) [OF inv] a live_addr_neq [OF inv a] del T n])
  ultimately have "inv E' s'" using invD(1) [OF inv] q lf by (simp add: inv_def del)
  with held_delete [OF invD(1) [OF inv] a live_addr_neq [OF inv a] del T] show ?thesis by simp
qed

text \<open>Evicting an untriggered trace.\<close>

lemma untriggered_takeBuffers_ok:
  assumes inv: "inv E s" and a: "live_trace s i a" and u: "untriggered_p s a"
  shows "ok (Trace_TakeBuffers a s) (\<lambda>(b, s'). inv E s' \<and> b = tbufs s a \<and> held s = mset b + held s' \<and>
    still s s' \<and> dm_traces s' = mdel i (dm_traces s) \<and> (\<forall>b. b \<noteq> a \<longrightarrow> h_traces s' b = h_traces s b) \<and>
    ud_event_horizion (dm_untriggered s') = st_stamp (tstate s a) \<and>
    td_buffer_count (dm_triggered s') = td_buffer_count (dm_triggered s) \<and>
    list_Len (ud_lru (dm_untriggered s')) = list_Len (ud_lru (dm_untriggered s)) - 1)"
proof -
  obtain bufs bcs lm e where st: "tstate s a = Some (untriggeredTrace bufs bcs lm e)"
    using u by (cases "tstate s a" rule: st_elem.cases) auto
  have id: "tr_id (h_traces s a) = i" using invD(3) [OF inv a] by (simp add: trace_ok_def)
  define s' where "s' = set_state a (Some (untriggeredTrace [] bcs lm e)) (s\<lparr>
     dm_trace_count := dm_trace_count s - 1, dm_buffer_count := dm_buffer_count s - len bufs,
     dm_untriggered := (dm_untriggered s)\<lparr>ud_trace_count := ud_trace_count (dm_untriggered s) - 1,
       ud_buffer_count := ud_buffer_count (dm_untriggered s) - len bufs,
       ud_lru := list_Remove e (ud_lru (dm_untriggered s)), ud_event_horizion := lm\<rparr>,
     dm_traces := mdel i (dm_traces s)\<rparr>)"
  have eq: "Trace_TakeBuffers a s = Inr (bufs, s')"
    by (simp add: Trace_TakeBuffers_def st untriggered_takeBuffers_def upd_defs s'_def id)
  have fr: "still s s'" by (simp add: still_def frame_def s'_def)
  have no: "mget (E f) i = None" if "live_fired s tid f" for tid f
    using trigs_live(3) [OF inv a that] invD(4) [OF inv that] a st
    by (cases "mget (E f) i") (auto simp: fired_ok_def live_trace_def)
  have q: "queues_ok E s'" by (rule queues_ok_cong [OF invD(2) [OF inv]]) (simp_all add: s'_def)
  have "inv E s' \<and> held s = mset (tbufs s a) + held s'"
    by (rule inv_delete [OF inv a still_frame [OF fr] _ _ q])
      (use no in \<open>auto simp: s'_def st mdel_absent\<close>)
  moreover have "(e, a) \<in> set (elems (ud_lru (dm_untriggered s)))"
    using lru_okD(2) [OF invD(5) [OF inv]] a st by auto
  then have "list_Len (ud_lru (dm_untriggered s')) = list_Len (ud_lru (dm_untriggered s)) - 1"
    using lst.remove_length [OF lru_okD(1) [OF invD(5) [OF inv]]] by (fastforce simp: s'_def list_Len_def)
  ultimately show ?thesis using eq fr by (simp add: st) (simp add: s'_def)
qed

section \<open>Detaching a trigger from a trace\<close>

lemma links_mdel:
  assumes inv: "inv E s" and a: "live_trace s i a" and f: "live_fired s tid f" and old: "mget (E f) i = Some a"
  shows "queues_ok (E(f := mdel i (E f))) (count_trace f (- 1) s)"
proof -
  have "- 1 = len (mdel i (E f)) - len (E f)"
    using length_mdel [OF _ old] invD(4) [OF inv f] by (simp add: fired_ok_def)
  from trace_count_ok [OF invD(2) [OF inv] f this] show ?thesis by (simp add: count_trace_def)
qed

text \<open>The trigger was not the last one: the trace stays.\<close>

lemma inv_del_link:
  assumes inv: "inv E s" and a: "live_trace s i a" and f: "live_fired s tid f" and old: "mget (E f) i = Some a"
    and fr: "still s s'" and same: "dm_traces s' = dm_traces s"
    and T: "h_traces s' = (h_traces s)(a := (h_traces s a)\<lparr>tr_state := Some st\<rparr>)"
    and st: "st_triggers (Some st) = mdel tid (ttrigs s a)" "st_elem (Some st) = None" "st_elem (tstate s a) = None"
      "st_buffers (Some st) = tbufs s a" "st_reporting (Some st) = st_reporting (tstate s a)"
      "st_triggers (Some st) \<noteq> []"
    and q: "queues_ok (E(f := mdel i (E f))) s'"
    and c: "\<And>f'. ft_buffer_count (h_fired s' f') = ft_buffer_count (h_fired s f') - (if f' = f then len (tbufs s a) else 0)"
    and n: "dm_untriggered s' = dm_untriggered s" "dm_triggered s' = dm_triggered s"
      "dm_trace_count s' = dm_trace_count s" "dm_buffer_count s' = dm_buffer_count s"
  shows "inv (E(f := mdel i (E f))) s' \<and> held s' = held s"
proof -
  let ?E = "E(f := mdel i (E f))"
  have to: "trace_ok E s i a" using invD(3) [OF inv a] .
  have lf: "live_fired s' tid f \<longleftrightarrow> live_fired s tid f" for tid f using frame_live_fired [OF still_frame [OF fr]] .
  have b: "tbufs s' a = tbufs s a" using st(4) by (simp add: T)
  have g: "mget (st_triggers (Some st)) tid' = Some f' \<longleftrightarrow> live_fired s tid' f' \<and> mget (?E f') i = Some a" for tid' f'
  proof (cases "tid' = tid")
    case True
    then have "live_fired s tid' f' \<longleftrightarrow> f' = f" using f live_fired_fun by metis
    with True show ?thesis by (auto simp: st(1) mget_mdel)
  next
    case False
    then have "f' \<noteq> f" if "live_fired s tid' f'" using that f live_fired_inj [OF invD(2) [OF inv]] by metis
    with False to show ?thesis by (auto simp: st(1) mget_mdel trace_ok_def)
  qed
  have r: "st_reporting (Some st) \<longrightarrow> (\<forall>tid' f'. mget (st_triggers (Some st)) tid' = Some f' \<longrightarrow>
      ft_state (h_fired s' f') = Some reportingTrigger)"
    using to fr by (auto simp: st(1,5) mget_mdel_iff trace_ok_def still_def)
  have mk: "mok (st_triggers (Some st))" using to by (simp add: st(1) trace_ok_def)
  have t: "trace_ok ?E s' i a"
    unfolding trace_ok_def using to st(6) fr g r mk by (simp add: T lf trace_ok_def frame_def still_def)
  have "inv ?E s'"
  proof (rule inv_update_trace [OF inv a same _ _ _ T q t])
    show "fired_ok ?E s' f'" if f': "live_fired s tid' f'" for tid' f'
    proof (cases "f' = f")
      case True
      then show ?thesis
        by (intro fired_unlink [OF inv a f']) (use c [of f] old same in \<open>auto simp: T live_trace_def\<close>)
    next
      case False
      with c [of f'] b show ?thesis by (intro fired_update [OF inv a f' T same]) auto
    qed
    show "counts_ok s'"
      by (rule counts_update [OF invD(6) [OF inv] invD(1) [OF inv] a live_addr_neq [OF inv a] same T])
        (use n b st(2,3) in \<open>auto simp: T\<close>)
    show "lru_ok s'"
      by (rule lru_drop [OF invD(5) [OF inv] a])
        (use n same st(2,3) fr in \<open>auto simp: live_trace_def T frame_def still_def\<close>)
  qed (use fr in \<open>auto simp: frame_def still_def mget_mdel\<close>)
  with held_update [OF invD(1) [OF inv] a live_addr_neq [OF inv a] same T] b show ?thesis by simp
qed

text \<open>The trigger was the last one: nothing else links to the trace, which goes away.\<close>

lemma inv_del_last:
  assumes inv: "inv E s" and a: "live_trace s i a" and f: "live_fired s tid f" and old: "mget (E f) i = Some a"
    and last: "mdel tid (ttrigs s a) = []" and e: "st_elem (tstate s a) = None"
    and fr: "still s s'" and del: "dm_traces s' = mdel i (dm_traces s)"
    and T: "\<And>b. b \<noteq> a \<Longrightarrow> h_traces s' b = h_traces s b"
    and q: "queues_ok (E(f := mdel i (E f))) s'"
    and c: "\<And>f'. ft_buffer_count (h_fired s' f') = ft_buffer_count (h_fired s f') - (if f' = f then len (tbufs s a) else 0)"
    and n: "dm_untriggered s' = dm_untriggered s" "dm_trace_count s' = dm_trace_count s - 1"
      "dm_buffer_count s' = dm_buffer_count s - len (tbufs s a)"
      "td_trace_count (dm_triggered s') = td_trace_count (dm_triggered s) - 1"
      "td_buffer_count (dm_triggered s') = td_buffer_count (dm_triggered s) - len (tbufs s a)"
  shows "inv (E(f := mdel i (E f))) s' \<and> held s = mset (tbufs s a) + held s'"
proof -
  have only: "mget (E f') i = None" if "live_fired s tid' f'" "f' \<noteq> f" for tid' f'
  proof (rule ccontr)
    assume "mget (E f') i \<noteq> None"
    then have "mget (E f') i = Some a"
      using invD(4) [OF inv that(1)] a by (auto simp: fired_ok_def live_trace_def)
    then have "mget (ttrigs s a) tid' = Some f'" using invD(3) [OF inv a] that(1) by (simp add: trace_ok_def)
    moreover have "tid' \<noteq> tid" using that f live_fired_fun by metis
    ultimately have "mget (mdel tid (ttrigs s a)) tid' = Some f'" by (simp add: mget_mdel)
    then show False by (simp add: last)
  qed
  show ?thesis
  proof (rule inv_delete [OF inv a still_frame [OF fr] del T q])
    show "(E(f := mdel i (E f))) f' = mdel i (E f')" if "live_fired s tid' f'" for tid' f'
      using only [OF that] by (auto simp: mdel_absent)
    show "ft_buffer_count (h_fired s' f') = ft_buffer_count (h_fired s f') -
        (if mget (E f') i = Some a then len (tbufs s a) else 0)" if "live_fired s tid' f'" for tid' f'
      using c [of f'] only [OF that] old by auto
  qed (use fr e n in \<open>auto simp: still_def\<close>)
qed

lemma queues_ok_cong_live:
  assumes "queues_ok E s" "td_queues (dm_triggered s') = td_queues (dm_triggered s)" "dm_now s' = dm_now s"
    "h_fired s' = h_fired s" "h_queues s' = h_queues s" "next_fired s' = next_fired s" "next_queue s' = next_queue s"
  shows "queues_ok E s' \<and> (live_fired s' tid f \<longleftrightarrow> live_fired s tid f)"
  using assms queues_ok_cong [of E s s'] by (simp add: live_fired_def live_queue_def)

lemma triggered_removeTrigger_ok:
  assumes inv: "inv E s" and a: "live_trace s i a" and f: "live_fired s tid f" and old: "mget (E f) i = Some a"
    and st: "tstate s a = Some (triggeredTrace trs)"
  shows "ok (Trace_RemoveTrigger a f s) (\<lambda>(b, s'). inv (E(f := mdel i (E f))) s' \<and> b = [] \<and> held s' = held s \<and>
    still s s' \<and> (\<forall>j c. j \<noteq> i \<longrightarrow> live_trace s' j c \<longleftrightarrow> live_trace s j c) \<and>
    (\<forall>c. c \<noteq> a \<longrightarrow> h_traces s' c = h_traces s c) \<and>
    dm_traces s' = (if mdel tid trs = [] then mdel i (dm_traces s) else dm_traces s))"
proof -
  have id: "ft_id (h_fired s f) = tid" using live_fired_id [OF invD(2) [OF inv] f] .
  have tid: "tr_id (h_traces s a) = i" and g: "mget trs tid = Some f"
    using invD(3) [OF inv a] old f by (auto simp: trace_ok_def st)
  have q1: "queues_ok (E(f := mdel i (E f))) (count_trace f (- 1) s)" by (rule links_mdel [OF inv a f old])
  show ?thesis
  proof (cases "mdel tid trs = []")
    case True
    define s' where "s' = set_state a None ((count_trace f (- 1) s)\<lparr>dm_trace_count := dm_trace_count s - 1,
      dm_triggered := (dm_triggered s)\<lparr>td_trace_count := td_trace_count (dm_triggered s) - 1\<rparr>,
      dm_traces := mdel i (dm_traces s)\<rparr>)"
    have "Trace_RemoveTrigger a f s = Inr ([], s')"
      by (simp add: Trace_RemoveTrigger_def st triggered_removeTrigger_def id g True tid s'_def
          count_trace_def upd_defs)
    moreover have fr: "still s s'" by (simp add: still_def frame_def s'_def)
    moreover have "inv (E(f := mdel i (E f))) s' \<and> held s = mset (tbufs s a) + held s'"
    proof (rule inv_del_last [OF inv a f old _ _ fr])
      show "queues_ok (E(f := mdel i (E f))) s'" by (rule queues_ok_cong [OF q1]) (simp_all add: s'_def)
    qed (auto simp: st True s'_def)
    moreover have "live_trace s' j c \<longleftrightarrow> live_trace s j c" if "j \<noteq> i" for j c
      using that by (simp add: live_trace_def s'_def mget_mdel)
    moreover have "h_traces s' c = h_traces s c" if "c \<noteq> a" for c using that by (simp add: s'_def)
    moreover have "dm_traces s' = mdel i (dm_traces s)" by (simp add: s'_def)
    ultimately show ?thesis by (simp add: st True)
  next
    case False
    let ?st = "triggeredTrace (mdel tid trs)"
    let ?s = "set_state a (Some ?st) (count_trace f (- 1) s)"
    have "Trace_RemoveTrigger a f s = Inr ([], ?s)"
      using False by (simp add: Trace_RemoveTrigger_def st triggered_removeTrigger_def id g count_trace_def)
    moreover have fr: "still s ?s" by (simp add: still_def frame_def)
    moreover have "inv (E(f := mdel i (E f))) ?s \<and> held ?s = held s"
    proof (rule inv_del_link [OF inv a f old fr, of ?st])
      show "queues_ok (E(f := mdel i (E f))) ?s" by (rule queues_ok_cong [OF q1]) simp_all
    qed (auto simp: st False)
    ultimately show ?thesis using False by (simp add: live_trace_def)
  qed
qed

lemma reporting_removeTrigger_ok:
  assumes inv: "inv E s" and a: "live_trace s i a" and f: "live_fired s tid f" and old: "mget (E f) i = Some a"
    and st: "tstate s a = Some (reportingTrace bufs trs)"
  shows "ok (Trace_RemoveTrigger a f s) (\<lambda>(b, s'). inv (E(f := mdel i (E f))) s' \<and>
    b = (if mdel tid trs = [] then bufs else []) \<and> held s = mset b + held s' \<and>
    still s s' \<and> (\<forall>j c. j \<noteq> i \<longrightarrow> live_trace s' j c \<longleftrightarrow> live_trace s j c) \<and>
    (\<forall>c. c \<noteq> a \<longrightarrow> h_traces s' c = h_traces s c) \<and>
    dm_traces s' = (if mdel tid trs = [] then mdel i (dm_traces s) else dm_traces s))"
proof -
  have id: "ft_id (h_fired s f) = tid" using live_fired_id [OF invD(2) [OF inv] f] .
  have tid: "tr_id (h_traces s a) = i" and g: "mget trs tid = Some f"
    using invD(3) [OF inv a] old f by (auto simp: trace_ok_def st)
  let ?s1 = "count_trace f (- 1) s"
  have f1: "live_fired ?s1 tid f" using frame_live_fired [OF still_frame [OF count_trace_frame]] f by blast
  obtain Qh where s2: "FT_buffersRemoved f (len bufs) ?s1 =
      ?s1\<lparr>h_fired := (h_fired s)(f := ft_removed (len bufs) (h_fired s f)), h_queues := Qh\<rparr>"
    "queues_ok (E(f := mdel i (E f))) (FT_buffersRemoved f (len bufs) ?s1)"
    "\<And>q. same_queue (h_queues ?s1 q) (Qh q)"
    using FT_buffersRemoved_ok [OF links_mdel [OF inv a f old] f1, of "len bufs"] by auto
  let ?s2 = "?s1\<lparr>h_fired := (h_fired s)(f := ft_removed (len bufs) (h_fired s f)), h_queues := Qh\<rparr>"
  have sq: "same_queue (h_queues s q) (Qh q)" "tq_fired (Qh q) = tq_fired (h_queues s q)" for q
    using same_queue_trans [OF count_trace_simps(12) s2(3)] by (auto simp: same_queue_def)
  show ?thesis
  proof (cases "mdel tid trs = []")
    case True
    define s' where "s' = set_state a None (?s2\<lparr>dm_trace_count := dm_trace_count s - 1,
      dm_buffer_count := dm_buffer_count s - len bufs,
      dm_triggered := (dm_triggered s)\<lparr>td_trace_count := td_trace_count (dm_triggered s) - 1,
        td_buffer_count := td_buffer_count (dm_triggered s) - len bufs\<rparr>,
      dm_traces := mdel i (dm_traces s)\<rparr>)"
    have "Trace_RemoveTrigger a f s = Inr (bufs, s')"
      using s2(1) by (simp add: Trace_RemoveTrigger_def st reporting_removeTrigger_def id g True tid s'_def
          count_trace_def upd_defs)
    moreover have fr: "still s s'" by (simp add: still_def frame_def s'_def sq)
    moreover have "inv (E(f := mdel i (E f))) s' \<and> held s = mset (tbufs s a) + held s'"
    proof (rule inv_del_last [OF inv a f old _ _ fr])
      show "queues_ok (E(f := mdel i (E f))) s'"
        by (rule queues_ok_cong [OF s2(2)]) (simp_all add: s'_def s2(1))
    qed (auto simp: st True s'_def)
    moreover have "live_trace s' j c \<longleftrightarrow> live_trace s j c" if "j \<noteq> i" for j c
      using that by (simp add: live_trace_def s'_def mget_mdel)
    moreover have "h_traces s' c = h_traces s c" if "c \<noteq> a" for c using that by (simp add: s'_def)
    moreover have "dm_traces s' = mdel i (dm_traces s)" by (simp add: s'_def)
    ultimately show ?thesis by (simp add: st True)
  next
    case False
    let ?st = "reportingTrace bufs (mdel tid trs)"
    let ?s = "set_state a (Some ?st) ?s2"
    have "Trace_RemoveTrigger a f s = Inr ([], ?s)"
      using False s2(1) by (simp add: Trace_RemoveTrigger_def st reporting_removeTrigger_def id g count_trace_def)
    moreover have fr: "still s ?s" by (simp add: still_def frame_def sq)
    moreover have "inv (E(f := mdel i (E f))) ?s \<and> held ?s = held s"
    proof (rule inv_del_link [OF inv a f old fr, of ?st])
      show "queues_ok (E(f := mdel i (E f))) ?s" by (rule queues_ok_cong [OF s2(2)]) (simp_all add: s2(1))
    qed (auto simp: st False)
    ultimately show ?thesis using False by (simp add: live_trace_def)
  qed
qed

text \<open>The buffers that come back are those of a trace that lost its last trigger.\<close>

lemma Trace_RemoveTrigger_ok [ok_rules]:
  assumes inv: "inv E s" and a: "live_trace s i a" and f: "live_fired s tid f" and old: "mget (E f) i = Some a"
  shows "ok (Trace_RemoveTrigger a f s) (\<lambda>(b, s'). inv (E(f := mdel i (E f))) s' \<and> held s = mset b + held s' \<and>
    still s s' \<and> (\<forall>j c. j \<noteq> i \<longrightarrow> live_trace s' j c \<longleftrightarrow> live_trace s j c) \<and>
    (\<forall>c. c \<noteq> a \<longrightarrow> h_traces s' c = h_traces s c) \<and>
    dm_traces s' = (if mdel tid (ttrigs s a) = [] then mdel i (dm_traces s) else dm_traces s) \<and>
    b = (if mdel tid (ttrigs s a) = [] then tbufs s a else []))"
proof (cases "tstate s a" rule: st_triggers.cases)
  case (1 trs)
  with triggered_removeTrigger_ok [OF inv a f old 1] show ?thesis by (auto elim!: ok_mono)
next
  case (2 b trs)
  with reporting_removeTrigger_ok [OF inv a f old 2] show ?thesis by (auto elim!: ok_mono)
next
  case "3_1"
  then show ?thesis using invD(3) [OF inv a] by (simp add: trace_ok_def)
next
  case "3_2"
  then show ?thesis using invD(3) [OF inv a] old f by (auto simp: trace_ok_def)
qed

section \<open>Creating a trace\<close>

lemma lru_new:
  assumes lru: "lru_ok s" and na: "\<And>j b. live_trace s j b \<Longrightarrow> b \<noteq> a"
    and L: "ud_lru (dm_untriggered s') = snd (list_PushFront a (ud_lru (dm_untriggered s)))"
      "e = fst (list_PushFront a (ud_lru (dm_untriggered s)))" "mget (dm_traces s) i = None"
    and lt: "\<And>j b. live_trace s' j b \<longleftrightarrow> (if j = i then b = a else live_trace s j b)"
    and st: "\<And>b. tstate s' b = (if b = a then Some (untriggeredTrace [] [] (dm_now s) e) else tstate s b)"
    and fr: "frame s s'"
  shows "lru_ok s'"
proof -
  let ?l = "ud_lru (dm_untriggered s)" and ?l' = "ud_lru (dm_untriggered s')"
  have wf: "list_wf ?l" using lru by (rule lru_okD)
  have mem: "(e', b) \<in> set (elems ?l') \<longleftrightarrow> (e', b) = (e, a) \<or> (e', b) \<in> set (elems ?l)" for e' b
    by (simp add: L lst.push_front_set [OF wf])
  have old: "b \<noteq> a" if "(e', b) \<in> set (elems ?l)" for e' b
    using that na lru_okD(2) [OF lru, of e' b] by blast
  have ex: "(\<exists>j. live_trace s' j b) \<longleftrightarrow> b = a \<or> (\<exists>j. live_trace s j b)" for b
  proof -
    have "\<not> live_trace s i b" using L(3) by (simp add: live_trace_def)
    then show ?thesis by (metis lt)
  qed
  have "(e', b) \<in> set (elems ?l') \<longleftrightarrow> (\<exists>j. live_trace s' j b) \<and> st_elem (tstate s' b) = Some e'" for e' b
    using old [of e' b] lru_okD(2) [OF lru, of e' b] by (auto simp: mem ex st)
  moreover have "lru_sorted (\<lambda>(e, a). st_stamp (tstate s' a)) (elems ?l')"
    unfolding L(1)
    by (rule lst.lru_push [OF wf lru_okD(3) [OF lru]])
      (use old lru_okD(4) [OF lru] in \<open>fastforce simp: st\<close>)
  moreover have "list_wf ?l'" using wf by (simp add: L lst.push_front_wf)
  moreover have "st_stamp (tstate s' b) \<le> dm_now s'" if "(e', b) \<in> set (elems ?l')" for e' b
    using that old [of e' b] lru_okD(4) [OF lru, of e' b] fr by (auto simp: mem st frame_def)
  ultimately show ?thesis by (simp add: lru_ok_def)
qed

text \<open>A new trace has no buffers and no links, so the triggers and the counters see only one more trace.\<close>

lemma fired_new:
  assumes fo: "fired_ok E s f" and "mget (E f) i = None" and "h_fired s' f = h_fired s f"
    and na: "\<And>j b. live_trace s j b \<Longrightarrow> b \<noteq> a" and lt: "\<And>j b. live_trace s' j b \<longleftrightarrow> (if j = i then b = a else live_trace s j b)"
    and st: "\<And>b. b \<noteq> a \<Longrightarrow> tstate s' b = tstate s b"
  shows "fired_ok E s' f"
proof -
  have "tstate s' b = tstate s b" if "(j, b) \<in> set (E f)" for j b
    using fo that na [of j b] st [of b] by (simp add: fired_ok_def mget_set)
  then have "msum (\<lambda>(i, a). len (tbufs s' a)) (E f) = msum (\<lambda>(i, a). len (tbufs s a)) (E f)"
    by (auto intro!: msum_cong)
  moreover have "live_trace s' j b" if "mget (E f) j = Some b" for j b
    using fo that assms(2) by (auto simp: fired_ok_def lt)
  ultimately show ?thesis using fo assms(3) by (simp add: fired_ok_def)
qed

lemma counts_new:
  assumes "counts_ok s" and tr: "dm_traces s' = dm_traces s @ [(i, a)]"
    and old: "\<And>j b. (j, b) \<in> set (dm_traces s) \<Longrightarrow> b \<noteq> a"
    and st: "\<And>b. tstate s' b = (if b = a then Some (untriggeredTrace [] [] t e) else tstate s b)"
    and "dm_trace_count s' = dm_trace_count s + 1" "dm_buffer_count s' = dm_buffer_count s"
      "ud_trace_count (dm_untriggered s') = ud_trace_count (dm_untriggered s) + 1"
      "ud_buffer_count (dm_untriggered s') = ud_buffer_count (dm_untriggered s)" "dm_triggered s' = dm_triggered s"
  shows "counts_ok s' \<and> held s' = held s"
proof -
  have ms: "msum (\<lambda>(j, b). g (tstate s' b)) (dm_traces s) = msum (\<lambda>(j, b). g (tstate s b)) (dm_traces s)"
    for g :: "tracestate option \<Rightarrow> int" using old by (auto simp: st intro!: msum_cong)
  have "counts_ok s'"
    using assms(1,5-)
      ms [of "\<lambda>t. len (st_buffers t)"] ms [of "\<lambda>t. if st_elem t \<noteq> None then 1 else 0"]
      ms [of "\<lambda>t. if st_elem t \<noteq> None then len (st_buffers t) else 0"]
      ms [of "\<lambda>t. if st_elem t \<noteq> None then 0 else 1"]
      ms [of "\<lambda>t. if st_elem t \<noteq> None then 0 else len (st_buffers t)"] st [of a]
    unfolding counts_ok_def tr by simp
  moreover have "msum (\<lambda>(j, b). mset (tbufs s' b)) (dm_traces s) = held s"
    unfolding held_def using old by (auto simp: st intro!: msum_cong)
  then have "held s' = held s" by (simp add: held_def tr st)
  ultimately show ?thesis ..
qed

lemma initUntriggeredTrace_ok:
  assumes inv: "inv E s" and new: "mget (dm_traces s) i = None"
    and s': "initUntriggeredTrace i s = (a, s')"
  shows "inv E s' \<and> live_trace s' i a \<and> held s' = held s \<and> frame s s' \<and>
    tbufs s' a = [] \<and> st_breadcrumbs (tstate s' a) = [] \<and> untriggered_p s' a \<and>
    dm_traces s' = dm_traces s @ [(i, a)] \<and> (\<forall>c. c \<noteq> a \<longrightarrow> h_traces s' c = h_traces s c) \<and>
    (\<forall>j b. live_trace s j b \<longrightarrow> b \<noteq> a)"
proof -
  let ?l = "ud_lru (dm_untriggered s)"
  have wf: "list_wf ?l" using invD(5) [OF inv] by (rule lru_okD)
  define e where "e = fst (list_PushFront a ?l)"
  have a: "a = next_trace s" and eq: "s' = s\<lparr>next_trace := Suc (next_trace s),
      dm_traces := mput i a (dm_traces s), dm_trace_count := dm_trace_count s + 1,
      dm_untriggered := (dm_untriggered s)\<lparr>ud_lru := snd (list_PushFront a ?l),
        ud_trace_count := ud_trace_count (dm_untriggered s) + 1\<rparr>,
      h_traces := (h_traces s)(a := \<lparr>tr_id = i, tr_state = Some (untriggeredTrace [] [] (dm_now s) e)\<rparr>)\<rparr>"
    using s' by (auto simp: initUntriggeredTrace_def upd_defs e_def Let_def split: prod.splits)
  have na: "b \<noteq> a" if "live_trace s j b" for j b
    using invD(3) [OF inv that] by (simp add: trace_ok_def a)
  have tr: "dm_traces s' = dm_traces s @ [(i, a)]"
    using new by (simp add: eq mput_fresh mget_None_keys)
  have lt: "live_trace s' j b \<longleftrightarrow> (if j = i then b = a else live_trace s j b)" for j b
    by (auto simp: live_trace_def eq mget_mput)
  have fr: "frame s s'" by (simp add: frame_def eq)
  have lf: "live_fired s' tid f \<longleftrightarrow> live_fired s tid f" for tid f using frame_live_fired [OF fr] .
  have ni: "mget (E f) i = None" if "live_fired s tid f" for tid f
    using invD(4) [OF inv that] new by (cases "mget (E f) i") (auto simp: fired_ok_def live_trace_def)
  have st: "tstate s' b = (if b = a then Some (untriggeredTrace [] [] (dm_now s) e) else tstate s b)" for b
    by (simp add: eq)
  have q: "queues_ok E s'" by (rule queues_ok_cong [OF invD(2) [OF inv]]) (simp_all add: eq)
  have t: "trace_ok E s' j b" if j: "live_trace s' j b" for j b
  proof (cases "j = i")
    case True
    with j have "b = a" by (simp add: lt)
    with True ni show ?thesis by (auto simp: trace_ok_def st lf) (simp_all add: eq a)
  next
    case False
    with j have "live_trace s j b" by (simp add: lt)
    then show ?thesis
      by (intro trace_ok_frame [OF invD(3) [OF inv]]) (use na lf in \<open>auto simp: eq\<close>)
  qed
  have fo: "fired_ok E s' f" if "live_fired s tid f" for tid f
    by (rule fired_new [OF invD(4) [OF inv that] ni [OF that] _ na lt]) (simp_all add: eq)
  have old: "b \<noteq> a" if "(j, b) \<in> set (dm_traces s)" for j b
    using that na [of j b] invD(1) [OF inv] by (simp add: live_trace_def mget_set)
  have "lru_ok s'" by (rule lru_new [OF invD(5) [OF inv] na _ e_def new lt st fr]) (simp_all add: eq)
  moreover have "counts_ok s' \<and> held s' = held s"
    by (rule counts_new [OF invD(6) [OF inv] tr old st]) (simp_all add: eq)
  then have "counts_ok s'" "held s' = held s" by blast+
  moreover have "mok (dm_traces s')" using invD(1) [OF inv] by (simp add: eq)
  ultimately have "inv E s'" using q t fo lf by (simp add: inv_def)
  with tr fr na \<open>held s' = held s\<close> show ?thesis by (simp add: lt st) (simp add: eq)
qed

end
