(* ===== verification/Fired_Lemmas.thy ===== *)
theory Fired_Lemmas
  imports Trace_Correct
begin

text \<open>
  The life of a fired trigger inside its queue: it enters idle, becomes reporting when buffers
  arrive (\<open>queue_ok_added\<close>), goes back to idle when it was reported, and leaves.  Each
  transition keeps the queue consistent, and a consistent queue keeps the whole invariant.
\<close>

section \<open>Transitions of a trigger in its queue\<close>

lemma queue_okD:
  assumes "queue_ok now H nf E k q Q"
  shows "tq_id Q = k" "mok (tq_fired Q)" "list_wf (tq_idle Q)" "tree_invar (tq_reporting Q)"
    "mget (tq_fired Q) b = Some f \<Longrightarrow> f < nf"
    "mget (tq_fired Q) b = Some f \<Longrightarrow> ft_id (H f) = \<lparr>queue_id = k, base_trace_id = b\<rparr>"
    "mget (tq_fired Q) b = Some f \<Longrightarrow> ft_queue (H f) = q"
    "mget (tq_fired Q) b = Some f \<Longrightarrow> ft_state (H f) \<noteq> None"
    "(e, f) \<in> set (elems (tq_idle Q)) \<longleftrightarrow> (\<exists>b. mget (tq_fired Q) b = Some f) \<and> ft_elem (ft_state (H f)) = Some e"
    "b \<in># tree_mset (tq_reporting Q) \<longleftrightarrow>
        (\<exists>f. mget (tq_fired Q) b = Some f \<and> ft_state (H f) = Some reportingTrigger)"
    "lru_sorted (\<lambda>(e, f). ft_stamp (ft_state (H f))) (elems (tq_idle Q))"
    "(e, f) \<in> set (elems (tq_idle Q)) \<Longrightarrow> ft_stamp (ft_state (H f)) \<le> now"
    "tq_buffer_count Q = msum (\<lambda>(b, f). ft_buffer_count (H f)) (tq_fired Q)"
    "tq_trace_count Q = msum (\<lambda>(b, f). len (E f)) (tq_fired Q)"
  using assms by (simp_all add: queue_ok_def)

lemma queue_fired_inj:
  "queue_ok now H nf E k q Q \<Longrightarrow> mget (tq_fired Q) b = Some f \<Longrightarrow> mget (tq_fired Q) b' = Some f \<Longrightarrow> b' = b"
  by (metis queue_okD(6) TriggerID.ext_inject)

lemma queue_idle_unique:
  assumes ok: "queue_ok now H nf E k q Q" and f: "mget (tq_fired Q) b = Some f" "ft_elem (ft_state (H f)) = Some e"
    and g: "(e', g) \<in> set (elems (tq_idle Q))"
  shows "e' = e \<longleftrightarrow> g = f"
proof -
  have "(e, f) \<in> set (elems (tq_idle Q))" using queue_okD(9) [OF ok] f by blast
  with g lst.handle_value_unique [OF queue_okD(3) [OF ok]] queue_okD(9) [OF ok] f(2) show ?thesis
    by (metis option.inject)
qed

text \<open>A trigger without traces leaves its queue.\<close>

lemma queue_ok_drop:
  assumes ok: "queue_ok now H nf E k q Q" and f: "mget (tq_fired Q) b = Some f"
    and z: "ft_buffer_count (H f) = 0" "E f = []"
    and H': "\<And>g. g \<noteq> f \<Longrightarrow> H' g = H g \<and> E' g = E g"
    and Q': "tq_id Q' = tq_id Q" "tq_fired Q' = mdel b (tq_fired Q)"
      "tq_idle Q' = (case ft_elem (ft_state (H f)) of None \<Rightarrow> tq_idle Q | Some e \<Rightarrow> list_Remove e (tq_idle Q))"
      "tq_buffer_count Q' = tq_buffer_count Q" "tq_trace_count Q' = tq_trace_count Q"
    and tree: "tree_invar (tq_reporting Q')"
      "\<And>x. x \<in># tree_mset (tq_reporting Q') \<longleftrightarrow> x \<in># tree_mset (tq_reporting Q) \<and> x \<noteq> b"
  shows "queue_ok now H' nf E' k q Q'"
proof -
  have m: "mok (tq_fired Q)" and wf: "list_wf (tq_idle Q)" using queue_okD [OF ok] by blast+
  have g': "mget (tq_fired Q') b' = Some g \<longleftrightarrow> b' \<noteq> b \<and> mget (tq_fired Q) b' = Some g" for b' g
    by (simp add: Q' mget_mdel_iff)
  have ne: "g \<noteq> f" if "b' \<noteq> b" "mget (tq_fired Q) b' = Some g" for b' g
    using that queue_fired_inj [OF ok f] by metis
  have other: "H' g = H g \<and> E' g = E g" if "b' \<noteq> b" "mget (tq_fired Q) b' = Some g" for b' g
    using H' ne [OF that] by blast
  have idle: "(e, g) \<in> set (elems (tq_idle Q')) \<longleftrightarrow> (e, g) \<in> set (elems (tq_idle Q)) \<and> g \<noteq> f" for e g
  proof (cases "ft_elem (ft_state (H f))")
    case None
    then show ?thesis using queue_okD(9) [OF ok] by (auto simp: Q')
  next
    case (Some e0)
    then show ?thesis using queue_idle_unique [OF ok f Some] by (auto simp: Q' lst.remove_set [OF wf])
  qed
  have idle': "(e, g) \<in> set (elems (tq_idle Q')) \<longleftrightarrow>
      (\<exists>b'. mget (tq_fired Q') b' = Some g) \<and> ft_elem (ft_state (H' g)) = Some e" for e g
  proof (cases "g = f")
    case True
    then have "\<not> (\<exists>b'. mget (tq_fired Q') b' = Some g)" using ne by (auto simp: g')
    with True show ?thesis by (simp add: idle)
  next
    case False
    then have "(\<exists>b'. mget (tq_fired Q') b' = Some g) \<longleftrightarrow> (\<exists>b'. mget (tq_fired Q) b' = Some g)"
      using f by (metis g' option.inject)
    with False H' show ?thesis by (simp add: idle queue_okD(9) [OF ok])
  qed
  have rep: "x \<in># tree_mset (tq_reporting Q') \<longleftrightarrow>
      (\<exists>g. mget (tq_fired Q') x = Some g \<and> ft_state (H' g) = Some reportingTrigger)" for x
    using other by (auto simp: tree(2) queue_okD(10) [OF ok] g')
  have "lru_sorted (\<lambda>(e, f). ft_stamp (ft_state (H f))) (elems (tq_idle Q'))"
    using queue_okD(11) [OF ok] lst.lru_remove [OF wf queue_okD(11) [OF ok]] by (auto simp: Q' split: option.split)
  then have lru: "lru_sorted (\<lambda>(e, f). ft_stamp (ft_state (H' f))) (elems (tq_idle Q'))"
    by (rule lru_sorted_cong) (use H' in \<open>auto simp: idle\<close>)
  have mem: "H' g = H g \<and> E' g = E g" if "(b', g) \<in> set (mdel b (tq_fired Q))" for b' g
    by (rule other) (use that m in \<open>auto simp: AList.delete_eq mget_set\<close>)
  have "msum (\<lambda>(b, f). ft_buffer_count (H f)) (tq_fired Q) = msum (\<lambda>(b, f). ft_buffer_count (H' f)) (tq_fired Q')"
    "msum (\<lambda>(b, f). len (E f)) (tq_fired Q) = msum (\<lambda>(b, f). len (E' f)) (tq_fired Q')"
    using z mem by (auto simp: msum_del [OF m f] Q'(2) intro!: msum_cong)
  moreover have "list_wf (tq_idle Q')" using wf by (auto simp: Q' lst.remove_wf split: option.split)
  moreover have "\<forall>b f. mget (tq_fired Q') b = Some f \<longrightarrow>
        f < nf \<and> ft_id (H' f) = \<lparr>queue_id = k, base_trace_id = b\<rparr> \<and> ft_queue (H' f) = q \<and> ft_state (H' f) \<noteq> None"
    using queue_okD(5-8) [OF ok] other by (auto simp: g')
  moreover have "\<forall>e f. (e, f) \<in> set (elems (tq_idle Q')) \<longrightarrow> ft_stamp (ft_state (H' f)) \<le> now"
    using queue_okD(12) [OF ok] H' by (auto simp: idle)
  ultimately show ?thesis
    using queue_okD(1,13,14) [OF ok] m tree(1) idle' rep lru by (simp add: queue_ok_def Q'(1,4,5)) (simp add: Q'(2))
qed

text \<open>A reported trigger becomes idle.\<close>

lemma queue_ok_idle:
  assumes ok: "queue_ok now H nf E k q Q" and f: "mget (tq_fired Q) b = Some f"
    and r: "ft_state (H f) = Some reportingTrigger"
    and H': "H' = H(f := (H f)\<lparr>ft_state := Some (idleTrigger now (fst (list_PushFront f (tq_idle Q))))\<rparr>)"
    and Q': "tq_id Q' = tq_id Q" "tq_fired Q' = tq_fired Q" "tq_idle Q' = snd (list_PushFront f (tq_idle Q))"
      "tq_buffer_count Q' = tq_buffer_count Q" "tq_trace_count Q' = tq_trace_count Q"
    and tree: "tree_invar (tq_reporting Q')"
      "\<And>x. x \<in># tree_mset (tq_reporting Q') \<longleftrightarrow> x \<in># tree_mset (tq_reporting Q) \<and> x \<noteq> b"
  shows "queue_ok now H' nf E k q Q'"
proof -
  let ?e = "fst (list_PushFront f (tq_idle Q))"
  have wf: "list_wf (tq_idle Q)" using queue_okD(3) [OF ok] .
  have idle: "(e, g) \<in> set (elems (tq_idle Q')) \<longleftrightarrow> (e, g) = (?e, f) \<or> (e, g) \<in> set (elems (tq_idle Q))" for e g
    by (simp add: Q' lst.push_front_set [OF wf])
  have nf: "g \<noteq> f" if "(e, g) \<in> set (elems (tq_idle Q))" for e g
    using that queue_okD(9) [OF ok, of e g] r by auto
  have idle': "(e, g) \<in> set (elems (tq_idle Q')) \<longleftrightarrow>
      (\<exists>b'. mget (tq_fired Q) b' = Some g) \<and> ft_elem (ft_state (H' g)) = Some e" for e g
    using nf [of e g] queue_okD(9) [OF ok, of e g] f by (auto simp: idle H')
  have rep: "x \<in># tree_mset (tq_reporting Q') \<longleftrightarrow>
      (\<exists>g. mget (tq_fired Q) x = Some g \<and> ft_state (H' g) = Some reportingTrigger)" for x
  proof (cases "x = b")
    case True
    then show ?thesis using f by (simp add: tree(2) H')
  next
    case False
    then have "g \<noteq> f" if "mget (tq_fired Q) x = Some g" for g using that queue_fired_inj [OF ok f] by metis
    with False show ?thesis by (auto simp: tree(2) queue_okD(10) [OF ok] H')
  qed
  have lru: "lru_sorted (\<lambda>(e, f). ft_stamp (ft_state (H' f))) (elems (tq_idle Q'))"
    unfolding Q'(3)
  proof (rule lst.lru_push [OF wf queue_okD(11) [OF ok]])
    fix p assume p: "p \<in> set (elems (tq_idle Q))"
    then show "(case p of (e, f) \<Rightarrow> ft_stamp (ft_state (H' f))) = (case p of (e, f) \<Rightarrow> ft_stamp (ft_state (H f))) \<and>
      (case p of (e, f) \<Rightarrow> ft_stamp (ft_state (H f))) \<le> (case (?e, f) of (e, f) \<Rightarrow> ft_stamp (ft_state (H' f)))"
      using nf queue_okD(12) [OF ok] by (auto simp: H' split: prod.splits)
  qed
  have same: "ft_id (H' g) = ft_id (H g)" "ft_queue (H' g) = ft_queue (H g)"
    "ft_buffer_count (H' g) = ft_buffer_count (H g)" for g by (simp_all add: H')
  have "\<forall>b f. mget (tq_fired Q) b = Some f \<longrightarrow>
        f < nf \<and> ft_id (H' f) = \<lparr>queue_id = k, base_trace_id = b\<rparr> \<and> ft_queue (H' f) = q \<and> ft_state (H' f) \<noteq> None"
    using queue_okD(5-8) [OF ok] by (auto simp: same) (auto simp: H')
  moreover have "\<forall>e f. (e, f) \<in> set (elems (tq_idle Q')) \<longrightarrow> ft_stamp (ft_state (H' f)) \<le> now"
    using queue_okD(12) [OF ok] nf by (auto simp: idle H')
  moreover have "list_wf (tq_idle Q')" using wf by (simp add: Q' lst.push_front_wf)
  ultimately show ?thesis
    using queue_okD(1,2,13,14) [OF ok] tree(1) idle' rep lru
    by (simp add: queue_ok_def Q'(1,2,4,5) same)
qed

text \<open>A new trigger enters idle.\<close>

lemma queue_ok_new:
  assumes ok: "queue_ok now H nf E k q Q" and new: "mget (tq_fired Q) b = None"
    and H': "H' = H(nf := \<lparr>ft_id = \<lparr>queue_id = k, base_trace_id = b\<rparr>, ft_queue = q, ft_traces = [],
        ft_buffer_count = 0, ft_state = Some (idleTrigger now (fst (list_PushFront nf (tq_idle Q))))\<rparr>)"
    and E': "E' nf = []" "\<And>g. g \<noteq> nf \<Longrightarrow> E' g = E g"
    and Q': "tq_id Q' = tq_id Q" "tq_fired Q' = mput b nf (tq_fired Q)" "tq_idle Q' = snd (list_PushFront nf (tq_idle Q))"
      "tq_buffer_count Q' = tq_buffer_count Q" "tq_trace_count Q' = tq_trace_count Q" "tq_reporting Q' = tq_reporting Q"
  shows "queue_ok now H' (Suc nf) E' k q Q'"
proof -
  let ?e = "fst (list_PushFront nf (tq_idle Q))"
  have wf: "list_wf (tq_idle Q)" and m: "mok (tq_fired Q)" using queue_okD [OF ok] by blast+
  have idle: "(e, g) \<in> set (elems (tq_idle Q')) \<longleftrightarrow> (e, g) = (?e, nf) \<or> (e, g) \<in> set (elems (tq_idle Q))" for e g
    by (simp add: Q' lst.push_front_set [OF wf])
  have old: "g \<noteq> nf" if "mget (tq_fired Q) b' = Some g" for b' g using queue_okD(5) [OF ok that] by simp
  have oldi: "g \<noteq> nf" if "(e, g) \<in> set (elems (tq_idle Q))" for e g
    using that old queue_okD(9) [OF ok, of e g] by blast
  have fired: "mget (tq_fired Q') b' = Some g \<longleftrightarrow> (b', g) = (b, nf) \<or> mget (tq_fired Q) b' = Some g" for b' g
    using new by (auto simp: Q' mget_mput)
  have idle': "(e, g) \<in> set (elems (tq_idle Q')) \<longleftrightarrow>
      (\<exists>b'. mget (tq_fired Q') b' = Some g) \<and> ft_elem (ft_state (H' g)) = Some e" for e g
    using oldi [of e g] old [of _ g] queue_okD(9) [OF ok, of e g] by (auto simp: idle fired H')
  have rep: "x \<in># tree_mset (tq_reporting Q') \<longleftrightarrow>
      (\<exists>g. mget (tq_fired Q') x = Some g \<and> ft_state (H' g) = Some reportingTrigger)" for x
    using old by (auto simp: Q'(6) queue_okD(10) [OF ok] fired H')
  have lru: "lru_sorted (\<lambda>(e, f). ft_stamp (ft_state (H' f))) (elems (tq_idle Q'))"
    unfolding Q'(3)
  proof (rule lst.lru_push [OF wf queue_okD(11) [OF ok]])
    fix p assume p: "p \<in> set (elems (tq_idle Q))"
    then show "(case p of (e, f) \<Rightarrow> ft_stamp (ft_state (H' f))) = (case p of (e, f) \<Rightarrow> ft_stamp (ft_state (H f))) \<and>
      (case p of (e, f) \<Rightarrow> ft_stamp (ft_state (H f))) \<le> (case (?e, nf) of (e, f) \<Rightarrow> ft_stamp (ft_state (H' f)))"
      using oldi queue_okD(12) [OF ok] by (auto simp: H' split: prod.splits)
  qed
  have "(b', g) \<in> set (tq_fired Q) \<Longrightarrow> g \<noteq> nf" for b' g using old m by (simp add: mget_set)
  then have "msum (\<lambda>(b, f). ft_buffer_count (H' f)) (tq_fired Q) = msum (\<lambda>(b, f). ft_buffer_count (H f)) (tq_fired Q)"
    "msum (\<lambda>(b, f). len (E' f)) (tq_fired Q) = msum (\<lambda>(b, f). len (E f)) (tq_fired Q)"
    by (auto simp: H' E' intro!: msum_cong)
  then have sums: "msum (\<lambda>(b, f). ft_buffer_count (H' f)) (tq_fired Q') = tq_buffer_count Q'"
    "msum (\<lambda>(b, f). len (E' f)) (tq_fired Q') = tq_trace_count Q'"
    using queue_okD(13,14) [OF ok] E' unfolding Q'(2) msum_put_fresh [OF new] by (simp_all add: Q'(4,5) H')
  have "\<forall>b f. mget (tq_fired Q') b = Some f \<longrightarrow> f < Suc nf \<and>
        ft_id (H' f) = \<lparr>queue_id = k, base_trace_id = b\<rparr> \<and> ft_queue (H' f) = q \<and> ft_state (H' f) \<noteq> None"
    using queue_okD(5-8) [OF ok] old by (auto simp: fired H' less_Suc_eq)
  moreover have "\<forall>e f. (e, f) \<in> set (elems (tq_idle Q')) \<longrightarrow> ft_stamp (ft_state (H' f)) \<le> now"
    using queue_okD(12) [OF ok] oldi by (auto simp: idle H')
  moreover have "list_wf (tq_idle Q')" "mok (tq_fired Q')" using wf m by (simp_all add: Q' lst.push_front_wf)
  ultimately show ?thesis
    using queue_okD(1,4) [OF ok] idle' rep lru sums unfolding queue_ok_def by (simp add: Q'(1,6))
qed

section \<open>From one queue to the whole state\<close>

text \<open>Steps that change the triggers and queues only.\<close>

definition same_traces :: "dms \<Rightarrow> dms \<Rightarrow> bool" where
  "same_traces s s' \<longleftrightarrow> dm_now s' = dm_now s \<and> dm_traces s' = dm_traces s \<and> h_traces s' = h_traces s \<and>
     next_trace s' = next_trace s \<and> dm_untriggered s' = dm_untriggered s \<and>
     td_trace_count (dm_triggered s') = td_trace_count (dm_triggered s) \<and>
     td_buffer_count (dm_triggered s') = td_buffer_count (dm_triggered s) \<and>
     dm_trace_count s' = dm_trace_count s \<and> dm_buffer_count s' = dm_buffer_count s"

lemma same_traces_held: "same_traces s s' \<Longrightarrow> held s' = held s"
  by (simp add: same_traces_def held_def)

lemma inv_fired_step:
  assumes inv: "inv E s" and same: "same_traces s s'" and q: "queues_ok E' s'"
    and fired: "\<And>tid f. live_fired s' tid f \<Longrightarrow>
      live_fired s tid f \<and> E' f = E f \<and> ft_buffer_count (h_fired s' f) = ft_buffer_count (h_fired s f) \<or>
      E' f = [] \<and> ft_buffer_count (h_fired s' f) = 0"
    and links: "\<And>tid f i a. live_fired s tid f \<Longrightarrow> mget (E f) i = Some a \<Longrightarrow> live_fired s' tid f \<and> E' f = E f"
    and rep: "\<And>i a tid f. live_trace s i a \<Longrightarrow> st_reporting (tstate s a) \<Longrightarrow> mget (ttrigs s a) tid = Some f \<Longrightarrow>
      ft_state (h_fired s f) = Some reportingTrigger \<Longrightarrow> ft_state (h_fired s' f) = Some reportingTrigger"
  shows "inv E' s'"
proof -
  have lt: "live_trace s' i a \<longleftrightarrow> live_trace s i a" for i a using same by (simp add: same_traces_def live_trace_def)
  have T: "h_traces s' = h_traces s" using same by (simp add: same_traces_def)
  have "fired_ok E' s' f" if "live_fired s' tid f" for tid f
    using fired [OF that]
  proof
    assume f: "live_fired s tid f \<and> E' f = E f \<and> ft_buffer_count (h_fired s' f) = ft_buffer_count (h_fired s f)"
    then have "fired_ok E s f" using invD(4) [OF inv] by blast
    with f show ?thesis by (simp add: fired_ok_def lt T)
  qed (simp add: fired_ok_def)
  moreover have "trace_ok E' s' i a" if a: "live_trace s i a" for i a
  proof -
    have to: "trace_ok E s i a" using invD(3) [OF inv a] .
    have g: "mget (ttrigs s a) tid = Some f \<longleftrightarrow> live_fired s' tid f \<and> mget (E' f) i = Some a" for tid f
    proof -
      have "mget (ttrigs s a) tid = Some f \<longleftrightarrow> live_fired s tid f \<and> mget (E f) i = Some a"
        using to by (simp add: trace_ok_def)
      moreover have "live_fired s tid f \<and> mget (E f) i = Some a \<longleftrightarrow> live_fired s' tid f \<and> mget (E' f) i = Some a"
        using fired [of tid f] links [of tid f i a] by auto
      ultimately show ?thesis by simp
    qed
    have r: "st_reporting (tstate s a) \<longrightarrow> (\<forall>tid f. mget (ttrigs s a) tid = Some f \<longrightarrow>
        ft_state (h_fired s' f) = Some reportingTrigger)"
      using rep [OF a] to unfolding trace_ok_def by blast
    have "a < next_trace s'" using to same by (simp add: trace_ok_def same_traces_def)
    with to g r show ?thesis unfolding trace_ok_def T by blast
  qed
  moreover have "lru_ok s'"
    using invD(5) [OF inv] same by (simp add: lru_ok_def same_traces_def live_trace_def)
  moreover have "counts_ok s'"
  proof -
    have eqs: "dm_traces s' = dm_traces s" "dm_untriggered s' = dm_untriggered s"
      "td_trace_count (dm_triggered s') = td_trace_count (dm_triggered s)"
      "td_buffer_count (dm_triggered s') = td_buffer_count (dm_triggered s)"
      "dm_trace_count s' = dm_trace_count s" "dm_buffer_count s' = dm_buffer_count s"
      using same by (simp_all add: same_traces_def)
    show ?thesis using invD(6) [OF inv] unfolding counts_ok_def T by (simp only: eqs)
  qed
  moreover have "mok (dm_traces s')" using invD(1) [OF inv] same by (simp add: same_traces_def)
  ultimately show ?thesis using q lt by (simp add: inv_def)
qed

text \<open>Only the fields that the invariant reads matter.\<close>

lemma inv_fired_cong:
  assumes inv: "inv E s" and H': "\<And>f. ft_id (H' f) = ft_id (h_fired s f) \<and> ft_queue (H' f) = ft_queue (h_fired s f) \<and>
      ft_state (H' f) = ft_state (h_fired s f) \<and> ft_buffer_count (H' f) = ft_buffer_count (h_fired s f)"
  shows "inv E (s\<lparr>h_fired := H'\<rparr>)"
proof (rule inv_fired_step [OF inv])
  show "queues_ok E (s\<lparr>h_fired := H'\<rparr>)"
    using invD(2) [OF inv] H' by (simp add: queues_ok_def queue_ok_def live_queue_def)
qed (use H' in \<open>auto simp: same_traces_def live_fired_def live_queue_def\<close>)

lemma queue_ok_mono:
  assumes ok: "queue_ok now H nf E k q Q" and "nf \<le> nf'"
  shows "queue_ok now H nf' E k q Q"
proof -
  have "\<forall>b f. mget (tq_fired Q) b = Some f \<longrightarrow> f < nf' \<and> ft_id (H f) = \<lparr>queue_id = k, base_trace_id = b\<rparr> \<and>
      ft_queue (H f) = q \<and> ft_state (H f) \<noteq> None"
    using queue_okD(5-8) [OF ok] assms(2) by (meson order_less_le_trans)
  with ok show ?thesis by (simp add: queue_ok_def)
qed

text \<open>One queue and one of its triggers change.\<close>

lemma queues_ok_one:
  assumes q: "queues_ok E s" and p: "live_queue s k p"
    and same: "dm_now s' = dm_now s" "td_queues (dm_triggered s') = td_queues (dm_triggered s)"
      "next_queue s' = next_queue s" "next_fired s \<le> next_fired s'"
      "\<And>r. r \<noteq> p \<Longrightarrow> h_queues s' r = h_queues s r"
    and other: "\<And>g. g < next_fired s \<Longrightarrow> ft_queue (h_fired s g) \<noteq> p \<Longrightarrow> h_fired s' g = h_fired s g \<and> E' g = E g"
    and Q: "queue_ok (dm_now s) (h_fired s') (next_fired s') E' k p (h_queues s' p)"
  shows "queues_ok E' s'"
proof -
  have "r < next_queue s' \<and> queue_ok (dm_now s') (h_fired s') (next_fired s') E' l r (h_queues s' r)"
    if l: "live_queue s' l r" for l r
  proof -
    have l: "live_queue s l r" using l same by (simp add: live_queue_def)
    show ?thesis
    proof (cases "r = p")
      case True
      with l p have "l = k" using live_queue_inj [OF q] by blast
      with True Q same queues_okD(1) [OF q l] show ?thesis by simp
    next
      case False
      have ok: "queue_ok (dm_now s) (h_fired s) (next_fired s) E l r (h_queues s r)" using queues_okD(2) [OF q l] .
      have "h_fired s' g = h_fired s g \<and> len (E' g) = len (E g)" if "mget (tq_fired (h_queues s r)) b = Some g" for b g
        using other [of g] queue_okD(5,7) [OF ok that] False by simp
      then have "queue_ok (dm_now s) (h_fired s') (next_fired s) E' l r (h_queues s r)"
        by (intro queue_ok_cong [OF ok]) blast
      with False same queues_okD(1) [OF q l] queue_ok_mono [OF this same(4)] show ?thesis by simp
    qed
  qed
  then show ?thesis using q same by (simp add: queues_ok_def)
qed

lemma live_queue_fired:
  assumes "queues_ok E s" "live_queue s k q" "live_fired s tid f"
  shows "ft_queue (h_fired s f) = q \<longleftrightarrow> queue_id tid = k"
  using assms by (metis live_firedE live_queue_inj live_queue_def option.inject)

text \<open>A trigger without traces goes away.\<close>

lemma inv_drop_fired:
  assumes inv: "inv E s" and p: "live_queue s k p" and f: "mget (tq_fired (h_queues s p)) b = Some f"
    and z: "E f = []" and E': "\<And>g. g \<noteq> f \<Longrightarrow> E' g = E g"
    and Q': "tq_id Q' = tq_id (h_queues s p)" "tq_fired Q' = mdel b (tq_fired (h_queues s p))"
      "tq_idle Q' = (case ft_elem (ft_state (h_fired s f)) of None \<Rightarrow> tq_idle (h_queues s p)
          | Some e \<Rightarrow> list_Remove e (tq_idle (h_queues s p)))"
      "tq_buffer_count Q' = tq_buffer_count (h_queues s p)" "tq_trace_count Q' = tq_trace_count (h_queues s p)"
    and tree: "tree_invar (tq_reporting Q')"
      "\<And>x. x \<in># tree_mset (tq_reporting Q') \<longleftrightarrow> x \<in># tree_mset (tq_reporting (h_queues s p)) \<and> x \<noteq> b"
    and s': "s' = s\<lparr>h_fired := (h_fired s)(f := F), h_queues := (h_queues s)(p := Q')\<rparr>"
  shows "inv E' s' \<and> held s' = held s"
proof -
  have q: "queues_ok E s" using invD(2) [OF inv] .
  have ok: "queue_ok (dm_now s) (h_fired s) (next_fired s) E k p (h_queues s p)" using queues_okD(2) [OF q p] .
  have lf: "live_fired s \<lparr>queue_id = k, base_trace_id = b\<rparr> f" using live_firedI [OF p f] .
  have cf: "ft_buffer_count (h_fired s f) = 0" using invD(4) [OF inv lf] z by (simp add: fired_ok_def)
  have ft: "ft_queue (h_fired s f) = p" using queue_okD(7) [OF ok f] .
  have same: "same_traces s s'" by (simp add: same_traces_def s')
  have "queue_ok (dm_now s) (h_fired s') (next_fired s') E' k p Q'"
    using queue_ok_drop [OF ok f cf z _ Q' tree, of "h_fired s'" E'] E' by (simp add: s')
  then have q': "queues_ok E' s'" by (intro queues_ok_one [OF q p]) (use ft E' in \<open>auto simp: s'\<close>)
  have live: "live_fired s' tid g \<longleftrightarrow> live_fired s tid g \<and> g \<noteq> f" for tid g
  proof (cases "queue_id tid = k")
    case True
    then have l: "live_fired s tid g \<longleftrightarrow> mget (tq_fired (h_queues s p)) (base_trace_id tid) = Some g"
      using p by (simp add: live_fired_def live_queue_def)
    have "live_fired s' tid g \<longleftrightarrow> mget (tq_fired Q') (base_trace_id tid) = Some g"
      using p True by (simp add: live_fired_def live_queue_def s')
    moreover have "base_trace_id tid \<noteq> b \<longleftrightarrow> g \<noteq> f" if "live_fired s tid g"
      using that l f queue_fired_inj [OF ok f] by (metis option.inject)
    ultimately show ?thesis using l by (auto simp: Q' mget_mdel_iff)
  next
    case False
    then have ne: "g \<noteq> f" if "live_fired s tid g" using that live_queue_fired [OF q p that] ft by auto
    have "r \<noteq> p" if "live_queue s (queue_id tid) r" for r using that p False live_queue_inj [OF q] by blast
    then have "live_fired s' tid g \<longleftrightarrow> live_fired s tid g" by (auto simp: live_fired_def live_queue_def s')
    with ne show ?thesis by blast
  qed
  have hf: "h_fired s' g = h_fired s g" if "g \<noteq> f" for g using that by (simp add: s')
  have "inv E' s'"
  proof (rule inv_fired_step [OF inv same q'])
    fix i a tid g
    assume a: "live_trace s i a" "st_reporting (tstate s a)" "mget (ttrigs s a) tid = Some g"
      and r: "ft_state (h_fired s g) = Some reportingTrigger"
    then have "mget (E g) i = Some a" using invD(3) [OF inv a(1)] by (simp add: trace_ok_def)
    with z have "g \<noteq> f" by auto
    with r show "ft_state (h_fired s' g) = Some reportingTrigger" by (simp add: s')
  next
    fix tid g i a assume g: "live_fired s tid g" "mget (E g) i = Some a"
    with z have "g \<noteq> f" by auto
    with g E' show "live_fired s' tid g \<and> E' g = E g" by (simp add: live)
  qed (use E' hf in \<open>auto simp: live\<close>)
  with same_traces_held [OF same] show ?thesis by simp
qed

text \<open>A reported trigger, all of whose traces were emptied, becomes idle.\<close>

lemma inv_to_idle:
  assumes inv: "inv E s" and p: "live_queue s k p" and f: "mget (tq_fired (h_queues s p)) b = Some f"
    and r: "ft_state (h_fired s f) = Some reportingTrigger"
    and empty: "\<And>i a. mget (E f) i = Some a \<Longrightarrow> \<not> st_reporting (tstate s a)"
    and Q': "tq_id Q' = tq_id (h_queues s p)" "tq_fired Q' = tq_fired (h_queues s p)"
      "tq_idle Q' = snd (list_PushFront f (tq_idle (h_queues s p)))"
      "tq_buffer_count Q' = tq_buffer_count (h_queues s p)" "tq_trace_count Q' = tq_trace_count (h_queues s p)"
    and tree: "tree_invar (tq_reporting Q')"
      "\<And>x. x \<in># tree_mset (tq_reporting Q') \<longleftrightarrow> x \<in># tree_mset (tq_reporting (h_queues s p)) \<and> x \<noteq> b"
    and s': "s' = s\<lparr>h_fired := (h_fired s)(f := (h_fired s f)\<lparr>ft_state :=
        Some (idleTrigger (dm_now s) (fst (list_PushFront f (tq_idle (h_queues s p)))))\<rparr>),
      h_queues := (h_queues s)(p := Q')\<rparr>"
  shows "inv E s' \<and> held s' = held s"
proof -
  have q: "queues_ok E s" using invD(2) [OF inv] .
  have ok: "queue_ok (dm_now s) (h_fired s) (next_fired s) E k p (h_queues s p)" using queues_okD(2) [OF q p] .
  have ft: "ft_queue (h_fired s f) = p" using queue_okD(7) [OF ok f] .
  have same: "same_traces s s'" by (simp add: same_traces_def s')
  have "queue_ok (dm_now s) (h_fired s') (next_fired s') E k p Q'"
    using queue_ok_idle [OF ok f r refl Q' tree] by (simp add: s')
  then have q': "queues_ok E s'" by (intro queues_ok_one [OF q p]) (use ft in \<open>auto simp: s'\<close>)
  have live: "live_fired s' tid g \<longleftrightarrow> live_fired s tid g" for tid g
    by (rule live_fired_cong) (simp_all add: s' Q')
  have hf: "ft_buffer_count (h_fired s' g) = ft_buffer_count (h_fired s g)" for g by (simp add: s')
  have "inv E s'"
  proof (rule inv_fired_step [OF inv same q'])
    fix i a tid g
    assume a: "live_trace s i a" "st_reporting (tstate s a)" "mget (ttrigs s a) tid = Some g"
      and r: "ft_state (h_fired s g) = Some reportingTrigger"
    then have "mget (E g) i = Some a" using invD(3) [OF inv a(1)] by (simp add: trace_ok_def)
    with empty a(2) have "g \<noteq> f" by auto
    with r show "ft_state (h_fired s' g) = Some reportingTrigger" by (simp add: s')
  qed (auto simp: live hf)
  with same_traces_held [OF same] show ?thesis by simp
qed

text \<open>A new trigger.\<close>

lemma inv_new_fired:
  assumes inv: "inv E s" and p: "live_queue s k p" and new: "mget (tq_fired (h_queues s p)) b = None"
    and E': "E' (next_fired s) = []" "\<And>g. g \<noteq> next_fired s \<Longrightarrow> E' g = E g"
    and Q': "tq_id Q' = tq_id (h_queues s p)" "tq_fired Q' = mput b (next_fired s) (tq_fired (h_queues s p))"
      "tq_idle Q' = snd (list_PushFront (next_fired s) (tq_idle (h_queues s p)))"
      "tq_buffer_count Q' = tq_buffer_count (h_queues s p)" "tq_trace_count Q' = tq_trace_count (h_queues s p)"
      "tq_reporting Q' = tq_reporting (h_queues s p)"
    and s': "s' = s\<lparr>next_fired := Suc (next_fired s),
      h_fired := (h_fired s)(next_fired s := \<lparr>ft_id = \<lparr>queue_id = k, base_trace_id = b\<rparr>, ft_queue = p, ft_traces = [],
        ft_buffer_count = 0,
        ft_state = Some (idleTrigger (dm_now s) (fst (list_PushFront (next_fired s) (tq_idle (h_queues s p)))))\<rparr>),
      h_queues := (h_queues s)(p := Q')\<rparr>"
  shows "inv E' s' \<and> held s' = held s \<and> live_fired s' \<lparr>queue_id = k, base_trace_id = b\<rparr> (next_fired s)"
proof -
  have q: "queues_ok E s" using invD(2) [OF inv] .
  have ok: "queue_ok (dm_now s) (h_fired s) (next_fired s) E k p (h_queues s p)" using queues_okD(2) [OF q p] .
  have same: "same_traces s s'" by (simp add: same_traces_def s')
  have "queue_ok (dm_now s) (h_fired s') (next_fired s') E' k p Q'"
    using queue_ok_new [OF ok new refl E' Q'] by (simp add: s')
  then have q': "queues_ok E' s'" by (intro queues_ok_one [OF q p]) (use E' in \<open>auto simp: s'\<close>)
  have live: "live_fired s' tid g \<longleftrightarrow> live_fired s tid g \<or> (tid, g) = (\<lparr>queue_id = k, base_trace_id = b\<rparr>, next_fired s)"
    for tid g
  proof (cases "queue_id tid = k")
    case True
    then show ?thesis using p new
      by (cases tid) (auto simp: live_fired_def live_queue_def s' Q' mget_mput)
  next
    case False
    then have "r \<noteq> p" if "live_queue s (queue_id tid) r" for r using that p live_queue_inj [OF q] by blast
    with False show ?thesis by (auto simp: live_fired_def live_queue_def s')
  qed
  have old: "g \<noteq> next_fired s" if "live_fired s tid g" for tid g
    using that by (metis live_firedE [OF q] less_irrefl)
  have hf: "h_fired s' g = h_fired s g" if "g \<noteq> next_fired s" for g using that by (simp add: s')
  have hn: "ft_buffer_count (h_fired s' (next_fired s)) = 0" by (simp add: s')
  have "inv E' s'"
  proof (rule inv_fired_step [OF inv same q'])
    fix i a tid g
    assume a: "live_trace s i a" "mget (ttrigs s a) tid = Some g"
      and r: "ft_state (h_fired s g) = Some reportingTrigger"
    then have "live_fired s tid g" using invD(3) [OF inv a(1)] by (simp add: trace_ok_def)
    from hf [OF old [OF this]] r show "ft_state (h_fired s' g) = Some reportingTrigger" by simp
  next
    fix tid g assume "live_fired s' tid g"
    then show "live_fired s tid g \<and> E' g = E g \<and> ft_buffer_count (h_fired s' g) = ft_buffer_count (h_fired s g) \<or>
      E' g = [] \<and> ft_buffer_count (h_fired s' g) = 0"
      using old [of tid g] hf [of g] hn E' by (auto simp: live)
  next
    fix tid g i a assume "live_fired s tid g" "mget (E g) i = Some a"
    then show "live_fired s' tid g \<and> E' g = E g" using old E' by (auto simp: live)
  qed
  with same_traces_held [OF same] show ?thesis by (simp add: live)
qed

text \<open>A new queue.\<close>

lemma inv_new_queue:
  assumes inv: "inv E s" and new: "mget (td_queues (dm_triggered s)) k = None"
    and s': "s' = s\<lparr>next_queue := Suc (next_queue s),
      h_queues := (h_queues s)(next_queue s := \<lparr>tq_id = k, tq_trace_count = 0, tq_buffer_count = 0, tq_fired = [],
        tq_reporting = InitPartialPriorityTree, tq_idle = list_New, tq_metrics = zeroMetrics\<rparr>),
      dm_triggered := (dm_triggered s)\<lparr>td_queues := mput k (next_queue s) (td_queues (dm_triggered s))\<rparr>\<rparr>"
  shows "inv E s' \<and> held s' = held s \<and> live_queue s' k (next_queue s)"
proof -
  have q: "queues_ok E s" using invD(2) [OF inv] .
  have lq: "live_queue s' l r \<longleftrightarrow> live_queue s l r \<or> (l, r) = (k, next_queue s)" for l r
    using new by (auto simp: live_queue_def s' mget_mput)
  have old: "r \<noteq> next_queue s" if "live_queue s l r" for l r using queues_okD(1) [OF q that] by simp
  have nq: "h_queues s' (next_queue s) = \<lparr>tq_id = k, tq_trace_count = 0, tq_buffer_count = 0, tq_fired = [],
        tq_reporting = InitPartialPriorityTree, tq_idle = list_New, tq_metrics = zeroMetrics\<rparr>"
    by (simp add: s')
  have hq: "h_queues s' r = h_queues s r" if "r \<noteq> next_queue s" for r using that by (simp add: s')
  have "queue_ok (dm_now s) (h_fired s) (next_fired s) E k (next_queue s) (h_queues s' (next_queue s))"
    unfolding nq by (simp add: queue_ok_def tq.empty_ok)
  moreover have "queue_ok (dm_now s) (h_fired s) (next_fired s) E l r (h_queues s' r)" "r < next_queue s"
    if "live_queue s l r" for l r
    using queues_okD [OF q that] hq [OF old [OF that]] by simp_all
  ultimately have "r < next_queue s' \<and> queue_ok (dm_now s') (h_fired s') (next_fired s') E l r (h_queues s' r)"
    if "live_queue s' l r" for l r using that by (auto simp: lq) (auto simp: s' less_Suc_eq)
  moreover have "mok (td_queues (dm_triggered s'))" using q by (simp add: s' queues_ok_def)
  ultimately have q': "queues_ok E s'" by (simp add: queues_ok_def)
  have live: "live_fired s' tid g \<longleftrightarrow> live_fired s tid g" for tid g
    using old hq by (auto simp: live_fired_def lq nq)
  have same: "same_traces s s'" by (simp add: same_traces_def s')
  have "inv E s'" by (rule inv_fired_step [OF inv same q']) (auto simp: live, simp_all add: s')
  with same_traces_held [OF same] show ?thesis by (simp add: lq)
qed

end
