(* ===== verification/Fired_Trigger.thy ===== *)
theory Fired_Trigger
  imports Fired_Lemmas
begin

text \<open>
  The fired-trigger state machine of \<^verbatim>\<open>firedtrigger.go\<close>.  The notifications
  \<^verbatim>\<open>buffersAdded\<close> and \<^verbatim>\<open>buffersRemoved\<close> are in \<open>Trace_Machine\<close>, since traces call them.
\<close>

section \<open>Idle triggers\<close>

definition initIdleTrigger :: "qaddr \<Rightarrow> u64 \<Rightarrow> dms \<Rightarrow> faddr \<times> dms" where
  "initIdleTrigger q base s =
     (let f = next_fired s;
          (elem, idle') = list_PushFront f (tq_idle (h_queues s q));
          s1 = s\<lparr>next_fired := Suc f\<rparr>;
          s2 = upd_fired f (\<lambda>_. \<lparr>ft_id = \<lparr>queue_id = tq_id (h_queues s q), base_trace_id = base\<rparr>,
                 ft_queue = q, ft_traces = [], ft_buffer_count = 0,
                 ft_state = Some (idleTrigger (dm_now s) elem)\<rparr>) s1;
          s3 = upd_queue q (\<lambda>tq. tq\<lparr>tq_idle := idle', tq_fired := mput base f (tq_fired tq)\<rparr>) s2
      in (f, upd_metrics q (\<lambda>m. m\<lparr>tm_count := tm_count m + 1\<rparr>) s3))"

definition idle_getBuffersForReport :: "(firedtriggerstate \<times> buffer list \<times> dms) result" where
  "idle_getBuffersForReport = Inl (Fatal ''Attempted to takeBuffers for idleTrigger'')"

definition idle_evictTrigger :: "(buffer list \<times> dms) result" where
  "idle_evictTrigger = Inl (Fatal ''idleTrigger cannot be evicted'')"

text \<open>The loops over \<^verbatim>\<open>f.traces\<close>: \<^verbatim>\<open>RemoveTrigger\<close> and \<^verbatim>\<open>TakeBuffers\<close> on each trace, collecting
  the buffers they return.\<close>

definition unhook_traces :: "faddr \<Rightarrow> dms \<Rightarrow> (buffer list \<times> dms) result" where
  "unhook_traces f s =
     rfold (\<lambda>(_, t) (bufs, s). rbind (Trace_RemoveTrigger t f s) (\<lambda>(b, s'). Inr (bufs @ b, s')))
       (ft_traces (h_fired s f)) ([], s)"

definition take_traces :: "faddr \<Rightarrow> dms \<Rightarrow> (buffer list \<times> dms) result" where
  "take_traces f s =
     rfold (\<lambda>(_, t) (bufs, s). rbind (Trace_TakeBuffers t s) (\<lambda>(b, s'). Inr (bufs @ b, s')))
       (ft_traces (h_fired s f)) ([], s)"

definition idle_checkTimeout ::
    "faddr \<Rightarrow> time \<Rightarrow> nat \<Rightarrow> time \<Rightarrow> dms \<Rightarrow> (firedtriggerstate option \<times> bool \<times> dms) result" where
  "idle_checkTimeout f lm elem before s =
     (if lm > before then Inr (Some (idleTrigger lm elem), False, s)
      else
        rbind (unhook_traces f s) (\<lambda>(_, s1).
          Inr (None, True,
            upd_queue (ft_queue (h_fired s1 f))
              (\<lambda>tq. tq\<lparr>tq_idle := list_Remove elem (tq_idle tq),
                       tq_fired := mdel (base_trace_id (ft_id (h_fired s1 f))) (tq_fired tq)\<rparr>) s1)))"

section \<open>Reporting triggers\<close>

definition reporting_getBuffersForReport ::
    "faddr \<Rightarrow> dms \<Rightarrow> (firedtriggerstate \<times> buffer list \<times> dms) result" where
  "reporting_getBuffersForReport f s =
     rbind (take_traces f s) (\<lambda>(buffers, s1).
       if ft_buffer_count (h_fired s1 f) \<noteq> 0
       then Inl (Fatal ''Buffers remain after takeBuffers'')
       else
         (let q = ft_queue (h_fired s1 f);
              (elem, idle') = list_PushFront f (tq_idle (h_queues s1 q))
          in Inr (idleTrigger (dm_now s1) elem, buffers,
                  upd_queue q (\<lambda>tq. tq\<lparr>tq_idle := idle'\<rparr>) s1)))"

definition reporting_evictTrigger :: "faddr \<Rightarrow> dms \<Rightarrow> (buffer list \<times> dms) result" where
  "reporting_evictTrigger f s =
     rbind (unhook_traces f s) (\<lambda>(buffers, s1).
       if ft_buffer_count (h_fired s1 f) \<noteq> 0
       then Inl (Fatal ''Buffers remain after eviction'')
       else
         Inr (buffers,
           upd_queue (ft_queue (h_fired s1 f))
             (\<lambda>tq. tq\<lparr>tq_fired := mdel (base_trace_id (ft_id (h_fired s1 f))) (tq_fired tq)\<rparr>) s1))"

definition reporting_checkTimeout ::
    "dms \<Rightarrow> (firedtriggerstate option \<times> bool \<times> dms) result" where
  "reporting_checkTimeout s = Inr (Some reportingTrigger, False, s)"

section \<open>The methods of FiredTrigger\<close>

definition set_ft_state :: "faddr \<Rightarrow> firedtriggerstate option \<Rightarrow> dms \<Rightarrow> dms" where
  "set_ft_state f st = upd_fired f (\<lambda>ft. ft\<lparr>ft_state := st\<rparr>)"

definition FT_AddTrace :: "faddr \<Rightarrow> taddr \<Rightarrow> dms \<Rightarrow> (string list \<times> dms) result" where
  "FT_AddTrace f t s =
     Trace_AddTrigger t f
       (upd_fired f (\<lambda>ft. ft\<lparr>ft_traces := mput (tr_id (h_traces s t)) t (ft_traces ft)\<rparr>) s)"

definition FT_GetBuffersForReport :: "faddr \<Rightarrow> dms \<Rightarrow> (buffer list \<times> dms) result" where
  "FT_GetBuffersForReport f s =
     (case ft_state (h_fired s f) of
        None \<Rightarrow> Inl NilDeref
      | Some st0 \<Rightarrow>
          rbind (case st0 of
                   idleTrigger lm elem \<Rightarrow> idle_getBuffersForReport
                 | reportingTrigger \<Rightarrow> reporting_getBuffersForReport f s)
            (\<lambda>(st, buffers, s'). Inr (buffers, set_ft_state f (Some st) s')))"

definition FT_Evict :: "faddr \<Rightarrow> dms \<Rightarrow> (buffer list \<times> dms) result" where
  "FT_Evict f s =
     (case ft_state (h_fired s f) of
        None \<Rightarrow> Inl NilDeref
      | Some st0 \<Rightarrow>
          rbind (case st0 of
                   idleTrigger lm elem \<Rightarrow> idle_evictTrigger
                 | reportingTrigger \<Rightarrow> reporting_evictTrigger f s)
            (\<lambda>(buffers, s'). Inr (buffers, set_ft_state f None s')))"

definition FT_CheckTimeout :: "faddr \<Rightarrow> time \<Rightarrow> dms \<Rightarrow> (bool \<times> dms) result" where
  "FT_CheckTimeout f before s =
     (case ft_state (h_fired s f) of
        None \<Rightarrow> Inl NilDeref
      | Some st0 \<Rightarrow>
          rbind (case st0 of
                   idleTrigger lm elem \<Rightarrow> idle_checkTimeout f lm elem before s
                 | reportingTrigger \<Rightarrow> reporting_checkTimeout s)
            (\<lambda>(st, timedout, s'). Inr (timedout, set_ft_state f st s')))"

section \<open>Attaching a trace\<close>

lemma dm_invI: "inv E s \<Longrightarrow> (\<And>f. ft_traces (h_fired s f) = E f) \<Longrightarrow> dm_inv s"
  by (simp add: dm_inv_def)

lemma FT_AddTrace_ok [ok_rules]:
  assumes inv: "dm_inv s" and a: "live_trace s i a" and f: "live_fired s tid f"
  shows "ok (FT_AddTrace f a s) (\<lambda>(r, s'). dm_inv s' \<and> held s' = held s \<and> dm_traces s' = dm_traces s \<and>
    dm_now s' = dm_now s \<and> (\<forall>k q. live_queue s' k q \<longleftrightarrow> live_queue s k q) \<and>
    (\<forall>tid g. live_fired s' tid g \<longleftrightarrow> live_fired s tid g) \<and>
    ft_traces (h_fired s' f) = mput i a (ft_traces (h_fired s f)) \<and>
    (\<forall>g. g \<noteq> f \<longrightarrow> ft_traces (h_fired s' g) = ft_traces (h_fired s g)) \<and>
    (\<forall>c. c \<noteq> a \<longrightarrow> h_traces s' c = h_traces s c) \<and>
    r = st_breadcrumbs (tstate s a))"
proof -
  let ?E = "\<lambda>f. ft_traces (h_fired s f)"
  let ?s1 = "s\<lparr>h_fired := (h_fired s)(f := (h_fired s f)\<lparr>ft_traces := mput i a (?E f)\<rparr>)\<rparr>"
  have e: "inv ?E s" using inv by (simp add: dm_inv_def)
  have i: "tr_id (h_traces s a) = i" using invD(3) [OF e a] by (simp add: trace_ok_def)
  have e1: "inv ?E ?s1" by (rule inv_fired_cong [OF e]) simp
  have "live_trace ?s1 i a" "live_fired ?s1 tid f" using a f by (simp_all add: live_trace_def live_fired_def live_queue_def)
  note T = Trace_AddTrigger_ok [OF e1 this]
  have "ok (Trace_AddTrigger a f ?s1) (\<lambda>(r, s'). dm_inv s' \<and> held s' = held s \<and> dm_traces s' = dm_traces s \<and>
    dm_now s' = dm_now s \<and> (\<forall>k q. live_queue s' k q \<longleftrightarrow> live_queue s k q) \<and>
    (\<forall>tid g. live_fired s' tid g \<longleftrightarrow> live_fired s tid g) \<and>
    ft_traces (h_fired s' f) = mput i a (ft_traces (h_fired s f)) \<and>
    (\<forall>g. g \<noteq> f \<longrightarrow> ft_traces (h_fired s' g) = ft_traces (h_fired s g)) \<and>
    (\<forall>c. c \<noteq> a \<longrightarrow> h_traces s' c = h_traces s c) \<and>
    r = st_breadcrumbs (tstate s a))"
  proof (rule ok_mono [OF T], clarify, goal_cases)
    case (1 r s')
    have ft: "ft_traces (h_fired s' g) = (?E(f := mput i a (?E f))) g" for g
      using \<open>frame ?s1 s'\<close> by (simp add: frame_def)
    have "dm_inv s'" by (rule dm_invI [OF 1(1) ft])
    moreover have "held s' = held s" using 1(2) by (simp add: held_def)
    moreover have "live_fired s' tid g \<longleftrightarrow> live_fired s tid g" "live_queue s' k q \<longleftrightarrow> live_queue s k q" for tid g k q
      using frame_live_fired [OF 1(3)] frame_live_queue [OF 1(3)] by (simp_all add: live_fired_def live_queue_def)
    ultimately show ?case using 1(3-5) ft by (simp add: frame_def)
  qed
  then show ?thesis by (simp add: FT_AddTrace_def upd_fired_def i)
qed

section \<open>The loops over the traces of a trigger\<close>

lemma live_fired_elems:
  assumes "inv E s" "live_fired s tid f" "(i, a) \<in> set (E f)"
  shows "mget (E f) i = Some a" "live_trace s i a" "st_elem (tstate s a) = None"
proof -
  show g: "mget (E f) i = Some a" and l: "live_trace s i a"
    using invD(4) [OF assms(1,2)] assms(3) by (auto simp: fired_ok_def mget_set)
  have "mget (ttrigs s a) tid = Some f" using invD(3) [OF assms(1) l] g assms(2) by (simp add: trace_ok_def)
  then show "st_elem (tstate s a) = None" by (cases "tstate s a" rule: st_elem.cases) auto
qed

lemma unhook_traces_ok [ok_rules]:
  assumes inv: "dm_inv s" and f: "live_fired s tid f"
  shows "ok (unhook_traces f s) (\<lambda>(b, s'). inv ((\<lambda>f. ft_traces (h_fired s f))(f := [])) s' \<and>
    held s = mset b + held s' \<and> still s s' \<and> (ft_state (h_fired s f) \<noteq> Some reportingTrigger \<longrightarrow> b = []))"
proof -
  let ?E = "\<lambda>f. ft_traces (h_fired s f)" and ?xs = "ft_traces (h_fired s f)"
  define I where "I = (\<lambda>(ys :: (u64, taddr) gomap) (b, s'). inv (?E(f := drop (length ys) ?xs)) s' \<and> held s = mset b + held s' \<and>
    still s s' \<and> (ft_state (h_fired s f) \<noteq> Some reportingTrigger \<longrightarrow> b = []))"
  have e: "inv ?E s" using inv by (simp add: dm_inv_def)
  have dist: "mok ?xs" using invD(4) [OF e f] by (simp add: fired_ok_def)
  have "ok (unhook_traces f s) (I ?xs)"
    unfolding unhook_traces_def
  proof (rule ok_rfold)
    have "?E(f := ?xs) = ?E" by (rule ext) simp
    then show "I [] ([], s)" using e by (simp add: I_def)
  next
    fix ys x zs st assume xs: "?xs = ys @ x # zs" and I: "I ys st"
    obtain i a where x: "x = (i, a)" by (cases x)
    obtain b s1 where st: "st = (b, s1)" by (cases st)
    let ?E1 = "?E(f := (i, a) # zs)"
    have e1: "inv ?E1 s1" and h: "held s = mset b + held s1" and sl: "still s s1"
      and bz: "ft_state (h_fired s f) \<noteq> Some reportingTrigger \<longrightarrow> b = []"
      using I by (simp_all add: I_def st xs x)
    have f1: "live_fired s1 tid f" using frame_live_fired [OF still_frame [OF sl]] f by blast
    have links: "mget (?E1 f) i = Some a" "live_trace s1 i a" "st_elem (tstate s1 a) = None"
      using live_fired_elems [OF e1 f1, of i a] by simp_all
    have "mdel i ((i, a) # zs) = zs"
      using dist by (simp add: xs x mok_def delete_id)
    then have del: "?E1(f := mdel i (?E1 f)) = ?E(f := zs)" by auto
    have nobuf: "tbufs s1 a = []" if "ft_state (h_fired s f) \<noteq> Some reportingTrigger"
    proof -
      have "mget (ttrigs s1 a) tid = Some f"
        using invD(3) [OF e1 links(2)] links(1) f1 by (simp add: trace_ok_def)
      then have "\<not> st_reporting (tstate s1 a)"
        using invD(3) [OF e1 links(2)] that sl by (auto simp: trace_ok_def still_def)
      with links(3) show ?thesis by (cases "tstate s1 a" rule: st_buffers.cases) auto
    qed
    show "ok ((\<lambda>(_, t) (bufs, s). rbind (Trace_RemoveTrigger t f s) (\<lambda>(b, s'). Inr (bufs @ b, s'))) x st) (I (ys @ [x]))"
      unfolding x st prod.case
    proof (rule ok_bind [OF Trace_RemoveTrigger_ok [OF e1 links(2) f1 links(1)]], clarify, goal_cases)
      case (1 b2 s2)
      have "inv (?E(f := zs)) s2" using 1(1) unfolding del .
      moreover have "drop (length (ys @ [(i, a)])) ?xs = zs" by (simp add: xs)
      ultimately show ?case using 1(2) h bz nobuf still_trans [OF sl 1(3)]
        by (auto simp: I_def ac_simps)
    qed
  qed
  then show ?thesis by (simp add: I_def case_prod_beta')
qed

text \<open>The buffers of all traces of a fired trigger.\<close>

definition fired_buffers :: "dms \<Rightarrow> faddr \<Rightarrow> buffer list" where
  "fired_buffers s f = concat (map (\<lambda>(i, a). tbufs s a) (ft_traces (h_fired s f)))"

lemma take_traces_ok [ok_rules]:
  assumes inv: "dm_inv s" and f: "live_fired s tid f"
  shows "ok (take_traces f s) (\<lambda>(b, s'). dm_inv s' \<and> held s = mset b + held s' \<and> still s s' \<and>
    dm_traces s' = dm_traces s \<and> b = fired_buffers s f \<and>
    (\<forall>i a. mget (ft_traces (h_fired s f)) i = Some a \<longrightarrow> \<not> st_reporting (tstate s' a)))"
proof -
  let ?E = "\<lambda>f. ft_traces (h_fired s f)" and ?xs = "ft_traces (h_fired s f)"
  define I where "I = (\<lambda>(ys :: (u64, taddr) gomap) (b, s'). inv ?E s' \<and> held s = mset b + held s' \<and>
    still s s' \<and> dm_traces s' = dm_traces s \<and> (\<forall>(i, a) \<in> set ys. \<not> st_reporting (tstate s' a)) \<and>
    b = concat (map (\<lambda>(i, a). tbufs s a) ys) \<and> (\<forall>c. c \<notin> snd ` set ys \<longrightarrow> h_traces s' c = h_traces s c))"
  have e: "inv ?E s" using inv by (simp add: dm_inv_def)
  have m: "mok ?xs" using invD(4) [OF e f] by (simp add: fired_ok_def)
  have "ok (take_traces f s) (I ?xs)"
    unfolding take_traces_def
  proof (rule ok_rfold)
    show "I [] ([], s)" using e by (simp add: I_def)
  next
    fix ys x zs st assume xs: "?xs = ys @ x # zs" and I: "I ys st"
    obtain i a where x: "x = (i, a)" by (cases x)
    obtain b s1 where st: "st = (b, s1)" by (cases st)
    have e1: "inv ?E s1" and h: "held s = mset b + held s1" and sl: "still s s1" and tr: "dm_traces s1 = dm_traces s"
      and dn: "\<forall>(i, a) \<in> set ys. \<not> st_reporting (tstate s1 a)"
      and b: "b = concat (map (\<lambda>(i, a). tbufs s a) ys)" and rest: "\<forall>c. c \<notin> snd ` set ys \<longrightarrow> h_traces s1 c = h_traces s c"
      using I by (simp_all add: I_def st)
    have f1: "live_fired s1 tid f" using frame_live_fired [OF still_frame [OF sl]] f by blast
    have links: "live_trace s1 i a" "st_elem (tstate s1 a) = None"
      using live_fired_elems [OF e1 f1, of i a] by (simp_all add: xs x)
    have new: "a \<notin> snd ` set ys"
    proof
      assume "a \<in> snd ` set ys"
      then obtain j where j: "(j, a) \<in> set ys" by force
      have "live_trace s j a" "live_trace s i a" using live_fired_elems(2) [OF e f] j by (simp_all add: xs x)
      then have "j = i" using invD(3) [OF e] by (metis trace_ok_def)
      with j m show False by (force simp: xs x mok_def)
    qed
    show "ok ((\<lambda>(_, t) (bufs, s). rbind (Trace_TakeBuffers t s) (\<lambda>(b, s'). Inr (bufs @ b, s'))) x st) (I (ys @ [x]))"
      unfolding x st prod.case
    proof (rule ok_bind [OF Trace_TakeBuffers_ok [OF e1 links]], clarify, goal_cases)
      case (1 b2 s2)
      then show ?case using h dn tr b rest new still_trans [OF sl 1(3)] by (auto simp: I_def ac_simps)
    qed
  qed
  then show ?thesis
  proof (rule ok_mono, clarify)
    fix b s' assume I: "I ?xs (b, s')"
    then have "dm_inv s'" using frame_links [of s s'] by (simp add: I_def dm_inv_def still_def)
    with I m show "dm_inv s' \<and> held s = mset b + held s' \<and> still s s' \<and>
      dm_traces s' = dm_traces s \<and> b = fired_buffers s f \<and>
      (\<forall>i a. mget ?xs i = Some a \<longrightarrow> \<not> st_reporting (tstate s' a))"
      by (fastforce simp: I_def mget_set fired_buffers_def)
  qed
qed

section \<open>Popping a trigger commutes with the loops\<close>

text \<open>The queue takes the id of a trigger out of its tree before it asks the trigger for its
  buffers; none of the loops looks at the tree.\<close>

definition set_reporting :: "qaddr \<Rightarrow> TreeNode \<Rightarrow> dms \<Rightarrow> dms" where
  "set_reporting q n = upd_queue q (\<lambda>tq. tq\<lparr>tq_reporting := n\<rparr>)"

lemma set_reporting_simps [simp]:
  "h_traces (set_reporting q n s) = h_traces s" "h_fired (set_reporting q n s) = h_fired s"
  "dm_traces (set_reporting q n s) = dm_traces s" "dm_now (set_reporting q n s) = dm_now s"
  "dm_untriggered (set_reporting q n s) = dm_untriggered s" "dm_triggered (set_reporting q n s) = dm_triggered s"
  "dm_trace_count (set_reporting q n s) = dm_trace_count s" "dm_buffer_count (set_reporting q n s) = dm_buffer_count s"
  "next_trace (set_reporting q n s) = next_trace s" "next_fired (set_reporting q n s) = next_fired s"
  "next_queue (set_reporting q n s) = next_queue s"
  "tq_fired (h_queues (set_reporting q n s) r) = tq_fired (h_queues s r)"
  "tq_idle (h_queues (set_reporting q n s) r) = tq_idle (h_queues s r)"
  "tq_id (h_queues (set_reporting q n s) r) = tq_id (h_queues s r)"
  by (simp_all add: set_reporting_def upd_defs)

definition popped_result :: "qaddr \<Rightarrow> TreeNode \<Rightarrow> (buffer list \<times> dms) result \<Rightarrow> (buffer list \<times> dms) result" where
  "popped_result q n r = rbind r (\<lambda>(b, s'). Inr (b, set_reporting q n s'))"

lemma upd_queue_pop:
  assumes "\<And>tq. g (tq\<lparr>tq_reporting := n\<rparr>) = (g tq)\<lparr>tq_reporting := n\<rparr>"
  shows "upd_queue r g (set_reporting q n s) = set_reporting q n (upd_queue r g s)"
  using assms by (cases "q = r") (simp_all add: set_reporting_def upd_queue_def fun_upd_twist)

lemma tq_upd_comm:
  "tq_buffer_count_update g (tq\<lparr>tq_reporting := n\<rparr>) = (tq_buffer_count_update g tq)\<lparr>tq_reporting := n\<rparr>"
  "tq_trace_count_update g (tq\<lparr>tq_reporting := n\<rparr>) = (tq_trace_count_update g tq)\<lparr>tq_reporting := n\<rparr>"
  by (cases tq; simp)+

lemma upd_fired_pop: "upd_fired f g (set_reporting q n s) = set_reporting q n (upd_fired f g s)"
  by (simp add: set_reporting_def upd_defs)

lemma FT_buffersRemoved_pop:
  "FT_buffersRemoved f c (set_reporting q n s) = set_reporting q n (FT_buffersRemoved f c s)"
  by (simp add: FT_buffersRemoved_def Let_def upd_fired_pop upd_queue_pop tq_upd_comm)

lemma buffersRemoved_fold_pop:
  "fold (\<lambda>(_, f). FT_buffersRemoved f c) trs (set_reporting q n s) =
     set_reporting q n (fold (\<lambda>(_, f). FT_buffersRemoved f c) trs s)"
  by (induction trs arbitrary: s) (auto simp: FT_buffersRemoved_pop)

lemma set_reporting_comm:
  "set_state a st (set_reporting q n s) = set_reporting q n (set_state a st s)"
  "dm_triggered_update g (set_reporting q n s) = set_reporting q n (dm_triggered_update g s)"
  "dm_untriggered_update h (set_reporting q n s) = set_reporting q n (dm_untriggered_update h s)"
  "dm_buffer_count_update k (set_reporting q n s) = set_reporting q n (dm_buffer_count_update k s)"
  "dm_trace_count_update k (set_reporting q n s) = set_reporting q n (dm_trace_count_update k s)"
  "dm_traces_update m (set_reporting q n s) = set_reporting q n (dm_traces_update m s)"
  "upd_queue r (\<lambda>tq. tq\<lparr>tq_trace_count := tq_trace_count tq - 1\<rparr>) (set_reporting q n s) =
     set_reporting q n (upd_queue r (\<lambda>tq. tq\<lparr>tq_trace_count := tq_trace_count tq - 1\<rparr>) s)"
  "upd_triggered d (set_reporting q n s) = set_reporting q n (upd_triggered d s)"
  "upd_untriggered u (set_reporting q n s) = set_reporting q n (upd_untriggered u s)"
  by (simp_all add: upd_queue_pop tq_upd_comm) (simp_all add: set_reporting_def set_state_def upd_defs)

lemma Trace_TakeBuffers_pop:
  "Trace_TakeBuffers a (set_reporting q n s) = popped_result q n (Trace_TakeBuffers a s)"
  by (simp add: Trace_TakeBuffers_def popped_result_def untriggered_takeBuffers_def triggered_takeBuffers_def
      reporting_takeBuffers_def set_reporting_comm buffersRemoved_fold_pop Let_def
      split: option.split tracestate.split)

lemma Trace_RemoveTrigger_pop:
  "Trace_RemoveTrigger a f (set_reporting q n s) = popped_result q n (Trace_RemoveTrigger a f s)"
  by (simp add: Trace_RemoveTrigger_def popped_result_def untriggered_removeTrigger_def
      triggered_removeTrigger_def reporting_removeTrigger_def set_reporting_comm FT_buffersRemoved_pop Let_def
      split: option.split tracestate.split)

lemma loop_pop:
  assumes "\<And>t s. op t (set_reporting q n s) = popped_result q n (op t s)"
  shows "rfold (\<lambda>(_, t) (bufs, s). rbind (op t s) (\<lambda>(b, s'). Inr (bufs @ b, s'))) ts (bufs, set_reporting q n s) =
    popped_result q n (rfold (\<lambda>(_, t) (bufs, s). rbind (op t s) (\<lambda>(b, s'). Inr (bufs @ b, s'))) ts (bufs, s))"
proof (induction ts arbitrary: bufs s)
  case Nil
  then show ?case by (simp add: popped_result_def)
next
  case (Cons p ts)
  then show ?case
    by (cases p; cases "op (snd p) s") (auto simp: assms popped_result_def split: prod.split)
qed

lemma unhook_traces_pop: "unhook_traces f (set_reporting q n s) = popped_result q n (unhook_traces f s)"
  using loop_pop [of "\<lambda>t. Trace_RemoveTrigger t f", OF Trace_RemoveTrigger_pop] by (simp add: unhook_traces_def)

lemma take_traces_pop: "take_traces f (set_reporting q n s) = popped_result q n (take_traces f s)"
  using loop_pop [of Trace_TakeBuffers, OF Trace_TakeBuffers_pop] by (simp add: take_traces_def)

section \<open>Eviction, reporting and timeout of a trigger\<close>

text \<open>The id of a reporting trigger was taken out of the tree of its queue.\<close>

definition popped_id :: "dms \<Rightarrow> qaddr \<Rightarrow> u64 \<Rightarrow> TreeNode \<Rightarrow> bool" where
  "popped_id s q b n \<longleftrightarrow> tree_invar n \<and> tree_mset (tq_reporting (h_queues s q)) = add_mset b (tree_mset n)"

lemma popped_id_mem:
  assumes "queue_ok now H nf E k q (h_queues s q)" "popped_id s q b n"
  shows "x \<in># tree_mset n \<longleftrightarrow> x \<in># tree_mset (tq_reporting (h_queues s q)) \<and> x \<noteq> b"
proof -
  have "tree_invar (tq_reporting (h_queues s q))" using queue_okD(4) [OF assms(1)] .
  then have "count (add_mset b (tree_mset n)) b \<le> 1" using assms(2) unfolding tree_invar_def popped_id_def by metis
  then have "b \<notin># tree_mset n" by (simp add: not_in_iff)
  then show ?thesis using assms(2) by (auto simp: popped_id_def)
qed

lemma popped_fired:
  assumes inv: "dm_inv s" and q: "live_queue s k q" and b: "popped_id s q b n"
  obtains f where "mget (tq_fired (h_queues s q)) b = Some f" "ft_state (h_fired s f) = Some reportingTrigger"
    "live_fired s \<lparr>queue_id = k, base_trace_id = b\<rparr> f" "ft_queue (h_fired s f) = q"
    "ft_id (h_fired s f) = \<lparr>queue_id = k, base_trace_id = b\<rparr>"
proof -
  have ok: "queue_ok (dm_now s) (h_fired s) (next_fired s) (\<lambda>f. ft_traces (h_fired s f)) k q (h_queues s q)"
    using inv q by (metis dm_inv_def invD(2) queues_okD(2))
  have "b \<in># tree_mset (tq_reporting (h_queues s q))" using b by (simp add: popped_id_def)
  then obtain f where "mget (tq_fired (h_queues s q)) b = Some f" "ft_state (h_fired s f) = Some reportingTrigger"
    using queue_okD(10) [OF ok] by blast
  with that live_firedI [OF q] queue_okD(6,7) [OF ok] show ?thesis by blast
qed

text \<open>What stays the same when a trigger of the queue at \<open>q\<close> ends or is reported.\<close>

definition quiet :: "qaddr \<Rightarrow> dms \<Rightarrow> dms \<Rightarrow> bool" where
  "quiet q s s' \<longleftrightarrow> dm_now s' = dm_now s \<and> td_queues (dm_triggered s') = td_queues (dm_triggered s) \<and>
     next_fired s' = next_fired s \<and> next_queue s' = next_queue s \<and>
     (\<forall>r. r \<noteq> q \<longrightarrow> same_queue (h_queues s r) (h_queues s' r))"

lemma quiet_refl [simp]: "quiet q s s"
  by (simp add: quiet_def)

lemma quiet_trans: "quiet q s s' \<Longrightarrow> quiet q s' s'' \<Longrightarrow> quiet q s s''"
  unfolding quiet_def by (metis same_queue_trans)

lemma quiet_live_queue: "quiet q s s' \<Longrightarrow> live_queue s' k r \<longleftrightarrow> live_queue s k r"
  by (simp add: quiet_def live_queue_def)

lemma FT_Evict_ok [ok_rules]:
  assumes inv: "dm_inv s" and q: "live_queue s k q" and b: "popped_id s q b n"
    and f: "mget (tq_fired (h_queues s q)) b = Some f"
  shows "ok (FT_Evict f (set_reporting q n s)) (\<lambda>(bufs, s'). dm_inv s' \<and> held s = mset bufs + held s' \<and> quiet q s s' \<and>
    tq_reporting (h_queues s' q) = n \<and> tq_fired (h_queues s' q) = mdel b (tq_fired (h_queues s q)))"
proof -
  let ?E = "(\<lambda>f. ft_traces (h_fired s f))(f := [])"
  from popped_fired [OF inv q b] f
  have r: "ft_state (h_fired s f) = Some reportingTrigger" and lf: "live_fired s \<lparr>queue_id = k, base_trace_id = b\<rparr> f"
    and fq: "ft_queue (h_fired s f) = q" and fid: "ft_id (h_fired s f) = \<lparr>queue_id = k, base_trace_id = b\<rparr>"
    by (metis option.inject)+
  from unhook_traces_ok [OF inv lf] obtain bufs s1 where u: "unhook_traces f s = Inr (bufs, s1)"
    "inv ?E s1" "held s = mset bufs + held s1" "still s s1"
    by (auto simp: ok_iff)
  have sq: "same_queue (h_queues s p) (h_queues s1 p)" for p using u(4) by (simp add: still_def)
  have same: "ft_queue (h_fired s1 f) = q" "ft_id (h_fired s1 f) = \<lparr>queue_id = k, base_trace_id = b\<rparr>"
    "ft_state (h_fired s1 f) = Some reportingTrigger" "tq_fired (h_queues s1 q) = tq_fired (h_queues s q)"
    "tq_reporting (h_queues s1 q) = tq_reporting (h_queues s q)" "dm_now s1 = dm_now s"
    using u(4) fq fid r by (auto simp: still_def frame_def same_queue_def)
  have q1: "live_queue s1 k q" using frame_live_queue [OF still_frame [OF u(4)]] q by blast
  have lf1: "live_fired s1 \<lparr>queue_id = k, base_trace_id = b\<rparr> f"
    using frame_live_fired [OF still_frame [OF u(4)]] lf by blast
  have zero: "ft_buffer_count (h_fired s1 f) = 0" using invD(4) [OF u(2) lf1] by (simp add: fired_ok_def)
  define Q' where "Q' = (h_queues s1 q)\<lparr>tq_reporting := n, tq_fired := mdel b (tq_fired (h_queues s1 q))\<rparr>"
  define s' where "s' = s1\<lparr>h_fired := (h_fired s1)(f := (h_fired s1 f)\<lparr>ft_state := None\<rparr>), h_queues := (h_queues s1)(q := Q')\<rparr>"
  have "FT_Evict f (set_reporting q n s) = Inr (bufs, s')"
    by (simp add: FT_Evict_def r reporting_evictTrigger_def unhook_traces_pop u(1) popped_result_def zero same)
      (simp add: set_ft_state_def Q'_def s'_def set_reporting_def upd_defs same)
  moreover have "inv (\<lambda>f. ft_traces (h_fired s' f)) s' \<and> held s' = held s1"
  proof (rule inv_drop_fired [OF u(2) q1 _ _ _ _ _ _ _ _ _ _ s'_def])
    show "mget (tq_fired (h_queues s1 q)) b = Some f" using f same(4) by simp
    show "x \<in># tree_mset (tq_reporting Q') \<longleftrightarrow> x \<in># tree_mset (tq_reporting (h_queues s1 q)) \<and> x \<noteq> b" for x
      using popped_id_mem [OF _ b] queues_okD(2) [OF invD(2) q] inv by (simp add: Q'_def same(5) dm_inv_def) blast
    show "tree_invar (tq_reporting Q')" using b by (simp add: Q'_def popped_id_def)
    show "ft_traces (h_fired s' g) = ?E g" if "g \<noteq> f" for g
      using that u(4) by (simp add: s'_def still_def frame_def)
  qed (simp_all add: Q'_def same(3))
  moreover have "quiet q s s'" using u(4) sq by (simp add: quiet_def s'_def still_def frame_def)
  moreover have "tq_reporting (h_queues s' q) = n" "tq_fired (h_queues s' q) = mdel b (tq_fired (h_queues s q))"
    by (simp_all add: s'_def Q'_def same)
  ultimately show ?thesis using u(3) by (simp add: dm_inv_def)
qed

lemma FT_GetBuffersForReport_ok [ok_rules]:
  assumes inv: "dm_inv s" and q: "live_queue s k q" and b: "popped_id s q b n"
    and f: "mget (tq_fired (h_queues s q)) b = Some f"
  shows "ok (FT_GetBuffersForReport f (set_reporting q n s)) (\<lambda>(bufs, s'). dm_inv s' \<and> held s = mset bufs + held s' \<and>
    quiet q s s' \<and> tq_reporting (h_queues s' q) = n \<and> tq_fired (h_queues s' q) = tq_fired (h_queues s q) \<and>
    ft_stamp (ft_state (h_fired s' f)) = dm_now s \<and> ft_elem (ft_state (h_fired s' f)) \<noteq> None \<and>
    bufs = fired_buffers s f \<and> fired_buffers s' f = [] \<and> ft_traces (h_fired s' f) = ft_traces (h_fired s f))"
proof -
  let ?E = "\<lambda>f. ft_traces (h_fired s f)"
  from popped_fired [OF inv q b] f
  have r: "ft_state (h_fired s f) = Some reportingTrigger" and lf: "live_fired s \<lparr>queue_id = k, base_trace_id = b\<rparr> f"
    and fq: "ft_queue (h_fired s f) = q"
    by (metis option.inject)+
  from take_traces_ok [OF inv lf] obtain bufs s1 where u: "take_traces f s = Inr (bufs, s1)"
    "dm_inv s1" "held s = mset bufs + held s1" "still s s1"
    "\<And>i a. mget (ft_traces (h_fired s f)) i = Some a \<Longrightarrow> \<not> st_reporting (tstate s1 a)"
    "bufs = fired_buffers s f"
    by (auto simp: ok_iff)
  have sq: "same_queue (h_queues s p) (h_queues s1 p)" for p using u(4) by (simp add: still_def)
  have same: "ft_queue (h_fired s1 f) = q" "ft_state (h_fired s1 f) = Some reportingTrigger"
    "tq_fired (h_queues s1 q) = tq_fired (h_queues s q)" "tq_reporting (h_queues s1 q) = tq_reporting (h_queues s q)"
    "dm_now s1 = dm_now s" "\<And>g. ft_traces (h_fired s1 g) = ft_traces (h_fired s g)"
    using u(4) fq r by (auto simp: still_def frame_def same_queue_def)
  have e1: "inv ?E s1" using u(2) same(6) by (simp add: dm_inv_def)
  have q1: "live_queue s1 k q" using frame_live_queue [OF still_frame [OF u(4)]] q by blast
  have lf1: "live_fired s1 \<lparr>queue_id = k, base_trace_id = b\<rparr> f"
    using frame_live_fired [OF still_frame [OF u(4)]] lf by blast
  have none: "tbufs s1 a = []" if "(i, a) \<in> set (?E f)" for i a
    using u(5) [of i a] live_fired_elems [OF e1 lf1 that] by (cases "tstate s1 a" rule: st_buffers.cases) auto
  then have zero: "ft_buffer_count (h_fired s1 f) = 0"
    using invD(4) [OF e1 lf1] by (auto simp: fired_ok_def intro!: msum_zero)
  let ?pf = "list_PushFront f (tq_idle (h_queues s1 q))"
  define Q' where "Q' = (h_queues s1 q)\<lparr>tq_reporting := n, tq_idle := snd ?pf\<rparr>"
  define s' where "s' = s1\<lparr>h_fired := (h_fired s1)(f := (h_fired s1 f)\<lparr>ft_state :=
      Some (idleTrigger (dm_now s1) (fst ?pf))\<rparr>), h_queues := (h_queues s1)(q := Q')\<rparr>"
  have "FT_GetBuffersForReport f (set_reporting q n s) = Inr (bufs, s')"
    by (simp add: FT_GetBuffersForReport_def r reporting_getBuffersForReport_def take_traces_pop u(1)
        popped_result_def zero same Let_def case_prod_beta)
      (simp add: set_ft_state_def Q'_def s'_def set_reporting_def upd_defs same)
  moreover have "inv ?E s' \<and> held s' = held s1"
  proof (rule inv_to_idle [OF e1 q1 _ same(2) _ _ _ _ _ _ _ _ s'_def])
    show "mget (tq_fired (h_queues s1 q)) b = Some f" using f same by simp
    show "x \<in># tree_mset (tq_reporting Q') \<longleftrightarrow> x \<in># tree_mset (tq_reporting (h_queues s1 q)) \<and> x \<noteq> b" for x
      using popped_id_mem [OF _ b] queues_okD(2) [OF invD(2) q] inv by (simp add: Q'_def same(4) dm_inv_def) blast
    show "tree_invar (tq_reporting Q')" using b by (simp add: Q'_def popped_id_def)
  qed (use u(5) in \<open>auto simp: Q'_def\<close>)
  moreover have "(\<lambda>g. ft_traces (h_fired s' g)) = ?E" by (auto simp: s'_def same)
  moreover have "quiet q s s'" using u(4) sq by (simp add: quiet_def s'_def still_def frame_def)
  moreover have "tq_reporting (h_queues s' q) = n" "tq_fired (h_queues s' q) = tq_fired (h_queues s q)"
    "ft_stamp (ft_state (h_fired s' f)) = dm_now s" "ft_elem (ft_state (h_fired s' f)) \<noteq> None"
    "ft_traces (h_fired s' f) = ft_traces (h_fired s f)"
    by (simp_all add: s'_def Q'_def same)
  moreover have "fired_buffers s' f = []" using none by (auto simp: fired_buffers_def s'_def same)
  ultimately show ?thesis using u(3,6) by (simp add: dm_inv_def)
qed

lemma set_ft_state_same: "ft_state (h_fired s f) = st \<Longrightarrow> set_ft_state f st s = s"
  by (auto simp: set_ft_state_def upd_fired_def)

lemma FT_CheckTimeout_early:
  "ft_state (h_fired s f) = Some (idleTrigger lm e) \<Longrightarrow> before < lm \<Longrightarrow> FT_CheckTimeout f before s = Inr (False, s)"
  by (simp add: FT_CheckTimeout_def idle_checkTimeout_def set_ft_state_same)

lemma FT_CheckTimeout_ok [ok_rules]:
  assumes inv: "dm_inv s" and q: "live_queue s k q" and f: "mget (tq_fired (h_queues s q)) b = Some f"
    and st: "ft_state (h_fired s f) = Some (idleTrigger lm e)" and late: "lm \<le> before"
  shows "ok (FT_CheckTimeout f before s) (\<lambda>(timedout, s'). timedout \<and> dm_inv s' \<and> held s' = held s \<and> quiet q s s' \<and>
    tq_fired (h_queues s' q) = mdel b (tq_fired (h_queues s q)) \<and>
    tq_reporting (h_queues s' q) = tq_reporting (h_queues s q) \<and>
    tq_idle (h_queues s' q) = list_Remove e (tq_idle (h_queues s q)) \<and>
    (\<forall>g. g \<noteq> f \<longrightarrow> ft_state (h_fired s' g) = ft_state (h_fired s g)))"
proof -
  let ?E = "(\<lambda>f. ft_traces (h_fired s f))(f := [])"
  have ok: "queue_ok (dm_now s) (h_fired s) (next_fired s) (\<lambda>f. ft_traces (h_fired s f)) k q (h_queues s q)"
    using inv q by (metis dm_inv_def invD(2) queues_okD(2))
  have lf: "live_fired s \<lparr>queue_id = k, base_trace_id = b\<rparr> f" using live_firedI [OF q f] .
  from unhook_traces_ok [OF inv lf] st obtain s1 where u: "unhook_traces f s = Inr ([], s1)"
    "inv ?E s1" "held s1 = held s" "still s s1"
    by (auto simp: ok_iff)
  have sq: "same_queue (h_queues s p) (h_queues s1 p)" for p using u(4) by (simp add: still_def)
  have same: "ft_queue (h_fired s1 f) = q" "ft_id (h_fired s1 f) = \<lparr>queue_id = k, base_trace_id = b\<rparr>"
    "ft_state (h_fired s1 f) = Some (idleTrigger lm e)" "tq_fired (h_queues s1 q) = tq_fired (h_queues s q)"
    "tq_reporting (h_queues s1 q) = tq_reporting (h_queues s q)" "tq_idle (h_queues s1 q) = tq_idle (h_queues s q)"
    using u(4) queue_okD(6,7) [OF ok f] st by (auto simp: still_def frame_def same_queue_def)
  have q1: "live_queue s1 k q" using frame_live_queue [OF still_frame [OF u(4)]] q by blast
  define Q' where "Q' = (h_queues s1 q)\<lparr>tq_idle := list_Remove e (tq_idle (h_queues s1 q)),
      tq_fired := mdel b (tq_fired (h_queues s1 q))\<rparr>"
  define s' where "s' = s1\<lparr>h_fired := (h_fired s1)(f := (h_fired s1 f)\<lparr>ft_state := None\<rparr>), h_queues := (h_queues s1)(q := Q')\<rparr>"
  have "FT_CheckTimeout f before s = Inr (True, s')"
    using late by (simp add: FT_CheckTimeout_def st idle_checkTimeout_def u(1))
      (simp add: set_ft_state_def Q'_def s'_def upd_defs same)
  moreover have "inv (\<lambda>f. ft_traces (h_fired s' f)) s' \<and> held s' = held s1"
  proof (rule inv_drop_fired [OF u(2) q1 _ _ _ _ _ _ _ _ _ _ s'_def])
    show "mget (tq_fired (h_queues s1 q)) b = Some f" using f same(4) by simp
    have "b \<notin># tree_mset (tq_reporting (h_queues s q))" using queue_okD(10) [OF ok] f st by auto
    then show "x \<in># tree_mset (tq_reporting Q') \<longleftrightarrow> x \<in># tree_mset (tq_reporting (h_queues s1 q)) \<and> x \<noteq> b" for x
      by (auto simp: Q'_def same(5))
    show "tree_invar (tq_reporting Q')" using queue_okD(4) [OF ok] by (simp add: Q'_def same(5))
    show "ft_traces (h_fired s' g) = ?E g" if "g \<noteq> f" for g
      using that u(4) by (simp add: s'_def still_def frame_def)
  qed (simp_all add: Q'_def same(3))
  moreover have "quiet q s s'" using u(4) sq by (simp add: quiet_def s'_def still_def frame_def)
  moreover have "tq_fired (h_queues s' q) = mdel b (tq_fired (h_queues s q))"
    "tq_reporting (h_queues s' q) = tq_reporting (h_queues s q)"
    "tq_idle (h_queues s' q) = list_Remove e (tq_idle (h_queues s q))"
    "\<forall>g. g \<noteq> f \<longrightarrow> ft_state (h_fired s' g) = ft_state (h_fired s g)"
    using u(4) by (simp_all add: s'_def Q'_def same still_def)
  ultimately show ?thesis using u(3) by (simp add: dm_inv_def)
qed

lemma initIdleTrigger_ok:
  assumes inv: "dm_inv s" and q: "live_queue s k q" and new: "mget (tq_fired (h_queues s q)) b = None"
    and i: "initIdleTrigger q b s = (f, s')"
  shows "dm_inv s' \<and> held s' = held s \<and> live_fired s' \<lparr>queue_id = k, base_trace_id = b\<rparr> f \<and>
    ft_traces (h_fired s' f) = [] \<and> dm_now s' = dm_now s \<and> dm_traces s' = dm_traces s \<and> h_traces s' = h_traces s \<and>
    (\<forall>l r. live_queue s' l r \<longleftrightarrow> live_queue s l r)"
proof -
  let ?E = "\<lambda>f. ft_traces (h_fired s f)" and ?pf = "list_PushFront f (tq_idle (h_queues s q))"
  define Q' where "Q' = (h_queues s q)\<lparr>tq_idle := snd ?pf, tq_fired := mput b f (tq_fired (h_queues s q)),
    tq_metrics := (tq_metrics (h_queues s q))\<lparr>tm_count := tm_count (tq_metrics (h_queues s q)) + 1\<rparr>\<rparr>"
  have e: "inv ?E s" using inv by (simp add: dm_inv_def)
  have k: "tq_id (h_queues s q) = k" using queue_okD(1) [OF queues_okD(2) [OF invD(2) [OF e] q]] .
  have f: "f = next_fired s" and s': "s' = s\<lparr>next_fired := Suc (next_fired s),
      h_fired := (h_fired s)(next_fired s := \<lparr>ft_id = \<lparr>queue_id = k, base_trace_id = b\<rparr>, ft_queue = q, ft_traces = [],
        ft_buffer_count = 0,
        ft_state = Some (idleTrigger (dm_now s) (fst (list_PushFront (next_fired s) (tq_idle (h_queues s q)))))\<rparr>),
      h_queues := (h_queues s)(q := Q')\<rparr>"
    using i by (auto simp: initIdleTrigger_def upd_defs Let_def k Q'_def split: prod.splits)
  have "inv (?E(f := [])) s' \<and> held s' = held s \<and> live_fired s' \<lparr>queue_id = k, base_trace_id = b\<rparr> f"
    using inv_new_fired [OF e q new _ _ _ _ _ _ _ _ s', of "?E(f := [])"] by (simp add: Q'_def f)
  moreover have "(\<lambda>f. ft_traces (h_fired s' f)) = ?E(f := [])" by (auto simp: s' f)
  moreover have "ft_traces (h_fired s' f) = []" "dm_now s' = dm_now s" "dm_traces s' = dm_traces s"
    "h_traces s' = h_traces s" "\<forall>l r. live_queue s' l r \<longleftrightarrow> live_queue s l r"
    by (simp_all add: s' f live_queue_def)
  ultimately show ?thesis by (simp add: dm_inv_def)
qed

end
