(* ===== verification/Trigger_Queue.thy ===== *)
theory Trigger_Queue
  imports Fired_Trigger
begin

text \<open>
  Trigger queues (\<^verbatim>\<open>triggerqueue.go\<close>).  The two loops of the file are partial functions: a
  loop that does not end is \<open>None\<close>, turned into the error \<open>Diverges\<close> by the operation around it.
\<close>

definition initTriggerQueue :: "int \<Rightarrow> dms \<Rightarrow> qaddr \<times> dms" where
  "initTriggerQueue qid s =
     (let q = next_queue s;
          s1 = upd_queue q (\<lambda>_. \<lparr>tq_id = qid, tq_trace_count = 0, tq_buffer_count = 0, tq_fired = [],
                 tq_reporting = InitPartialPriorityTree, tq_idle = list_New,
                 tq_metrics = zeroMetrics\<rparr>) (s\<lparr>next_queue := Suc q\<rparr>)
      in (q, upd_triggered (\<lambda>d. d\<lparr>td_queues := mput qid q (td_queues d)\<rparr>) s1))"

definition getOrCreateTrigger :: "qaddr \<Rightarrow> u64 \<Rightarrow> dms \<Rightarrow> faddr \<times> dms" where
  "getOrCreateTrigger q base s =
     (case mget (tq_fired (h_queues s q)) base of
        Some f \<Rightarrow> (f, s)
      | None \<Rightarrow> initIdleTrigger q base s)"

definition TQ_EvictNext :: "qaddr \<Rightarrow> dms \<Rightarrow> (buffer list \<times> dms) result" where
  "TQ_EvictNext q s =
     rbind (PopNearMax (tq_reporting (h_queues s q))) (\<lambda>(id, n).
       let s1 = set_reporting q n s in
       case mget (tq_fired (h_queues s1 q)) id of
         Some f \<Rightarrow> FT_Evict f s1
       | None \<Rightarrow> Inr ([], s1))"

text \<open>One round of the loop of \<^verbatim>\<open>EvictToCapacity\<close>: a missing trigger is a nil pointer.\<close>

definition evict_popped :: "qaddr \<Rightarrow> dms \<Rightarrow> (buffer list \<times> dms) result" where
  "evict_popped q s =
     rbind (PopNearMax (tq_reporting (h_queues s q))) (\<lambda>(id, n).
       let s1 = set_reporting q n s in
       rbind (deref (mget (tq_fired (h_queues s1 q)) id)) (\<lambda>f. FT_Evict f s1))"

partial_function (option) evict_loop ::
    "qaddr \<Rightarrow> int \<Rightarrow> buffer list \<Rightarrow> int \<Rightarrow> dms \<Rightarrow> (buffer list \<times> int \<times> dms) result option" where
  "evict_loop q num evicted eviction_count s =
     (if len evicted < num \<and> Size (tq_reporting (h_queues s q)) > 0 then
        (case evict_popped q s of
           Inl e \<Rightarrow> Some (Inl e)
         | Inr bs \<Rightarrow> evict_loop q num (evicted @ fst bs) (eviction_count + 1) (snd bs))
      else Some (Inr (evicted, eviction_count, s)))"

declare evict_loop.simps [code]

text \<open>The batch size of both \<^verbatim>\<open>EvictToCapacity\<close> methods.  The capacity is not negative there,
  so Go's division is \<open>div\<close>.\<close>

definition num_to_evict :: "int \<Rightarrow> int \<Rightarrow> int" where
  "num_to_evict buffer_count target_capacity =
     (let num = buffer_count - target_capacity; mn = target_capacity div 100
      in if num < mn then mn else num)"

definition TQ_EvictToCapacity :: "qaddr \<Rightarrow> int \<Rightarrow> dms \<Rightarrow> (buffer list \<times> dms) result" where
  "TQ_EvictToCapacity q target_capacity s =
     (if td_buffer_count (dm_triggered s) \<le> target_capacity \<or> target_capacity < 0 then Inr ([], s)
      else
        rbind (returns (evict_loop q
                 (num_to_evict (td_buffer_count (dm_triggered s)) target_capacity) [] 0 s))
          (\<lambda>(evicted, eviction_count, s1).
             Inr (evicted, upd_metrics q
               (\<lambda>m. m\<lparr>tm_evicted := tm_evicted m + eviction_count,
                      tm_evicted_buffers := tm_evicted_buffers m + len evicted\<rparr>) s1)))"

definition TQ_ReportNext :: "qaddr \<Rightarrow> dms \<Rightarrow> (buffer list \<times> dms) result" where
  "TQ_ReportNext q s =
     rbind (returns (PopMin (tq_reporting (h_queues s q)))) (\<lambda>(id, n).
       let s1 = set_reporting q n s in
       case mget (tq_fired (h_queues s1 q)) id of
         Some f \<Rightarrow>
           rbind (FT_GetBuffersForReport f s1) (\<lambda>(buffers, s2).
             Inr (buffers, upd_metrics q
               (\<lambda>m. m\<lparr>tm_reported_buffers := tm_reported_buffers m + len buffers\<rparr>) s2))
       | None \<Rightarrow> Inr ([], s1))"

partial_function (option) idle_loop ::
    "qaddr \<Rightarrow> time \<Rightarrow> int \<Rightarrow> dms \<Rightarrow> (int \<times> dms) result option" where
  "idle_loop q before eviction_count s =
     (if list_Len (tq_idle (h_queues s q)) > 0 then
        (case rbind (deref (list_Back (tq_idle (h_queues s q))))
                (\<lambda>(_, oldest). FT_CheckTimeout oldest before s) of
           Inl e \<Rightarrow> Some (Inl e)
         | Inr bs \<Rightarrow>
             if fst bs then idle_loop q before (eviction_count + 1) (snd bs)
             else Some (Inr (eviction_count, snd bs)))
      else Some (Inr (eviction_count, s)))"

declare idle_loop.simps [code]

definition TQ_CheckIdleTriggers :: "qaddr \<Rightarrow> time \<Rightarrow> dms \<Rightarrow> (int \<times> dms) result" where
  "TQ_CheckIdleTriggers q before s = returns (idle_loop q before 0 s)"

text \<open>\<^verbatim>\<open>getOrCreateTrace\<close> (datamanager.go) is here because \<^verbatim>\<open>Trigger\<close> calls it.\<close>

definition getOrCreateTrace :: "u64 \<Rightarrow> dms \<Rightarrow> taddr \<times> dms" where
  "getOrCreateTrace trace_id s =
     (case mget (dm_traces s) trace_id of
        Some t \<Rightarrow> (t, s)
      | None \<Rightarrow> initUntriggeredTrace trace_id s)"

type_synonym breadcrumb_map = "(u64, string list) gomap"

definition trigger_trace ::
    "faddr \<Rightarrow> u64 \<Rightarrow> breadcrumb_map \<times> dms \<Rightarrow> (breadcrumb_map \<times> dms) result" where
  "trigger_trace f trace_id = (\<lambda>(breadcrumbs, s).
     let (t, s1) = getOrCreateTrace trace_id s in
     rbind (FT_AddTrace f t s1) (\<lambda>(to_report, s2).
       Inr (if len to_report > 0 then mput trace_id to_report breadcrumbs else breadcrumbs, s2)))"

definition TQ_Trigger :: "qaddr \<Rightarrow> u64 \<Rightarrow> u64 list \<Rightarrow> dms \<Rightarrow> (breadcrumb_map \<times> dms) result" where
  "TQ_Trigger q trigger_id trace_ids s =
     (let (f, s1) = getOrCreateTrigger q trigger_id s in
      rfold (trigger_trace f) trace_ids ([], s1))"

section \<open>Popping from the queue\<close>

lemma dm_queue_ok:
  "dm_inv s \<Longrightarrow> live_queue s k q \<Longrightarrow>
     queue_ok (dm_now s) (h_fired s) (next_fired s) (\<lambda>f. ft_traces (h_fired s f)) k q (h_queues s q)"
  by (metis dm_inv_def invD(2) queues_okD(2))

lemma Size_pos: "dm_inv s \<Longrightarrow> live_queue s k q \<Longrightarrow>
    0 < Size (tq_reporting (h_queues s q)) \<longleftrightarrow> tree_mset (tq_reporting (h_queues s q)) \<noteq> {#}"
  using tq.card_pos queue_okD(4) [OF dm_queue_ok] by blast

lemma pop_near_max_ok:
  assumes "dm_inv s" "live_queue s k q" "0 < Size (tq_reporting (h_queues s q))"
  shows "ok (PopNearMax (tq_reporting (h_queues s q))) (\<lambda>(b, n). popped_id s q b n)"
  using tq.pop_some_ok [OF queue_okD(4) [OF dm_queue_ok [OF assms(1,2)]]] Size_pos [OF assms(1,2)] assms(3)
  by (auto simp: popped_id_def case_prod_beta')

lemma pop_min_ok:
  assumes "dm_inv s" "live_queue s k q" "0 < Size (tq_reporting (h_queues s q))"
  shows "ok (returns (PopMin (tq_reporting (h_queues s q)))) (\<lambda>(b, n). popped_id s q b n \<and>
    (\<forall>c. c \<in># tree_mset (tq_reporting (h_queues s q)) \<longrightarrow> b \<le> c))"
  using tq.pop_min_ok [OF queue_okD(4) [OF dm_queue_ok [OF assms(1,2)]]] Size_pos [OF assms(1,2)] assms(3)
  by (auto simp: popped_id_def case_prod_beta')

lemma popped_id_size: "popped_id s q b n \<Longrightarrow> dm_inv s \<Longrightarrow> live_queue s k q \<Longrightarrow>
    Size n = Size (tq_reporting (h_queues s q)) - 1"
  using tq.card_ok [of n] tq.card_ok [OF queue_okD(4) [OF dm_queue_ok]] by (fastforce simp: popped_id_def)

definition evicted_one :: "qaddr \<Rightarrow> dms \<Rightarrow> buffer list \<times> dms \<Rightarrow> bool" where
  "evicted_one q s = (\<lambda>(bufs, s'). dm_inv s' \<and> held s = mset bufs + held s' \<and> quiet q s s' \<and>
     Size (tq_reporting (h_queues s' q)) = Size (tq_reporting (h_queues s q)) - 1 \<and>
     length (tq_fired (h_queues s q)) = Suc (length (tq_fired (h_queues s' q))))"

lemma evict_one_step:
  assumes inv: "dm_inv s" and q: "live_queue s k q" and b: "popped_id s q b n"
  shows "\<exists>f. mget (tq_fired (h_queues s q)) b = Some f \<and> ok (FT_Evict f (set_reporting q n s)) (evicted_one q s)"
proof -
  obtain f where f: "mget (tq_fired (h_queues s q)) b = Some f" using popped_fired [OF inv q b] by blast
  have "ok (FT_Evict f (set_reporting q n s)) (evicted_one q s)"
    by (rule ok_mono [OF FT_Evict_ok [OF inv q b f]])
      (use popped_id_size [OF b inv q] length_mdel [OF queue_okD(2) [OF dm_queue_ok [OF inv q]] f]
        in \<open>auto simp: evicted_one_def\<close>)
  with f show ?thesis by blast
qed

lemma evict_popped_ok [ok_rules]:
  assumes inv: "dm_inv s" and q: "live_queue s k q" and pos: "0 < Size (tq_reporting (h_queues s q))"
  shows "ok (evict_popped q s) (evicted_one q s)"
  unfolding evict_popped_def
  by (rule ok_bind [OF pop_near_max_ok [OF inv q pos]]) (use evict_one_step [OF inv q] in fastforce)

lemma TQ_EvictNext_ok [ok_rules]:
  assumes inv: "dm_inv s" and q: "live_queue s k q" and pos: "0 < Size (tq_reporting (h_queues s q))"
  shows "ok (TQ_EvictNext q s) (evicted_one q s)"
  unfolding TQ_EvictNext_def
  by (rule ok_bind [OF pop_near_max_ok [OF inv q pos]]) (use evict_one_step [OF inv q] in fastforce)

text \<open>The eviction loop ends: each round takes one trigger out of the tree.\<close>

lemma evict_loop_ok:
  assumes "dm_inv s" "live_queue s k q"
  shows "ok (returns (evict_loop q num ev c s)) (\<lambda>(ev', c', s'). dm_inv s' \<and> quiet q s s' \<and>
    held s + mset ev = mset ev' + held s' \<and>
    c' - c = len (tq_fired (h_queues s q)) - len (tq_fired (h_queues s' q)) \<and> c \<le> c' \<and>
    (num \<le> len ev' \<or> tree_mset (tq_reporting (h_queues s' q)) = {#}) \<and>
    (len ev < num \<longrightarrow> 0 < Size (tq_reporting (h_queues s q)) \<longrightarrow> c < c'))"
  using assms
proof (induction "nat (Size (tq_reporting (h_queues s q)))" arbitrary: s ev c rule: less_induct)
  case less
  show ?case
  proof (cases "len ev < num \<and> 0 < Size (tq_reporting (h_queues s q))")
    case False
    then show ?thesis using less.prems Size_pos [OF less.prems] by (subst evict_loop.simps) auto
  next
    case True
    from evict_popped_ok [OF less.prems] True obtain bufs s1
      where p: "evict_popped q s = Inr (bufs, s1)" "evicted_one q s (bufs, s1)"
      by (auto simp: ok_iff)
    have q1: "live_queue s1 k q" using p(2) less.prems(2) quiet_live_queue by (auto simp: evicted_one_def)
    have "nat (Size (tq_reporting (h_queues s1 q))) < nat (Size (tq_reporting (h_queues s q)))"
      using p(2) True by (simp add: evicted_one_def)
    note IH = less.hyps [OF this _ q1, of "ev @ bufs" "c + 1"]
    have "evict_loop q num ev c s = evict_loop q num (ev @ bufs) (c + 1) s1"
      using True p(1) by (subst evict_loop.simps) simp
    moreover have "ok (returns (evict_loop q num (ev @ bufs) (c + 1) s1)) (\<lambda>(ev', c', s'). dm_inv s' \<and> quiet q s s' \<and>
      held s + mset ev = mset ev' + held s' \<and>
    c' - c = len (tq_fired (h_queues s q)) - len (tq_fired (h_queues s' q)) \<and> c \<le> c' \<and>
      (num \<le> len ev' \<or> tree_mset (tq_reporting (h_queues s' q)) = {#}) \<and>
      (len ev < num \<longrightarrow> 0 < Size (tq_reporting (h_queues s q)) \<longrightarrow> c < c'))"
      by (rule ok_mono [OF IH]) (use p(2) in \<open>auto simp: evicted_one_def ac_simps intro: quiet_trans\<close>)
    ultimately show ?thesis by simp
  qed
qed

section \<open>The operations of the queue\<close>

text \<open>Metrics play no part in the invariant.\<close>

lemma upd_metrics_ok:
  assumes "dm_inv s"
  shows "dm_inv (upd_metrics q g s)" "held (upd_metrics q g s) = held s" "quiet r s (upd_metrics q g s)"
    "tq_reporting (h_queues (upd_metrics q g s) p) = tq_reporting (h_queues s p)"
    "tq_fired (h_queues (upd_metrics q g s) p) = tq_fired (h_queues s p)" "h_fired (upd_metrics q g s) = h_fired s"
    "dm_triggered (upd_metrics q g s) = dm_triggered s"
proof -
  let ?s = "upd_metrics q g s"
  have e: "inv (\<lambda>f. ft_traces (h_fired s f)) s" using assms by (simp add: dm_inv_def)
  have sq: "same_queue (h_queues s p) (h_queues ?s p)" "tq_buffer_count (h_queues ?s p) = tq_buffer_count (h_queues s p)"
    "tq_trace_count (h_queues ?s p) = tq_trace_count (h_queues s p)" for p
    by (simp_all add: upd_defs same_queue_def)
  have q': "queues_ok (\<lambda>f. ft_traces (h_fired s f)) ?s"
    using invD(2) [OF e] sq unfolding queues_ok_def queue_ok_def same_queue_def
    by (simp add: live_queue_def) (simp add: upd_defs)
  have "inv (\<lambda>f. ft_traces (h_fired s f)) ?s"
    by (rule inv_fired_step [OF e _ q'])
      (use sq in \<open>auto simp: same_queue_def live_fired_def live_queue_def\<close>, auto simp: upd_defs same_traces_def)
  then show "dm_inv ?s" by (simp add: dm_inv_def upd_defs)
  show "quiet r s ?s" using sq by (simp add: quiet_def) (simp add: upd_defs)
qed (simp_all add: upd_defs held_def)

lemma TQ_EvictToCapacity_ok [ok_rules]:
  assumes inv: "dm_inv s" and q: "live_queue s k q"
  shows "ok (TQ_EvictToCapacity q cap s) (\<lambda>(ev, s'). dm_inv s' \<and> quiet q s s' \<and> held s = mset ev + held s' \<and>
    (td_buffer_count (dm_triggered s) \<le> cap \<or> cap < 0 \<longrightarrow> ev = [] \<and> s' = s) \<and>
    (\<not> (td_buffer_count (dm_triggered s) \<le> cap \<or> cap < 0) \<longrightarrow>
       (num_to_evict (td_buffer_count (dm_triggered s)) cap \<le> len ev \<or>
          tree_mset (tq_reporting (h_queues s' q)) = {#}) \<and>
       (0 < Size (tq_reporting (h_queues s q)) \<longrightarrow>
          length (tq_fired (h_queues s' q)) < length (tq_fired (h_queues s q)))))"
proof (cases "td_buffer_count (dm_triggered s) \<le> cap \<or> cap < 0")
  case True
  then show ?thesis using inv by (auto simp: TQ_EvictToCapacity_def)
next
  case False
  let ?n = "num_to_evict (td_buffer_count (dm_triggered s)) cap"
  have "ok (rbind (returns (evict_loop q ?n [] 0 s))
      (\<lambda>(ev, c, s1). Inr (ev, upd_metrics q (\<lambda>m. m\<lparr>tm_evicted := tm_evicted m + c,
         tm_evicted_buffers := tm_evicted_buffers m + len ev\<rparr>) s1)))
    (\<lambda>(ev, s'). dm_inv s' \<and> quiet q s s' \<and> held s = mset ev + held s' \<and>
       (?n \<le> len ev \<or> tree_mset (tq_reporting (h_queues s' q)) = {#}) \<and>
       (0 < Size (tq_reporting (h_queues s q)) \<longrightarrow>
          length (tq_fired (h_queues s' q)) < length (tq_fired (h_queues s q))))"
  proof (rule ok_bind [OF evict_loop_ok [OF inv q]], clarify, goal_cases)
    case (1 ev c s1)
    have "0 < ?n" using False by (simp add: num_to_evict_def Let_def)
    with 1 show ?case by (auto simp: upd_metrics_ok intro: quiet_trans [OF _ upd_metrics_ok(3)])
  qed
  then show ?thesis using False by (auto simp: TQ_EvictToCapacity_def elim!: ok_mono)
qed

text \<open>Reporting takes the least pending id, empties its traces and stamps the trigger idle.\<close>

lemma TQ_ReportNext_ok [ok_rules]:
  assumes inv: "dm_inv s" and q: "live_queue s k q" and pos: "0 < Size (tq_reporting (h_queues s q))"
  shows "ok (TQ_ReportNext q s) (\<lambda>(bufs, s'). dm_inv s' \<and> held s = mset bufs + held s' \<and> quiet q s s' \<and>
    tq_fired (h_queues s' q) = tq_fired (h_queues s q) \<and>
    (\<exists>b f. tree_mset (tq_reporting (h_queues s q)) = add_mset b (tree_mset (tq_reporting (h_queues s' q))) \<and>
       (\<forall>c. c \<in># tree_mset (tq_reporting (h_queues s q)) \<longrightarrow> b \<le> c) \<and>
       mget (tq_fired (h_queues s q)) b = Some f \<and> ft_stamp (ft_state (h_fired s' f)) = dm_now s \<and>
       ft_elem (ft_state (h_fired s' f)) \<noteq> None \<and> bufs = fired_buffers s f \<and> fired_buffers s' f = [] \<and>
       ft_traces (h_fired s' f) = ft_traces (h_fired s f)))"
  unfolding TQ_ReportNext_def
proof (rule ok_bind [OF pop_min_ok [OF inv q pos]], clarify, goal_cases)
  case (1 b n)
  obtain f where f: "mget (tq_fired (h_queues s q)) b = Some f" using popped_fired [OF inv q 1(1)] by blast
  from FT_GetBuffersForReport_ok [OF inv q 1(1) f] obtain bufs s2 where g:
    "FT_GetBuffersForReport f (set_reporting q n s) = Inr (bufs, s2)" "dm_inv s2" "held s = mset bufs + held s2"
    "quiet q s s2" "tq_reporting (h_queues s2 q) = n" "tq_fired (h_queues s2 q) = tq_fired (h_queues s q)"
    "ft_stamp (ft_state (h_fired s2 f)) = dm_now s" "ft_elem (ft_state (h_fired s2 f)) \<noteq> None"
    "bufs = fired_buffers s f" "fired_buffers s2 f = []" "ft_traces (h_fired s2 f) = ft_traces (h_fired s f)"
    by (auto simp: ok_iff)
  let ?s = "upd_metrics q (\<lambda>m. m\<lparr>tm_reported_buffers := tm_reported_buffers m + len bufs\<rparr>) s2"
  have fb: "fired_buffers ?s f = fired_buffers s2 f" by (simp add: fired_buffers_def upd_defs)
  have "tree_mset (tq_reporting (h_queues s q)) = add_mset b (tree_mset n)" using 1(1) by (simp add: popped_id_def)
  with 1(2) f g fb quiet_trans [OF g(4) upd_metrics_ok(3) [OF g(2)]] show ?case
    by (simp add: upd_metrics_ok [OF g(2)])
qed

text \<open>The idle loop ends, and leaves exactly the triggers stamped after the deadline.\<close>

lemma idle_back:
  assumes inv: "dm_inv s" and q: "live_queue s k q" and ne: "0 < list_Len (tq_idle (h_queues s q))"
  obtains e f b lm where "list_Back (tq_idle (h_queues s q)) = Some (e, f)"
    "(e, f) \<in> set (elems (tq_idle (h_queues s q)))"
    "mget (tq_fired (h_queues s q)) b = Some f" "ft_state (h_fired s f) = Some (idleTrigger lm e)"
    "\<And>e' f'. (e', f') \<in> set (elems (tq_idle (h_queues s q))) \<Longrightarrow> lm \<le> ft_stamp (ft_state (h_fired s f'))"
proof -
  let ?l = "tq_idle (h_queues s q)"
  have ok: "queue_ok (dm_now s) (h_fired s) (next_fired s) (\<lambda>f. ft_traces (h_fired s f)) k q (h_queues s q)"
    by (rule dm_queue_ok [OF inv q])
  obtain e f where b: "list_Back ?l = Some (e, f)"
    using lst.back_Some [OF queue_okD(3) [OF ok]] ne by (auto simp: list_Len_pos)
  have m: "(e, f) \<in> set (elems ?l)" using lst.back_in [OF queue_okD(3) [OF ok] b] .
  then obtain i where i: "mget (tq_fired (h_queues s q)) i = Some f" "ft_elem (ft_state (h_fired s f)) = Some e"
    using queue_okD(9) [OF ok] by blast
  from i(2) obtain lm where lm: "ft_state (h_fired s f) = Some (idleTrigger lm e)"
    by (cases "ft_state (h_fired s f)" rule: ft_elem.cases) auto
  have "lm \<le> ft_stamp (ft_state (h_fired s f'))" if "(e', f') \<in> set (elems ?l)" for e' f'
    using lst.lru_oldest [OF queue_okD(3) [OF ok] queue_okD(11) [OF ok] b that] lm by simp
  with that b m i(1) lm show ?thesis by blast
qed

lemma idle_element:
  assumes "dm_inv s" "live_queue s k q" "(e, f) \<in> set (elems (tq_idle (h_queues s q)))"
  shows "ft_elem (ft_state (h_fired s f)) = Some e"
  using queue_okD(9) [OF dm_queue_ok [OF assms(1,2)]] assms(3) by blast

lemma idle_loop_ok:
  assumes "dm_inv s" "live_queue s k q"
  shows "ok (returns (idle_loop q before c s)) (\<lambda>(c', s'). dm_inv s' \<and> quiet q s s' \<and> held s' = held s \<and>
    c' - c = list_Len (tq_idle (h_queues s q)) - list_Len (tq_idle (h_queues s' q)) \<and>
    tq_reporting (h_queues s' q) = tq_reporting (h_queues s q) \<and>
    (\<forall>e f. (e, f) \<in> set (elems (tq_idle (h_queues s' q))) \<longleftrightarrow>
       (e, f) \<in> set (elems (tq_idle (h_queues s q))) \<and> before < ft_stamp (ft_state (h_fired s f))))"
  using assms
proof (induction "length (elems (tq_idle (h_queues s q)))" arbitrary: s c rule: less_induct)
  case less
  let ?l = "tq_idle (h_queues s q)"
  show ?case
  proof (cases "0 < list_Len ?l")
    case False
    then have "elems ?l = []" by (simp add: list_Len_pos)
    with False less.prems(1) show ?thesis by (subst idle_loop.simps) simp
  next
    case True
    obtain e f b lm where x: "list_Back ?l = Some (e, f)" "(e, f) \<in> set (elems ?l)"
      "mget (tq_fired (h_queues s q)) b = Some f" "ft_state (h_fired s f) = Some (idleTrigger lm e)"
      and old: "\<And>e' f'. (e', f') \<in> set (elems ?l) \<Longrightarrow> lm \<le> ft_stamp (ft_state (h_fired s f'))"
      using idle_back [OF less.prems True] by metis
    show ?thesis
    proof (cases "before < lm")
      case True
      then have "idle_loop q before c s = Some (Inr (c, s))"
        using FT_CheckTimeout_early [OF x(4) True] x(1,2) by (subst idle_loop.simps) (auto simp: list_Len_def)
      with True less.prems(1) old show ?thesis by fastforce
    next
      case False
      from FT_CheckTimeout_ok [OF less.prems x(3,4), of before] False obtain s1 where t:
        "FT_CheckTimeout f before s = Inr (True, s1)" "dm_inv s1" "held s1 = held s" "quiet q s s1"
        "tq_reporting (h_queues s1 q) = tq_reporting (h_queues s q)" "tq_idle (h_queues s1 q) = list_Remove e ?l"
        "\<And>g. g \<noteq> f \<Longrightarrow> ft_state (h_fired s1 g) = ft_state (h_fired s g)"
        by (auto simp: ok_iff)
      have wf: "list_wf ?l" using queue_okD(3) [OF dm_queue_ok [OF less.prems]] .
      have len: "length (elems ?l) = Suc (length (elems (tq_idle (h_queues s1 q))))"
        using lst.remove_length [OF wf x(2)] t(6) by simp
      have q1: "live_queue s1 k q" using quiet_live_queue [OF t(4)] less.prems(2) by blast
      have lt: "length (elems (tq_idle (h_queues s1 q))) < length (elems ?l)" by (simp add: len)
      note IH = less.hyps [OF lt t(2) q1, of "c + 1"]
      have left: "(e', g) \<in> set (elems (tq_idle (h_queues s1 q))) \<and> before < ft_stamp (ft_state (h_fired s1 g)) \<longleftrightarrow>
        (e', g) \<in> set (elems ?l) \<and> before < ft_stamp (ft_state (h_fired s g))" for e' g
      proof (cases "g = f")
        case True
        then show ?thesis using idle_element [OF less.prems, of e' g] x(4) t(6) False lst.remove_set [OF wf, of e] by auto
      next
        case False
        then have "(e, g) \<notin> set (elems ?l)" using list_wf_inj [OF wf x(2)] by blast
        then show ?thesis using False t(6,7) lst.remove_set [OF wf, of e] by auto
      qed
      have "idle_loop q before c s = idle_loop q before (c + 1) s1"
        using \<open>0 < list_Len ?l\<close> x(1) t(1) by (subst idle_loop.simps) simp
      moreover have "ok (returns (idle_loop q before (c + 1) s1)) (\<lambda>(c', s'). dm_inv s' \<and> quiet q s s' \<and> held s' = held s \<and>
        c' - c = list_Len (tq_idle (h_queues s q)) - list_Len (tq_idle (h_queues s' q)) \<and>
        tq_reporting (h_queues s' q) = tq_reporting (h_queues s q) \<and>
        (\<forall>e f. (e, f) \<in> set (elems (tq_idle (h_queues s' q))) \<longleftrightarrow>
           (e, f) \<in> set (elems (tq_idle (h_queues s q))) \<and> before < ft_stamp (ft_state (h_fired s f))))"
        by (rule ok_mono [OF IH])
          (use t len quiet_trans [OF t(4)] left in \<open>auto simp: list_Len_def\<close>)
      ultimately show ?thesis by simp
    qed
  qed
qed

lemma TQ_CheckIdleTriggers_ok [ok_rules]:
  assumes "dm_inv s" "live_queue s k q"
  shows "ok (TQ_CheckIdleTriggers q before s) (\<lambda>(c, s'). dm_inv s' \<and> quiet q s s' \<and> held s' = held s \<and>
    c = list_Len (tq_idle (h_queues s q)) - list_Len (tq_idle (h_queues s' q)) \<and>
    tq_reporting (h_queues s' q) = tq_reporting (h_queues s q) \<and>
    (\<forall>e f. (e, f) \<in> set (elems (tq_idle (h_queues s' q))) \<longleftrightarrow>
       (e, f) \<in> set (elems (tq_idle (h_queues s q))) \<and> before < ft_stamp (ft_state (h_fired s f))))"
  unfolding TQ_CheckIdleTriggers_def
  by (rule ok_mono [OF idle_loop_ok [OF assms]]) auto

section \<open>Firing a trigger\<close>

lemma getOrCreateTrace_ok:
  assumes inv: "inv E s" and g: "getOrCreateTrace i s = (a, s')"
  shows "inv E s' \<and> live_trace s' i a \<and> held s' = held s \<and> frame s s' \<and>
    (\<forall>j b. j \<noteq> i \<longrightarrow> live_trace s' j b \<longleftrightarrow> live_trace s j b) \<and>
    (\<forall>j b. live_trace s j b \<longrightarrow> live_trace s' j b \<and> h_traces s' b = h_traces s b) \<and>
    (mget (dm_traces s) i = None \<longrightarrow> untriggered_p s' a \<and> tbufs s' a = [] \<and> st_breadcrumbs (tstate s' a) = [])"
proof (cases "mget (dm_traces s) i")
  case None
  then have "initUntriggeredTrace i s = (a, s')" using g by (simp add: getOrCreateTrace_def)
  note new = initUntriggeredTrace_ok [OF inv None this]
  have "live_trace s' j b \<longleftrightarrow> (if j = i then b = a else live_trace s j b)" for j b
    using new None by (auto simp: live_trace_def map_add_def split: option.splits)
  with new None show ?thesis by (auto simp: live_trace_def)
next
  case (Some b)
  then have "a = b" "s' = s" using g by (simp_all add: getOrCreateTrace_def)
  with inv Some show ?thesis by (simp add: live_trace_def)
qed

text \<open>The breadcrumbs a trace has collected, by trace id.\<close>

definition crumbs :: "dms \<Rightarrow> u64 \<Rightarrow> string list" where
  "crumbs s i = (case mget (dm_traces s) i of None \<Rightarrow> [] | Some a \<Rightarrow> st_breadcrumbs (tstate s a))"

definition linked :: "dms \<Rightarrow> faddr \<Rightarrow> u64 \<Rightarrow> bool" where
  "linked s f i \<longleftrightarrow> (\<exists>a. live_trace s i a \<and> mget (ft_traces (h_fired s f)) i = Some a)"

lemma linked_crumbs:
  assumes "dm_inv s" "live_fired s tid f" "linked s f i"
  shows "crumbs s i = []"
proof -
  from assms(3) obtain a where a: "live_trace s i a" "mget (ft_traces (h_fired s f)) i = Some a"
    by (auto simp: linked_def)
  then have "(i, a) \<in> set (ft_traces (h_fired s f))" by (auto dest: map_of_SomeD)
  with assms have "st_elem (tstate s a) = None" using live_fired_elems(3) unfolding dm_inv_def by blast
  with a(1) show ?thesis by (cases "tstate s a" rule: st_elem.cases) (auto simp: crumbs_def live_trace_def)
qed

lemma trigger_trace_ok:
  assumes inv: "dm_inv s" and f: "live_fired s tid f"
  shows "ok (trigger_trace f i (bc, s)) (\<lambda>(bc', s'). dm_inv s' \<and> held s' = held s \<and> dm_now s' = dm_now s \<and>
    (\<forall>k q. live_queue s' k q \<longleftrightarrow> live_queue s k q) \<and> (\<forall>tid g. live_fired s' tid g \<longleftrightarrow> live_fired s tid g) \<and>
    linked s' f i \<and> (\<forall>j. linked s f j \<longrightarrow> linked s' f j) \<and> (\<forall>j. j \<noteq> i \<longrightarrow> crumbs s' j = crumbs s j) \<and>
    bc' = (if crumbs s i \<noteq> [] then mput i (crumbs s i) bc else bc))"
proof -
  obtain a s1 where g: "getOrCreateTrace i s = (a, s1)" by (cases "getOrCreateTrace i s")
  have e: "inv (\<lambda>f. ft_traces (h_fired s f)) s" using inv by (simp add: dm_inv_def)
  note n = getOrCreateTrace_ok [OF e g]
  have fr: "frame s s1" using n by blast
  have inv1: "dm_inv s1" using n frame_links [OF fr] by (simp add: dm_inv_def)
  have f1: "live_fired s1 tid f" using frame_live_fired [OF fr] f by blast
  have a1: "live_trace s1 i a" using n by blast
  have cr: "st_breadcrumbs (tstate s1 a) = crumbs s i"
    using n by (cases "mget (dm_traces s) i") (auto simp: crumbs_def live_trace_def)
  have ft1: "ft_traces (h_fired s1 g) = ft_traces (h_fired s g)" for g using fr by (simp add: frame_def)
  have na: "b \<noteq> a" if "live_trace s1 j b" "j \<noteq> i" for j b
    using that live_addr_neq [of _ s1 i a j b] inv1 a1 by (auto simp: dm_inv_def)
  have cr1: "crumbs s1 j = crumbs s j" if "j \<noteq> i" for j
  proof (cases "mget (dm_traces s) j")
    case None
    then have "mget (dm_traces s1) j = None" using n that by (cases "mget (dm_traces s1) j") (auto simp: live_trace_def)
    with None show ?thesis by (simp add: crumbs_def)
  next
    case (Some b)
    then show ?thesis using n by (auto simp: crumbs_def live_trace_def)
  qed
  show ?thesis
    unfolding trigger_trace_def prod.case g Let_def
  proof (rule ok_bind [OF FT_AddTrace_ok [OF inv1 a1 f1]], clarify, goal_cases)
    case (1 r s2)
    have "linked s2 f i" using a1 1(3,7) by (simp add: linked_def live_trace_def mget_mput)
    moreover have "linked s2 f j" if "linked s f j" for j
      using that 1(3,7) n a1 by (auto simp: linked_def live_trace_def mget_mput ft1)
    moreover have "crumbs s2 j = crumbs s j" if "j \<noteq> i" for j
      using that 1(3) 1(9) na cr1 [OF that] by (auto simp: crumbs_def live_trace_def split: option.splits)
    ultimately show ?case using 1 cr n fr frame_live_queue [OF fr] frame_live_fired [OF fr]
      by (auto simp: frame_def)
  qed
qed

lemma getOrCreateTrigger_ok:
  assumes inv: "dm_inv s" and q: "live_queue s k q" and g: "getOrCreateTrigger q b s = (f, s')"
  shows "dm_inv s' \<and> held s' = held s \<and> live_fired s' \<lparr>queue_id = k, base_trace_id = b\<rparr> f \<and> dm_now s' = dm_now s \<and>
    dm_traces s' = dm_traces s \<and> h_traces s' = h_traces s \<and> (\<forall>l r. live_queue s' l r \<longleftrightarrow> live_queue s l r)"
proof (cases "mget (tq_fired (h_queues s q)) b")
  case None
  then show ?thesis using initIdleTrigger_ok [OF inv q None] g by (simp add: getOrCreateTrigger_def)
next
  case (Some f')
  then show ?thesis using inv live_firedI [OF q Some] g by (simp add: getOrCreateTrigger_def)
qed

lemma TQ_Trigger_ok [ok_rules]:
  assumes inv: "dm_inv s" and q: "live_queue s k q"
  shows "ok (TQ_Trigger q b ids s) (\<lambda>(bc, s'). dm_inv s' \<and> held s' = held s \<and> dm_now s' = dm_now s \<and>
    (\<forall>l r. live_queue s' l r \<longleftrightarrow> live_queue s l r) \<and>
    (\<exists>f. live_fired s' \<lparr>queue_id = k, base_trace_id = b\<rparr> f \<and> (\<forall>i \<in> set ids. linked s' f i)) \<and>
    (\<forall>i. mget bc i = (if i \<in> set ids \<and> crumbs s i \<noteq> [] then Some (crumbs s i) else None)))"
proof -
  obtain f s1 where g: "getOrCreateTrigger q b s = (f, s1)" by (cases "getOrCreateTrigger q b s")
  note n = getOrCreateTrigger_ok [OF inv q g]
  have cr: "crumbs s1 i = crumbs s i" for i using n by (simp add: crumbs_def split: option.split)
  let ?tid = "\<lparr>queue_id = k, base_trace_id = b\<rparr>"
  define I where "I = (\<lambda>(ys :: u64 list) (bc :: breadcrumb_map, s'). dm_inv s' \<and> held s' = held s1 \<and> dm_now s' = dm_now s1 \<and>
    (\<forall>l r. live_queue s' l r \<longleftrightarrow> live_queue s1 l r) \<and> live_fired s' ?tid f \<and> (\<forall>i \<in> set ys. linked s' f i) \<and>
    (\<forall>j. j \<notin> set ys \<longrightarrow> crumbs s' j = crumbs s1 j) \<and>
    (\<forall>i. mget bc i = (if i \<in> set ys \<and> crumbs s1 i \<noteq> [] then Some (crumbs s1 i) else None)))"
  have "ok (rfold (trigger_trace f) ids ([], s1)) (I ids)"
  proof (rule ok_rfold)
    show "I [] ([], s1)" using n by (simp add: I_def)
  next
    fix ys x zs st assume "I ys st"
    obtain bc s2 where st: "st = (bc, s2)" by (cases st)
    have x: "dm_inv s2" "held s2 = held s1" "dm_now s2 = dm_now s1" "\<And>l r. live_queue s2 l r \<longleftrightarrow> live_queue s1 l r"
      "live_fired s2 ?tid f" "\<And>i. i \<in> set ys \<Longrightarrow> linked s2 f i" "\<And>j. j \<notin> set ys \<Longrightarrow> crumbs s2 j = crumbs s1 j"
      "\<And>i. mget bc i = (if i \<in> set ys \<and> crumbs s1 i \<noteq> [] then Some (crumbs s1 i) else None)"
      using \<open>I ys st\<close> by (simp_all add: I_def st)
    have again: "crumbs s2 x = []" if "x \<in> set ys" using linked_crumbs [OF x(1,5) x(6) [OF that]] .
    show "ok (trigger_trace f x st) (I (ys @ [x]))"
      unfolding st
    proof (rule ok_mono [OF trigger_trace_ok [OF x(1,5)]], clarify, goal_cases)
      case (1 bc' s3)
      have "mget (if crumbs s2 x \<noteq> [] then mput x (crumbs s2 x) bc else bc) i =
          (if i \<in> set (ys @ [x]) \<and> crumbs s1 i \<noteq> [] then Some (crumbs s1 i) else None)" for i
        using x(7,8) again by (auto simp: mget_mput)
      then show ?case using 1 x by (auto simp: I_def)
    qed
  qed
  then show ?thesis
    unfolding TQ_Trigger_def g Let_def prod.case
    by (rule ok_mono) (use n cr in \<open>auto simp: I_def\<close>)
qed

end
