(* ===== verification/Data_Manager.thy ===== *)
theory Data_Manager
  imports Trigger_Queue
begin

text \<open>The data manager (\<^verbatim>\<open>datamanager.go\<close>).\<close>

definition DM_GetQueue :: "int \<Rightarrow> dms \<Rightarrow> qaddr \<times> dms" where
  "DM_GetQueue qid s =
     (case mget (td_queues (dm_triggered s)) qid of
        Some q \<Rightarrow> (q, s)
      | None \<Rightarrow> initTriggerQueue qid s)"

definition DM_AddBuffers :: "u64 \<Rightarrow> buffer list \<Rightarrow> dms \<Rightarrow> dms result" where
  "DM_AddBuffers trace_id buffers s =
     (let (t, s1) = getOrCreateTrace trace_id s in Trace_AddBuffers t buffers s1)"

definition DM_AddBreadcrumbs :: "u64 \<Rightarrow> string list \<Rightarrow> dms \<Rightarrow> (string list \<times> dms) result" where
  "DM_AddBreadcrumbs trace_id breadcrumbs s =
     (let (t, s1) = getOrCreateTrace trace_id s in Trace_AddBreadcrumbs t breadcrumbs s1)"

definition DM_Trigger :: "int \<Rightarrow> u64 \<Rightarrow> u64 list \<Rightarrow> dms \<Rightarrow> (breadcrumb_map \<times> dms) result" where
  "DM_Trigger qid trigger_id trace_ids s =
     (let (q, s1) = DM_GetQueue qid s in TQ_Trigger q trigger_id trace_ids s1)"

text \<open>\<^verbatim>\<open>lru.Back().Value\<close> of an empty list is a nil pointer.\<close>

definition evict_oldest :: "dms \<Rightarrow> (buffer list \<times> dms) result" where
  "evict_oldest s =
     rbind (deref (list_Back (ud_lru (dm_untriggered s)))) (\<lambda>(_, t). Trace_TakeBuffers t s)"

definition DM_Evict :: "dms \<Rightarrow> (buffer list \<times> dms) result" where
  "DM_Evict s =
     (if ud_trace_count (dm_untriggered s) = 0 then Inr ([], s) else evict_oldest s)"

partial_function (option) evict_untriggered_loop ::
    "int \<Rightarrow> buffer list \<Rightarrow> dms \<Rightarrow> (buffer list \<times> dms) result option" where
  "evict_untriggered_loop num evicted s =
     (if len evicted < num \<and> list_Len (ud_lru (dm_untriggered s)) > 0 then
        (case evict_oldest s of
           Inl e \<Rightarrow> Some (Inl e)
         | Inr bs \<Rightarrow> evict_untriggered_loop num (evicted @ fst bs) (snd bs))
      else Some (Inr (evicted, s)))"

declare evict_untriggered_loop.simps [code]

definition DM_EvictToCapacity :: "int \<Rightarrow> dms \<Rightarrow> (buffer list \<times> dms) result" where
  "DM_EvictToCapacity target_capacity s =
     (if dm_buffer_count s \<le> target_capacity \<or> target_capacity < 0 then Inr ([], s)
      else returns (evict_untriggered_loop (num_to_evict (dm_buffer_count s) target_capacity) [] s))"

text \<open>The search for the largest queue: a later candidate wins only if it is strictly larger.\<close>

definition larger_queue :: "dms \<Rightarrow> qaddr \<Rightarrow> qaddr option \<Rightarrow> qaddr option" where
  "larger_queue s candidate best =
     (case best of
        None \<Rightarrow> Some candidate
      | Some q \<Rightarrow>
          if tq_buffer_count (h_queues s candidate) > tq_buffer_count (h_queues s q)
          then Some candidate else Some q)"

definition largest_queue :: "dms \<Rightarrow> qaddr option" where
  "largest_queue s = fold (\<lambda>(_, candidate). larger_queue s candidate) (td_queues (dm_triggered s)) None"

definition DM_EvictedTriggeredToCapacity :: "int \<Rightarrow> dms \<Rightarrow> (buffer list \<times> dms) result" where
  "DM_EvictedTriggeredToCapacity target_capacity s =
     (if td_buffer_count (dm_triggered s) \<le> target_capacity \<or> target_capacity < 0 then Inr ([], s)
      else rbind (deref (largest_queue s)) (\<lambda>q. TQ_EvictToCapacity q target_capacity s))"

definition DM_CheckIdleTriggers :: "time \<Rightarrow> dms \<Rightarrow> dms result" where
  "DM_CheckIdleTriggers before s =
     rfold (\<lambda>(_, q) s. rbind (TQ_CheckIdleTriggers q before s) (\<lambda>(_, s'). Inr s'))
       (td_queues (dm_triggered s)) s"

section \<open>Operations on one trace\<close>

lemma DM_GetQueue_ok:
  assumes inv: "dm_inv s" and g: "DM_GetQueue k s = (q, s')"
  shows "dm_inv s' \<and> held s' = held s \<and> live_queue s' k q \<and> dm_now s' = dm_now s \<and> dm_traces s' = dm_traces s \<and>
    h_traces s' = h_traces s \<and> (\<forall>l r. live_queue s l r \<longrightarrow> live_queue s' l r)"
proof (cases "mget (td_queues (dm_triggered s)) k")
  case None
  have e: "inv (\<lambda>f. ft_traces (h_fired s f)) s" using inv by (simp add: dm_inv_def)
  from None g have q: "q = next_queue s" and s': "s' = s\<lparr>next_queue := Suc (next_queue s),
      h_queues := (h_queues s)(next_queue s := \<lparr>tq_id = k, tq_trace_count = 0, tq_buffer_count = 0, tq_fired = [],
        tq_reporting = InitPartialPriorityTree, tq_idle = list_New, tq_metrics = zeroMetrics\<rparr>),
      dm_triggered := (dm_triggered s)\<lparr>td_queues := mput k (next_queue s) (td_queues (dm_triggered s))\<rparr>\<rparr>"
    by (auto simp: DM_GetQueue_def initTriggerQueue_def upd_defs Let_def)
  have "\<forall>l r. live_queue s l r \<longrightarrow> live_queue s' l r" using None by (auto simp: s' live_queue_def mget_mput)
  with inv_new_queue [OF e None s'] show ?thesis by (simp add: q) (simp add: dm_inv_def s')
next
  case (Some r)
  with inv g show ?thesis by (simp add: DM_GetQueue_def live_queue_def)
qed

text \<open>The buffers of a trace, by trace id.\<close>

definition buffers_of :: "dms \<Rightarrow> u64 \<Rightarrow> buffer list" where
  "buffers_of s i = (case mget (dm_traces s) i of None \<Rightarrow> [] | Some a \<Rightarrow> tbufs s a)"

lemma buffers_of_get:
  assumes "inv E s" "getOrCreateTrace i s = (a, s')"
  shows "tbufs s' a = buffers_of s i"
  using getOrCreateTrace_ok [OF assms] by (cases "mget (dm_traces s) i") (auto simp: buffers_of_def live_trace_def)

lemma DM_AddBuffers_ok [ok_rules]:
  assumes inv: "dm_inv s"
  shows "ok (DM_AddBuffers i buffers s) (\<lambda>s'. dm_inv s' \<and> held s' = held s + mset buffers \<and>
    buffers_of s' i = buffers_of s i @ buffers \<and> (\<forall>j. j \<noteq> i \<longrightarrow> buffers_of s' j = buffers_of s j) \<and> dm_buffer_count s' = dm_buffer_count s + len buffers \<and>
    dm_now s' = dm_now s \<and> (\<forall>k q. live_queue s' k q \<longleftrightarrow> live_queue s k q))"
proof -
  obtain a s1 where g: "getOrCreateTrace i s = (a, s1)" by (cases "getOrCreateTrace i s")
  have e: "inv (\<lambda>f. ft_traces (h_fired s f)) s" using inv by (simp add: dm_inv_def)
  note n = getOrCreateTrace_ok [OF e g]
  have e1: "inv (\<lambda>f. ft_traces (h_fired s f)) s1" and a1: "live_trace s1 i a" and fr: "frame s s1" using n by blast+
  show ?thesis
    unfolding DM_AddBuffers_def g Let_def prod.case
  proof (rule ok_mono [OF Trace_AddBuffers_ok [OF e1 a1]], clarify, goal_cases)
    case (1 s')
    have fr': "frame s s'" using frame_trans [OF fr 1(3)] .
    have "held s' = held s + mset buffers" using 1(2) n by simp
    moreover from this have "dm_buffer_count s' = dm_buffer_count s + len buffers"
      using held_size [OF invD(6) [OF 1(1)]] held_size [OF invD(6) [OF e]] by simp
    moreover have "buffers_of s' i = buffers_of s i @ buffers"
      using 1(4,5) a1 buffers_of_get [OF e g] by (simp add: buffers_of_def live_trace_def)
    moreover have "buffers_of s' j = buffers_of s j" if "j \<noteq> i" for j
      using that n 1(4,6) a1 invD(3) [OF e1]
      by (auto simp: buffers_of_def live_trace_def trace_ok_def split: option.split) metis+
    ultimately show ?case using 1(1) fr' frame_links [OF fr'] frame_live_queue [OF fr']
      by (simp add: dm_inv_def frame_def)
  qed
qed

lemma DM_AddBreadcrumbs_ok [ok_rules]:
  assumes inv: "dm_inv s"
  shows "ok (DM_AddBreadcrumbs i bcs s) (\<lambda>(r, s'). dm_inv s' \<and> held s' = held s \<and>
    dm_now s' = dm_now s \<and> (\<forall>k q. live_queue s' k q \<longleftrightarrow> live_queue s k q) \<and>
    (if (\<exists>f tid. live_fired s tid f \<and> linked s f i) then r = bcs \<and> s' = s
     else r = [] \<and> crumbs s' i = crumbs s i @ bcs))"
proof -
  obtain a s1 where g: "getOrCreateTrace i s = (a, s1)" by (cases "getOrCreateTrace i s")
  have e: "inv (\<lambda>f. ft_traces (h_fired s f)) s" using inv by (simp add: dm_inv_def)
  note n = getOrCreateTrace_ok [OF e g]
  have e1: "inv (\<lambda>f. ft_traces (h_fired s f)) s1" and a1: "live_trace s1 i a" and fr: "frame s s1" using n by blast+
  have cr: "st_breadcrumbs (tstate s1 a) = crumbs s i"
    using n by (cases "mget (dm_traces s) i") (auto simp: crumbs_def live_trace_def)
  have trig: "(\<exists>f tid. live_fired s tid f \<and> linked s f i) \<longleftrightarrow> \<not> untriggered_p s1 a"
  proof
    assume "\<exists>f tid. live_fired s tid f \<and> linked s f i"
    then obtain f tid b where l: "live_fired s tid f" "live_trace s i b" "mget (ft_traces (h_fired s f)) i = Some b"
      by (auto simp: linked_def)
    then have "b = a" "tstate s1 b = tstate s b" using n by (auto simp: live_trace_def)
    with live_fired_elems(3) [OF e l(1), of i b] l(3) show "\<not> untriggered_p s1 a" by (auto dest: map_of_SomeD)
  next
    assume u: "\<not> untriggered_p s1 a"
    then have i: "mget (dm_traces s) i = Some a" using n by (cases "mget (dm_traces s) i") (auto simp: live_trace_def)
    then have "tstate s1 a = tstate s a" using n by (auto simp: live_trace_def)
    with u invD(3) [OF e, of i a] i have "ttrigs s a \<noteq> []" by (auto simp: trace_ok_def live_trace_def)
    then obtain tid f where "(tid, f) \<in> set (ttrigs s a)" by (metis list.set_intros(1) neq_Nil_conv prod.collapse)
    with trigs_live(1) [OF e] i show "\<exists>f tid. live_fired s tid f \<and> linked s f i"
      unfolding linked_def live_trace_def by blast
  qed
  have old: "s1 = s" if "\<not> untriggered_p s1 a"
    using that g n by (cases "mget (dm_traces s) i") (auto simp: getOrCreateTrace_def)
  show ?thesis
    unfolding DM_AddBreadcrumbs_def g Let_def prod.case trig
  proof (rule ok_mono [OF Trace_AddBreadcrumbs_ok [OF e1 a1]], clarify, goal_cases)
    case (1 r s')
    have fr': "frame s s'" using frame_trans [OF fr 1(3)] .
    have "dm_inv s'" "held s' = held s" "dm_now s' = dm_now s" "\<forall>k q. live_queue s' k q \<longleftrightarrow> live_queue s k q"
      using 1(1,2) n frame_links [OF fr'] frame_live_queue [OF fr'] fr' by (simp_all add: dm_inv_def frame_def)
    with 1(4-) old cr a1 show ?case
      by (auto simp: crumbs_def live_trace_def)
  qed
qed

lemma DM_Trigger_ok [ok_rules]:
  assumes inv: "dm_inv s"
  shows "ok (DM_Trigger k b ids s) (\<lambda>(bc, s'). dm_inv s' \<and> held s' = held s \<and> dm_now s' = dm_now s \<and>
    (\<forall>l r. live_queue s l r \<longrightarrow> live_queue s' l r) \<and>
    (\<exists>f. live_fired s' \<lparr>queue_id = k, base_trace_id = b\<rparr> f \<and> (\<forall>i \<in> set ids. linked s' f i)) \<and>
    (\<forall>i. mget bc i = (if i \<in> set ids \<and> crumbs s i \<noteq> [] then Some (crumbs s i) else None)))"
proof -
  obtain q s1 where g: "DM_GetQueue k s = (q, s1)" by (cases "DM_GetQueue k s")
  note n = DM_GetQueue_ok [OF inv g]
  have inv1: "dm_inv s1" and q1: "live_queue s1 k q" using n by blast+
  have cr: "crumbs s1 i = crumbs s i" for i using n by (simp add: crumbs_def split: option.split)
  show ?thesis
    unfolding DM_Trigger_def g Let_def prod.case
    by (rule ok_mono [OF TQ_Trigger_ok [OF inv1 q1]]) (use n cr in auto)
qed

section \<open>Evicting untriggered traces\<close>

lemma dm_inv_lru: "dm_inv s \<Longrightarrow> lru_ok s"
  by (simp add: dm_inv_def inv_def)

lemma oldest_trace:
  assumes inv: "dm_inv s" and ne: "0 < list_Len (ud_lru (dm_untriggered s))"
  obtains e a i where "list_Back (ud_lru (dm_untriggered s)) = Some (e, a)" "live_trace s i a" "untriggered_p s a"
    "\<And>j b. live_trace s j b \<Longrightarrow> untriggered_p s b \<Longrightarrow> st_stamp (tstate s a) \<le> st_stamp (tstate s b)"
proof -
  let ?l = "ud_lru (dm_untriggered s)"
  note lru = lru_okD [OF dm_inv_lru [OF inv]]
  obtain e a where b: "list_Back ?l = Some (e, a)" using lst.back_Some [OF lru(1)] ne by (auto simp: list_Len_pos)
  then have "(e, a) \<in> set (elems ?l)" using lst.back_in [OF lru(1)] by blast
  then obtain i where i: "live_trace s i a" "st_elem (tstate s a) = Some e" using lru(2) by blast
  have "st_stamp (tstate s a) \<le> st_stamp (tstate s c)" if "live_trace s j c" "untriggered_p s c" for j c
  proof -
    from that obtain e' where "(e', c) \<in> set (elems ?l)" using lru(2) by blast
    from lst.lru_oldest [OF lru(1,3) b this] show ?thesis by simp
  qed
  with that b i show ?thesis by auto
qed

definition evicted_trace :: "dms \<Rightarrow> buffer list \<times> dms \<Rightarrow> bool" where
  "evicted_trace s = (\<lambda>(bufs, s'). dm_inv s' \<and> held s = mset bufs + held s' \<and> still s s' \<and>
     td_buffer_count (dm_triggered s') = td_buffer_count (dm_triggered s) \<and>
     list_Len (ud_lru (dm_untriggered s')) = list_Len (ud_lru (dm_untriggered s)) - 1 \<and>
     (\<exists>i a. live_trace s i a \<and> untriggered_p s a \<and> bufs = tbufs s a \<and> dm_traces s' = mdel i (dm_traces s) \<and>
        ud_event_horizion (dm_untriggered s') = st_stamp (tstate s a) \<and>
        (\<forall>j b. live_trace s j b \<and> untriggered_p s b \<longrightarrow> st_stamp (tstate s a) \<le> st_stamp (tstate s b))))"

lemma evict_oldest_ok [ok_rules]:
  assumes inv: "dm_inv s" and ne: "0 < list_Len (ud_lru (dm_untriggered s))"
  shows "ok (evict_oldest s) (evicted_trace s)"
proof -
  obtain e a i where x: "list_Back (ud_lru (dm_untriggered s)) = Some (e, a)" "live_trace s i a" "untriggered_p s a"
    and old: "\<And>j b. live_trace s j b \<Longrightarrow> untriggered_p s b \<Longrightarrow> st_stamp (tstate s a) \<le> st_stamp (tstate s b)"
    using oldest_trace [OF assms] by metis
  have e: "inv (\<lambda>f. ft_traces (h_fired s f)) s" using inv by (simp add: dm_inv_def)
  have "ok (Trace_TakeBuffers a s) (evicted_trace s)"
  proof (rule ok_mono [OF untriggered_takeBuffers_ok [OF e x(2,3)]], clarify, goal_cases)
    case (1 b s')
    then have "dm_inv s'" using frame_links [OF still_frame [OF 1(3)]] by (simp add: dm_inv_def)
    with 1 x(2,3) old show ?case unfolding evicted_trace_def by blast
  qed
  then show ?thesis by (simp add: evict_oldest_def x(1))
qed

text \<open>The untriggered trace count is the length of the list.\<close>

lemma untriggered_count:
  assumes inv: "dm_inv s"
  shows "ud_trace_count (dm_untriggered s) = 0 \<longleftrightarrow> list_Len (ud_lru (dm_untriggered s)) = 0"
proof -
  let ?g = "\<lambda>(i, a). if untriggered_p s a then 1 else 0 :: int"
  have m: "mok (dm_traces s)" and c: "ud_trace_count (dm_untriggered s) = msum ?g (dm_traces s)"
    using inv by (simp_all add: dm_inv_def inv_def counts_ok_def)
  have nn: "0 \<le> msum ?g (dm_traces s)" by (rule msum_nonneg) auto
  have mem: "(i, a) \<in> set (dm_traces s) \<longleftrightarrow> live_trace s i a" for i a using m by (simp add: live_trace_def mget_set)
  show ?thesis
  proof
    assume "ud_trace_count (dm_untriggered s) = 0"
    then have z: "msum ?g (dm_traces s) = 0" using c by simp
    have "(e, a) \<notin> set (elems (ud_lru (dm_untriggered s)))" for e a
    proof
      assume "(e, a) \<in> set (elems (ud_lru (dm_untriggered s)))"
      then obtain i where "live_trace s i a" "untriggered_p s a" using lru_okD(2) [OF dm_inv_lru [OF inv]] by blast
      moreover have "?g (i, a) \<le> msum ?g (dm_traces s)"
        by (rule msum_ge_member) (use \<open>live_trace s i a\<close> in \<open>auto simp: mem\<close>)
      ultimately show False using z by simp
    qed
    then have "elems (ud_lru (dm_untriggered s)) = []" by (metis all_not_in_conv prod.collapse set_empty)
    then show "list_Len (ud_lru (dm_untriggered s)) = 0" by (simp add: list_Len_def)
  next
    assume z: "list_Len (ud_lru (dm_untriggered s)) = 0"
    have "\<not> untriggered_p s a" if "live_trace s i a" for i a
      using that z lru_okD(2) [OF dm_inv_lru [OF inv]] by (fastforce simp: list_Len_def)
    then have "msum ?g (dm_traces s) = 0" by (intro msum_zero) (auto simp: mem)
    with c show "ud_trace_count (dm_untriggered s) = 0" by simp
  qed
qed

lemma DM_Evict_ok [ok_rules]:
  assumes inv: "dm_inv s"
  shows "ok (DM_Evict s) (\<lambda>r. if ud_trace_count (dm_untriggered s) = 0 then r = ([], s) else evicted_trace s r)"
  using evict_oldest_ok [OF inv] untriggered_count [OF inv]
  by (auto simp: DM_Evict_def list_Len_def elim!: ok_mono)

lemma evict_untriggered_loop_ok:
  assumes "dm_inv s"
  shows "ok (returns (evict_untriggered_loop num ev s)) (\<lambda>(ev', s'). dm_inv s' \<and> still s s' \<and>
    held s + mset ev = mset ev' + held s' \<and>
    td_buffer_count (dm_triggered s') = td_buffer_count (dm_triggered s) \<and>
    (num \<le> len ev' \<or> list_Len (ud_lru (dm_untriggered s')) = 0))"
  using assms
proof (induction "length (elems (ud_lru (dm_untriggered s)))" arbitrary: s ev rule: less_induct)
  case less
  show ?case
  proof (cases "len ev < num \<and> 0 < list_Len (ud_lru (dm_untriggered s))")
    case False
    then show ?thesis using less.prems by (subst evict_untriggered_loop.simps) (auto simp: list_Len_def)
  next
    case True
    from evict_oldest_ok [OF less.prems] True obtain b s1 where p: "evict_oldest s = Inr (b, s1)" "evicted_trace s (b, s1)"
      by (auto simp: ok_iff)
    have lt: "length (elems (ud_lru (dm_untriggered s1))) < length (elems (ud_lru (dm_untriggered s)))"
      and inv1: "dm_inv s1" using p(2) by (simp_all add: evicted_trace_def list_Len_def)
    have "evict_untriggered_loop num ev s = evict_untriggered_loop num (ev @ b) s1"
      using True p(1) by (subst evict_untriggered_loop.simps) simp
    moreover have "ok (returns (evict_untriggered_loop num (ev @ b) s1)) (\<lambda>(ev', s'). dm_inv s' \<and> still s s' \<and>
      held s + mset ev = mset ev' + held s' \<and>
      td_buffer_count (dm_triggered s') = td_buffer_count (dm_triggered s) \<and>
      (num \<le> len ev' \<or> list_Len (ud_lru (dm_untriggered s')) = 0))"
      by (rule ok_mono [OF less.hyps [OF lt inv1]])
        (use p(2) in \<open>auto simp: evicted_trace_def ac_simps intro: still_trans\<close>)
    ultimately show ?thesis by simp
  qed
qed

lemma DM_EvictToCapacity_ok [ok_rules]:
  assumes inv: "dm_inv s"
  shows "ok (DM_EvictToCapacity cap s) (\<lambda>(ev, s'). dm_inv s' \<and> still s s' \<and> held s = mset ev + held s' \<and>
    td_buffer_count (dm_triggered s') = td_buffer_count (dm_triggered s) \<and>
    (dm_buffer_count s \<le> cap \<or> cap < 0 \<longrightarrow> ev = [] \<and> s' = s) \<and>
    (0 \<le> cap \<longrightarrow> dm_buffer_count s' \<le> cap \<or> list_Len (ud_lru (dm_untriggered s')) = 0))"
proof (cases "dm_buffer_count s \<le> cap \<or> cap < 0")
  case True
  then show ?thesis using inv by (auto simp: DM_EvictToCapacity_def)
next
  case False
  let ?n = "num_to_evict (dm_buffer_count s) cap"
  have n: "dm_buffer_count s - cap \<le> ?n" by (simp add: num_to_evict_def Let_def)
  have "ok (returns (evict_untriggered_loop ?n [] s)) (\<lambda>(ev, s'). dm_inv s' \<and> still s s' \<and> held s = mset ev + held s' \<and>
    td_buffer_count (dm_triggered s') = td_buffer_count (dm_triggered s) \<and>
    (dm_buffer_count s' \<le> cap \<or> list_Len (ud_lru (dm_untriggered s')) = 0))"
  proof (rule ok_mono [OF evict_untriggered_loop_ok [OF inv]], clarify, goal_cases)
    case (1 ev s')
    have "counts_ok s" "counts_ok s'" using inv 1(1) by (simp_all add: dm_inv_def inv_def)
    then have "dm_buffer_count s = len ev + dm_buffer_count s'"
      using 1(3) held_size [of s] held_size [of s'] by simp
    with 1 n show ?case by auto
  qed
  then show ?thesis using False by (auto simp: DM_EvictToCapacity_def elim!: ok_mono)
qed

section \<open>Evicting triggered traces\<close>

lemma larger_queue_fold:
  "\<exists>q. fold (\<lambda>(_, c). larger_queue s c) m (Some p) = Some q \<and> (q = p \<or> q \<in> set (mvals m)) \<and>
     tq_buffer_count (h_queues s p) \<le> tq_buffer_count (h_queues s q) \<and>
     (\<forall>r \<in> set (mvals m). tq_buffer_count (h_queues s r) \<le> tq_buffer_count (h_queues s q))"
proof (induction m arbitrary: p)
  case Nil
  then show ?case by simp
next
  case (Cons x m)
  obtain k c where x: "x = (k, c)" by (cases x)
  show ?case
  proof (cases "tq_buffer_count (h_queues s c) > tq_buffer_count (h_queues s p)")
    case True
    then show ?thesis using Cons.IH [of c] by (force simp: x larger_queue_def)
  next
    case False
    then show ?thesis using Cons.IH [of p] by (force simp: x larger_queue_def)
  qed
qed

lemma largest_queue_ex:
  assumes "td_queues (dm_triggered s) \<noteq> []"
  obtains q where "largest_queue s = Some q" "q \<in> set (mvals (td_queues (dm_triggered s)))"
    "\<And>r. r \<in> set (mvals (td_queues (dm_triggered s))) \<Longrightarrow> tq_buffer_count (h_queues s r) \<le> tq_buffer_count (h_queues s q)"
proof -
  obtain k c m where x: "td_queues (dm_triggered s) = (k, c) # m" using assms by (metis neq_Nil_conv prod.collapse)
  with larger_queue_fold [of s m c] that show ?thesis by (auto simp: largest_queue_def larger_queue_def)
qed

lemma largest_queue_max:
  assumes inv: "dm_inv s" and q: "live_queue s k' r'"
  obtains k q where "largest_queue s = Some q" "live_queue s k q"
    "\<And>k' r. live_queue s k' r \<Longrightarrow> tq_buffer_count (h_queues s r) \<le> tq_buffer_count (h_queues s q)"
proof -
  have m: "mok (td_queues (dm_triggered s))" using inv by (simp add: dm_inv_def inv_def queues_ok_def)
  have "td_queues (dm_triggered s) \<noteq> []" using q by (auto simp: live_queue_def)
  then obtain q where x: "largest_queue s = Some q" "q \<in> set (mvals (td_queues (dm_triggered s)))"
    "\<And>r. r \<in> set (mvals (td_queues (dm_triggered s))) \<Longrightarrow> tq_buffer_count (h_queues s r) \<le> tq_buffer_count (h_queues s q)"
    using largest_queue_ex by metis
  from x(2) m obtain k where "live_queue s k q" by (auto simp: live_queue_def mget_set)
  with x that mget_in_vals show ?thesis by (metis live_queue_def)
qed

text \<open>Some triggered trace holds a buffer, so some queue exists, and the largest one has a
  trigger to evict.\<close>

lemma fired_buffers_nonneg:
  assumes "dm_inv s" "live_fired s tid f"
  shows "0 \<le> ft_buffer_count (h_fired s f)"
proof -
  have "fired_ok (\<lambda>f. ft_traces (h_fired s f)) s f" using assms by (auto simp: dm_inv_def inv_def)
  then show ?thesis by (auto simp: fired_ok_def intro!: msum_nonneg)
qed

lemma queue_fired_nonneg:
  assumes "dm_inv s" "live_queue s k q" "(b, f) \<in> set (tq_fired (h_queues s q))"
  shows "0 \<le> ft_buffer_count (h_fired s f)"
  using assms queue_okD(2) [OF dm_queue_ok [OF assms(1,2)]]
  by (intro fired_buffers_nonneg [OF assms(1) live_firedI [OF assms(2)]]) (auto simp: mget_set)

lemma queue_buffers_nonneg:
  assumes "dm_inv s" "live_queue s k q"
  shows "0 \<le> tq_buffer_count (h_queues s q)"
  using queue_okD(13) [OF dm_queue_ok [OF assms]] queue_fired_nonneg [OF assms] by (auto intro!: msum_nonneg)

lemma triggered_buffer_queue:
  assumes inv: "dm_inv s" and pos: "0 < td_buffer_count (dm_triggered s)"
  obtains k r where "live_queue s k r" "0 < tq_buffer_count (h_queues s r)"
proof -
  let ?E = "\<lambda>f. ft_traces (h_fired s f)"
  have e: "inv ?E s" using inv by (simp add: dm_inv_def)
  have "0 < msum (\<lambda>(i, a). if untriggered_p s a then 0 else len (tbufs s a)) (dm_traces s)"
    using invD(6) [OF e] pos by (simp add: counts_ok_def)
  then obtain i a where ia: "(i, a) \<in> set (dm_traces s)" "\<not> untriggered_p s a" "tbufs s a \<noteq> []"
    by (rule msum_pos_ex) (auto split: if_splits)
  then have a: "live_trace s i a" using invD(1) [OF e] by (simp add: live_trace_def mget_set)
  have "ttrigs s a \<noteq> []" using invD(3) [OF e a] ia(2) by (simp add: trace_ok_def)
  then obtain tid f where "(tid, f) \<in> set (ttrigs s a)" by (metis list.set_intros(1) neq_Nil_conv prod.collapse)
  then have f: "live_fired s tid f" "mget (?E f) i = Some a" using trigs_live(1) [OF e a] by auto
  have "(i, a) \<in> set (?E f)" using f(2) by (rule map_of_SomeD)
  then have "len (tbufs s a) \<le> msum (\<lambda>(i, a). len (tbufs s a)) (?E f)"
    using msum_ge_member [of "?E f" "\<lambda>(i, a). len (tbufs s a)" i a] by auto
  then have fpos: "0 < ft_buffer_count (h_fired s f)"
    using invD(4) [OF e f(1)] ia(3) by (simp add: fired_ok_def) (use length_greater_0_conv [of "tbufs s a"] in linarith)
  obtain r where r: "live_queue s (queue_id tid) r" "mget (tq_fired (h_queues s r)) (base_trace_id tid) = Some f"
    using f(1) by (auto simp: live_fired_def)
  note ok = queues_okD(2) [OF invD(2) [OF e] r(1)]
  have "ft_buffer_count (h_fired s f) \<le> tq_buffer_count (h_queues s r)"
    using msum_ge_member [of "tq_fired (h_queues s r)" "\<lambda>(b, f). ft_buffer_count (h_fired s f)" "base_trace_id tid" f]
      queue_fired_nonneg [OF inv r(1)] map_of_SomeD [OF r(2)] queue_okD(13) [OF ok] by auto
  with fpos r(1) that show ?thesis by force
qed

lemma queue_buffers_tree:
  assumes inv: "dm_inv s" and q: "live_queue s k q" and pos: "0 < tq_buffer_count (h_queues s q)"
  shows "0 < Size (tq_reporting (h_queues s q))"
proof -
  let ?E = "\<lambda>f. ft_traces (h_fired s f)"
  have e: "inv ?E s" using inv by (simp add: dm_inv_def)
  note ok = dm_queue_ok [OF inv q]
  have "0 < msum (\<lambda>(b, f). ft_buffer_count (h_fired s f)) (tq_fired (h_queues s q))" using pos queue_okD(13) [OF ok] by simp
  then obtain b f where bf: "(b, f) \<in> set (tq_fired (h_queues s q))" "0 < ft_buffer_count (h_fired s f)"
    by (rule msum_pos_ex) auto
  then have f: "mget (tq_fired (h_queues s q)) b = Some f" using queue_okD(2) [OF ok] by (simp add: mget_set)
  have lf: "live_fired s \<lparr>queue_id = k, base_trace_id = b\<rparr> f" using live_firedI [OF q f] .
  have "0 < msum (\<lambda>(i, a). len (tbufs s a)) (?E f)" using bf(2) invD(4) [OF e lf] by (simp add: fired_ok_def)
  then obtain i a where ia: "(i, a) \<in> set (?E f)" "tbufs s a \<noteq> []" by (rule msum_pos_ex) auto
  note el = live_fired_elems [OF e lf ia(1)]
  have "st_reporting (tstate s a)" using el(3) ia(2) by (cases "tstate s a" rule: st_buffers.cases) auto
  then have "ft_state (h_fired s f) = Some reportingTrigger"
    using invD(3) [OF e el(2)] el(1) lf by (auto simp: trace_ok_def)
  then have "b \<in># tree_mset (tq_reporting (h_queues s q))" using queue_okD(10) [OF ok] f by blast
  then show ?thesis using Size_pos [OF inv q] by auto
qed

lemma DM_EvictedTriggeredToCapacity_ok [ok_rules]:
  assumes inv: "dm_inv s"
  shows "ok (DM_EvictedTriggeredToCapacity cap s) (\<lambda>(ev, s'). dm_inv s' \<and> held s = mset ev + held s' \<and>
    dm_now s' = dm_now s \<and> (\<forall>k q. live_queue s' k q \<longleftrightarrow> live_queue s k q) \<and>
    (td_buffer_count (dm_triggered s) \<le> cap \<or> cap < 0 \<longrightarrow> ev = [] \<and> s' = s) \<and>
    (\<not> (td_buffer_count (dm_triggered s) \<le> cap \<or> cap < 0) \<longrightarrow>
       (\<exists>k q. live_queue s k q \<and> quiet q s s' \<and>
          (\<forall>k' r. live_queue s k' r \<longrightarrow> tq_buffer_count (h_queues s r) \<le> tq_buffer_count (h_queues s q)) \<and>
          (num_to_evict (td_buffer_count (dm_triggered s)) cap \<le> len ev \<or>
             tree_mset (tq_reporting (h_queues s' q)) = {#}) \<and>
          length (tq_fired (h_queues s' q)) < length (tq_fired (h_queues s q)))))"
proof (cases "td_buffer_count (dm_triggered s) \<le> cap \<or> cap < 0")
  case True
  then show ?thesis using inv by (auto simp: DM_EvictedTriggeredToCapacity_def)
next
  case False
  then have "0 < td_buffer_count (dm_triggered s)" by linarith
  then obtain k r where r: "live_queue s k r" "0 < tq_buffer_count (h_queues s r)"
    using triggered_buffer_queue [OF inv] by metis
  then obtain l q where lq: "largest_queue s = Some q" and q: "live_queue s l q"
    and mx: "\<And>k' r. live_queue s k' r \<Longrightarrow> tq_buffer_count (h_queues s r) \<le> tq_buffer_count (h_queues s q)"
    using largest_queue_max [OF inv] by metis
  have pos: "0 < Size (tq_reporting (h_queues s q))" using queue_buffers_tree [OF inv q] mx [OF r(1)] r(2) by simp
  show ?thesis
    unfolding DM_EvictedTriggeredToCapacity_def if_not_P [OF False] lq deref_simps rbind_simps
  proof (rule ok_mono [OF TQ_EvictToCapacity_ok [OF inv q]], clarify, goal_cases)
    case (1 ev s')
    have "live_queue s' k q \<longleftrightarrow> live_queue s k q" for k q using quiet_live_queue [OF 1(2)] .
    with 1 q mx False pos show ?case by (auto simp: quiet_def)
  qed
qed

section \<open>Idle triggers\<close>

lemma DM_CheckIdleTriggers_ok [ok_rules]:
  assumes inv: "dm_inv s"
  shows "ok (DM_CheckIdleTriggers before s) (\<lambda>s'. dm_inv s' \<and> held s' = held s \<and> dm_now s' = dm_now s \<and>
    (\<forall>k q. live_queue s' k q \<longleftrightarrow> live_queue s k q))"
  unfolding DM_CheckIdleTriggers_def
proof (rule ok_rfold_inv)
  fix x s1 assume x: "x \<in> set (td_queues (dm_triggered s))"
    and I: "dm_inv s1 \<and> held s1 = held s \<and> dm_now s1 = dm_now s \<and> (\<forall>k q. live_queue s1 k q \<longleftrightarrow> live_queue s k q)"
  obtain k q where kq: "x = (k, q)" by (cases x)
  have "mok (td_queues (dm_triggered s))" using inv by (simp add: dm_inv_def inv_def queues_ok_def)
  then have q1: "live_queue s1 k q" using x kq I by (simp add: live_queue_def mget_set)
  show "ok ((\<lambda>(_, q) s. rbind (TQ_CheckIdleTriggers q before s) (\<lambda>(_, s'). Inr s')) x s1)
    (\<lambda>s'. dm_inv s' \<and> held s' = held s \<and> dm_now s' = dm_now s \<and> (\<forall>k q. live_queue s' k q \<longleftrightarrow> live_queue s k q))"
    unfolding kq prod.case
    by (rule ok_bind [OF TQ_CheckIdleTriggers_ok [OF _ q1]])
      (use I quiet_live_queue in \<open>auto simp: quiet_def live_queue_def\<close>)
qed (use inv in simp)

section \<open>Properties\<close>

text \<open>A small concrete state: trace 7 has a breadcrumb and then fires a trigger of queue 1, trace 8
  stays untriggered, and both have buffers.\<close>

definition demo :: dms where
  "demo = (case rbind (DM_AddBreadcrumbs 7 [''h1''] (InitDataManager 5)) (\<lambda>(_, s).
      rbind (DM_AddBuffers 8 [3] s) (\<lambda>s.
      rbind (DM_Trigger 1 7 [7] s) (\<lambda>(_, s). DM_AddBuffers 7 [10, 11] s))) of
     Inr s \<Rightarrow> s | Inl _ \<Rightarrow> InitDataManager 5)"

lemma demo_inv: "dm_inv demo"
proof -
  have "ok (rbind (DM_AddBreadcrumbs 7 [''h1''] (InitDataManager 5)) (\<lambda>(_, s).
      rbind (DM_AddBuffers 8 [3] s) (\<lambda>s.
      rbind (DM_Trigger 1 7 [7] s) (\<lambda>(_, s). DM_AddBuffers 7 [10, 11] s)))) dm_inv"
    by (rule ok_bind [OF DM_AddBreadcrumbs_ok [OF inv_Init]], clarify,
      rule ok_bind [OF DM_AddBuffers_ok], assumption, clarify,
      rule ok_bind [OF DM_Trigger_ok], assumption, clarify,
      rule ok_mono [OF DM_AddBuffers_ok], assumption, clarify)
  then show ?thesis by (auto simp: demo_def ok_iff)
qed

lemma demo_queue: "live_queue demo 1 0"
  unfolding live_queue_def by code_simp

lemma demo_trace: "live_trace demo 7 0" "mget (ft_traces (h_fired demo 0)) 7 = Some 0" "ttrigs demo 0 = [(\<lparr>queue_id = 1, base_trace_id = 7\<rparr>, 0)]"
  "tbufs demo 0 = [10, 11]" "buffers_of demo 7 = [10, 11]" "buffers_of demo 8 = [3]"
  unfolding live_trace_def by code_simp+

lemma demo_fired: "live_fired demo \<lparr>queue_id = 1, base_trace_id = 7\<rparr> 0"
  by (rule live_firedI [OF demo_queue]) code_simp

lemma demo_counts: "ud_trace_count (dm_untriggered demo) = 1" "dm_buffer_count demo = 3"
  "td_buffer_count (dm_triggered demo) = 2" "0 < Size (tq_reporting (h_queues demo 0))"
  by code_simp+

text \<open>Buffers that arrive for a trace are appended to the buffers of that trace, in order, in
  whatever state the trace is; no other trace is touched and the count grows by their number.\<close>

theorem AddBuffers_appends:
  assumes "dm_inv s"
  shows "ok (DM_AddBuffers i buffers s) (\<lambda>s'. dm_inv s' \<and>
    buffers_of s' i = buffers_of s i @ buffers \<and> (\<forall>j. j \<noteq> i \<longrightarrow> buffers_of s' j = buffers_of s j) \<and>
    dm_buffer_count s' = dm_buffer_count s + len buffers)"
  by (rule ok_mono [OF DM_AddBuffers_ok [OF assms]]) simp

theorem AddBuffers_appends_witness:
  "ok (DM_AddBuffers 7 [12] demo) (\<lambda>s'. buffers_of s' 7 = [10, 11, 12] \<and> buffers_of s' 8 = [3] \<and> dm_buffer_count s' = 4)"
  by (rule ok_mono [OF AddBuffers_appends [OF demo_inv]]) (simp add: demo_trace demo_counts)

text \<open>C23: A trigger links itself to every trace it names and returns the breadcrumbs that those traces
  had collected while untriggered, for each trace once, and nothing for the others; no buffer is lost.\<close>

theorem Trigger_links_traces:
  assumes "dm_inv s"
  shows "ok (DM_Trigger qid trigger_id trace_ids s) (\<lambda>(breadcrumbs, s'). dm_inv s' \<and> held s' = held s \<and>
    (\<exists>f. live_fired s' \<lparr>queue_id = qid, base_trace_id = trigger_id\<rparr> f \<and> (\<forall>i \<in> set trace_ids. linked s' f i)) \<and>
    (\<forall>i. mget breadcrumbs i = (if i \<in> set trace_ids \<and> crumbs s i \<noteq> [] then Some (crumbs s i) else None)))"
  by (rule ok_mono [OF DM_Trigger_ok [OF assms]]) auto

theorem Trigger_links_traces_witness:
  "ok (DM_Trigger 1 8 [8, 9] demo) (\<lambda>(breadcrumbs, s').
     \<exists>f. live_fired s' \<lparr>queue_id = 1, base_trace_id = 8\<rparr> f \<and> linked s' f 8 \<and> linked s' f 9)"
  by (rule ok_mono [OF Trigger_links_traces [OF demo_inv]]) auto

text \<open>Breadcrumbs of a trace that some fired trigger covers are handed back for the coordinator at
  once and nothing changes; those of any other trace are kept with it.\<close>

theorem AddBreadcrumbs_reports_or_keeps:
  assumes "dm_inv s"
  shows "ok (DM_AddBreadcrumbs i bcs s) (\<lambda>(r, s'). dm_inv s' \<and> held s' = held s \<and>
    (if (\<exists>f tid. live_fired s tid f \<and> linked s f i) then r = bcs \<and> s' = s
     else r = [] \<and> crumbs s' i = crumbs s i @ bcs))"
  by (rule ok_mono [OF DM_AddBreadcrumbs_ok [OF assms]]) (auto split: if_splits)

theorem AddBreadcrumbs_reports_or_keeps_witness:
  "ok (DM_AddBreadcrumbs 7 [''h2''] demo) (\<lambda>(r, s'). r = [''h2''] \<and> s' = demo)"
proof -
  have "\<exists>f tid. live_fired demo tid f \<and> linked demo f 7"
    using demo_fired demo_trace(1,2) unfolding linked_def by blast
  then show ?thesis
    by (intro ok_mono [OF AddBreadcrumbs_reports_or_keeps [OF demo_inv]]) auto
qed

text \<open>A trace gives its buffers back when its last trigger is removed, and then leaves the data
  manager; while another trigger covers it, it keeps both.\<close>

theorem RemoveTrigger_releases_last:
  assumes "dm_inv s" and "live_trace s i a" and "live_fired s tid f"
    and "mget (ft_traces (h_fired s f)) i = Some a"
  shows "ok (Trace_RemoveTrigger a f s) (\<lambda>(bufs, s'). held s = mset bufs + held s' \<and>
    (if mdel tid (ttrigs s a) = [] then bufs = tbufs s a \<and> mget (dm_traces s') i = None
     else bufs = [] \<and> mget (dm_traces s') i = Some a))"
proof -
  have "inv (\<lambda>f. ft_traces (h_fired s f)) s" using assms(1) by (simp add: dm_inv_def)
  from Trace_RemoveTrigger_ok [OF this assms(2-4)] show ?thesis
    using assms(2) by (auto simp: live_trace_def mget_mdel elim!: ok_mono)
qed

theorem RemoveTrigger_releases_last_witness:
  "ok (Trace_RemoveTrigger 0 0 demo) (\<lambda>(bufs, s'). bufs = [10, 11] \<and> mget (dm_traces s') 7 = None)"
  by (rule ok_mono [OF RemoveTrigger_releases_last [OF demo_inv demo_trace(1) demo_fired demo_trace(2)]])
    (auto simp: demo_trace)

text \<open>C20: The eviction of untriggered data takes the whole trace that was touched longest ago, and no
  triggered one; the event horizon becomes the time of its last use.\<close>

theorem Evict_takes_oldest:
  assumes "dm_inv s" and "ud_trace_count (dm_untriggered s) \<noteq> 0"
  shows "ok (DM_Evict s) (\<lambda>(bufs, s'). dm_inv s' \<and> held s = mset bufs + held s' \<and>
    td_buffer_count (dm_triggered s') = td_buffer_count (dm_triggered s) \<and>
    (\<exists>i a. live_trace s i a \<and> untriggered_p s a \<and> bufs = tbufs s a \<and> dm_traces s' = mdel i (dm_traces s) \<and>
       ud_event_horizion (dm_untriggered s') = st_stamp (tstate s a) \<and>
       (\<forall>j b. live_trace s j b \<and> untriggered_p s b \<longrightarrow> st_stamp (tstate s a) \<le> st_stamp (tstate s b))))"
  by (rule ok_mono [OF DM_Evict_ok [OF assms(1)]]) (use assms(2) in \<open>auto simp: evicted_trace_def\<close>)

theorem Evict_takes_oldest_witness:
  "ok (DM_Evict demo) (\<lambda>(bufs, s'). td_buffer_count (dm_triggered s') = 2 \<and>
     (\<exists>i a. live_trace demo i a \<and> bufs = tbufs demo a \<and> dm_traces s' = mdel i (dm_traces demo)))"
  by (rule ok_mono [OF Evict_takes_oldest [OF demo_inv]]) (auto simp: demo_counts)

text \<open>C25: Evicting to a capacity ends, does nothing within the capacity, and otherwise leaves the data
  manager within it unless no untriggered trace is left; triggered data is never evicted here.\<close>

theorem EvictToCapacity_reaches:
  assumes "dm_inv s" and "0 \<le> cap"
  shows "ok (DM_EvictToCapacity cap s) (\<lambda>(bufs, s'). dm_inv s' \<and> held s = mset bufs + held s' \<and>
    td_buffer_count (dm_triggered s') = td_buffer_count (dm_triggered s) \<and>
    (dm_buffer_count s \<le> cap \<longrightarrow> bufs = [] \<and> s' = s) \<and>
    (dm_buffer_count s' \<le> cap \<or> ud_trace_count (dm_untriggered s') = 0))"
  by (rule ok_mono [OF DM_EvictToCapacity_ok [OF assms(1)]]) (use assms(2) untriggered_count in auto)

theorem EvictToCapacity_reaches_witness:
  "ok (DM_EvictToCapacity 2 demo) (\<lambda>(bufs, s'). td_buffer_count (dm_triggered s') = 2 \<and>
     (dm_buffer_count s' \<le> 2 \<or> ud_trace_count (dm_untriggered s') = 0))"
  by (rule ok_mono [OF EvictToCapacity_reaches [OF demo_inv]]) (auto simp: demo_counts)

text \<open>C26: When triggered data exceeds its capacity, triggers are evicted from a queue that holds the most
  buffers, until enough buffers are free or that queue has nothing to report; at least one trigger
  goes, and every other queue keeps its triggers.\<close>

theorem EvictedTriggered_from_largest:
  assumes "dm_inv s" and "0 \<le> cap" and "cap < td_buffer_count (dm_triggered s)"
  shows "ok (DM_EvictedTriggeredToCapacity cap s) (\<lambda>(bufs, s'). dm_inv s' \<and> held s = mset bufs + held s' \<and>
    (\<exists>k q. live_queue s k q \<and>
       (\<forall>k' r. live_queue s k' r \<longrightarrow> tq_buffer_count (h_queues s r) \<le> tq_buffer_count (h_queues s q)) \<and>
       (\<forall>r. r \<noteq> q \<longrightarrow> tq_fired (h_queues s' r) = tq_fired (h_queues s r)) \<and>
       length (tq_fired (h_queues s' q)) < length (tq_fired (h_queues s q)) \<and>
       (td_buffer_count (dm_triggered s) - cap \<le> len bufs \<or> tree_mset (tq_reporting (h_queues s' q)) = {#})))"
proof (rule ok_mono [OF DM_EvictedTriggeredToCapacity_ok [OF assms(1)]], clarify, goal_cases)
  case (1 bufs s')
  have "\<not> (td_buffer_count (dm_triggered s) \<le> cap \<or> cap < 0)" using assms by simp
  with 1 obtain k q where q: "live_queue s k q" "quiet q s s'"
    "\<forall>k' r. live_queue s k' r \<longrightarrow> tq_buffer_count (h_queues s r) \<le> tq_buffer_count (h_queues s q)"
    "num_to_evict (td_buffer_count (dm_triggered s)) cap \<le> len bufs \<or> tree_mset (tq_reporting (h_queues s' q)) = {#}"
    "length (tq_fired (h_queues s' q)) < length (tq_fired (h_queues s q))" by blast
  have "td_buffer_count (dm_triggered s) - cap \<le> num_to_evict (td_buffer_count (dm_triggered s)) cap"
    by (simp add: num_to_evict_def Let_def)
  with q(4) have "td_buffer_count (dm_triggered s) - cap \<le> len bufs \<or> tree_mset (tq_reporting (h_queues s' q)) = {#}"
    by linarith
  moreover have "tq_fired (h_queues s' r) = tq_fired (h_queues s r)" if "r \<noteq> q" for r
    using q(2) that by (simp add: quiet_def same_queue_def)
  ultimately show ?case using 1(1,2) q by blast
qed

theorem EvictedTriggered_from_largest_witness:
  "ok (DM_EvictedTriggeredToCapacity 0 demo) (\<lambda>(bufs, s'). held demo = mset bufs + held s' \<and>
     (\<exists>k q. live_queue demo k q \<and> length (tq_fired (h_queues s' q)) < length (tq_fired (h_queues demo q))))"
  by (rule ok_mono [OF EvictedTriggered_from_largest [OF demo_inv]]) (auto simp: demo_counts)

text \<open>C27: Reporting takes the pending trigger with the least id, returns all buffers of all its traces,
  and leaves that trigger idle, stamped with the current time and still linked to its traces.\<close>

theorem ReportNext_least_trigger:
  assumes "dm_inv s" and "live_queue s k q" and "0 < Size (tq_reporting (h_queues s q))"
  shows "ok (TQ_ReportNext q s) (\<lambda>(bufs, s'). dm_inv s' \<and> held s = mset bufs + held s' \<and>
    (\<exists>b f. b \<in># tree_mset (tq_reporting (h_queues s q)) \<and>
       (\<forall>c. c \<in># tree_mset (tq_reporting (h_queues s q)) \<longrightarrow> b \<le> c) \<and>
       tree_mset (tq_reporting (h_queues s' q)) = tree_mset (tq_reporting (h_queues s q)) - {#b#} \<and>
       mget (tq_fired (h_queues s q)) b = Some f \<and> bufs = fired_buffers s f \<and> fired_buffers s' f = [] \<and>
       ft_traces (h_fired s' f) = ft_traces (h_fired s f) \<and>
       (\<exists>e. ft_state (h_fired s' f) = Some (idleTrigger (dm_now s) e))))"
proof (rule ok_mono [OF TQ_ReportNext_ok [OF assms]], clarify, goal_cases)
  case (1 bufs s' b f)
  have "\<exists>e. ft_state (h_fired s' f) = Some (idleTrigger (dm_now s) e)"
    using 1 by (cases "ft_state (h_fired s' f)" rule: ft_elem.cases) auto
  then obtain e where "ft_state (h_fired s' f) = Some (idleTrigger (dm_now s) e)" by blast
  with 1 show ?case by (intro conjI exI [of _ b] exI [of _ f] exI [of _ e]) auto
qed

theorem ReportNext_least_trigger_witness:
  "ok (TQ_ReportNext 0 demo) (\<lambda>(bufs, s'). \<exists>f. bufs = fired_buffers demo f \<and> fired_buffers s' f = [])"
  by (rule ok_mono [OF ReportNext_least_trigger [OF demo_inv demo_queue demo_counts(4)]]) auto

text \<open>The timeout of idle triggers drops exactly those that were last used at or before the
  deadline; no buffer is affected, nor any trigger with data to report.\<close>

theorem CheckIdleTriggers_drops_old:
  assumes "dm_inv s" and "live_queue s k q"
  shows "ok (TQ_CheckIdleTriggers q before s) (\<lambda>(n, s'). dm_inv s' \<and> held s' = held s \<and>
    n = list_Len (tq_idle (h_queues s q)) - list_Len (tq_idle (h_queues s' q)) \<and>
    tq_reporting (h_queues s' q) = tq_reporting (h_queues s q) \<and>
    (\<forall>e f. (e, f) \<in> set (elems (tq_idle (h_queues s' q))) \<longleftrightarrow>
       (e, f) \<in> set (elems (tq_idle (h_queues s q))) \<and> before < ft_stamp (ft_state (h_fired s f))))"
  by (rule ok_mono [OF TQ_CheckIdleTriggers_ok [OF assms]]) auto

theorem CheckIdleTriggers_drops_old_witness:
  "\<exists>s. ok (DM_Trigger 1 9 [9] demo) (\<lambda>(_, s'). s' = s) \<and> live_queue s 1 0 \<and>
     ok (TQ_CheckIdleTriggers 0 5 s) (\<lambda>(n, s').
       \<forall>e f. (e, f) \<in> set (elems (tq_idle (h_queues s' 0))) \<longrightarrow> 5 < ft_stamp (ft_state (h_fired s f)))"
proof -
  obtain bc s where s: "DM_Trigger 1 9 [9] demo = Inr (bc, s)" "dm_inv s" "live_queue s 1 0"
    using DM_Trigger_ok [OF demo_inv, of 1 9 "[9]"] demo_queue by (auto simp: ok_iff)
  have "ok (TQ_CheckIdleTriggers 0 5 s) (\<lambda>(n, s').
       \<forall>e f. (e, f) \<in> set (elems (tq_idle (h_queues s' 0))) \<longrightarrow> 5 < ft_stamp (ft_state (h_fired s f)))"
    by (rule ok_mono [OF CheckIdleTriggers_drops_old [OF s(2,3)]]) auto
  with s show ?thesis by auto
qed

end
