(* ===== verification/Rate_Limit.thy ===== *)
theory Rate_Limit
  imports Complex_Main Hs_Prelude "HOL-Library.Signed_Division"
begin

text \<open>
  The token buckets of the package \<^verbatim>\<open>github.com/juju/ratelimit\<close>, which is not part of the
  program.  They are a parameter: an abstract bucket state, which also stands for the bucket's own
  reading of the clock, with the functions the program calls.  \<open>Wait\<close> takes tokens and sleeps until
  they are available.  A rate is a \<^verbatim>\<open>float64\<close> that the program scales by a power of two and
  truncates, both exact; it is a rational number here.
\<close>

type_synonym float64 = rat

record 'b ratelimit =
  NewBucketWithRate :: "float64 \<Rightarrow> int \<Rightarrow> 'b"
  Available :: "'b \<Rightarrow> int \<times> 'b"
  Take :: "int \<Rightarrow> 'b \<Rightarrow> 'b"
  Wait :: "int \<Rightarrow> 'b \<Rightarrow> 'b"

text \<open>Go's conversion \<^verbatim>\<open>int64(x)\<close> truncates toward zero.\<close>

definition go_int64 :: "float64 \<Rightarrow> int" where
  "go_int64 x = (if x < 0 then - \<lfloor>- x\<rfloor> else \<lfloor>x\<rfloor>)"

text \<open>
  What the program relies on the limiter for: a bucket in debt comes out of it.  The bucket
  reads the clock, so each reading that finds it in debt brings it closer to having tokens.
\<close>

definition refill_measure :: "'b ratelimit \<Rightarrow> ('b \<Rightarrow> nat) \<Rightarrow> bool" where
  "refill_measure rl m \<longleftrightarrow> (\<forall>b. fst (Available rl b) < 0 \<longrightarrow> m (snd (Available rl b)) < m b)"

definition refilling :: "'b ratelimit \<Rightarrow> bool" where
  "refilling rl \<longleftrightarrow> (\<exists>m. refill_measure rl m)"

text \<open>A concrete limiter: the bucket is its number of tokens, and each reading of the clock adds one.\<close>

definition ticking :: "int ratelimit" where
  "ticking = \<lparr>NewBucketWithRate = (\<lambda>_ capacity. capacity), Available = (\<lambda>b. (b, b + 1)), Take = (\<lambda>n b. b - n),
     Wait = (\<lambda>n b. b - n)\<rparr>"

lemma refilling_ticking: "refilling ticking"
proof -
  have "refill_measure ticking (\<lambda>b. nat (- b))" by (simp add: refill_measure_def ticking_def)
  then show ?thesis by (auto simp: refilling_def)
qed

end
