(* ===== verification/Trigger_Manager.thy ===== *)
theory Trigger_Manager
  imports Data_Manager Rate_Limit
begin

text \<open>
  The trigger manager (\<^verbatim>\<open>triggermanager.go\<close>): rate limits on local triggers and on
  reporting, and fair sharing of the reporting bandwidth by virtual time.
\<close>

text \<open>A \<^verbatim>\<open>*ManagedQueue\<close> is reached through the map \<^verbatim>\<open>queues\<close> only, so it is a value of that
  map; its \<^verbatim>\<open>*TriggerQueue\<close> is an address.\<close>

record 'b ManagedQueue =
  mq_queue :: qaddr
  mq_trigger_limiter :: 'b
  mq_reporting_limiter :: 'b
  mq_vt :: int

record 'b TriggerManager =
  tm_queues :: "(int, 'b ManagedQueue) gomap"
  tm_vc :: int
  tm_buffer_size :: int
  tm_trigger_limit :: float64
  tm_reporting_limit :: float64
  tm_batch_size :: int

definition TM_Init :: "int \<Rightarrow> float64 \<Rightarrow> 'b TriggerManager result" where
  "TM_Init buffer_size trigger_limit =
     (if buffer_size = 0 then Inl DivideByZero
      else Inr \<lparr>tm_queues = [], tm_vc = 0, tm_buffer_size = buffer_size,
             tm_trigger_limit = (if trigger_limit = 0 then 10 * 1024 * 1024 * 1024 else trigger_limit),
             tm_reporting_limit = 10 * 1024 * 1024 * 1024,
             tm_batch_size = 1 + (128 * 1024) sdiv buffer_size\<rparr>)"

definition TM_getQueue ::
    "'b ratelimit \<Rightarrow> int \<Rightarrow> 'b TriggerManager \<times> dms \<Rightarrow> 'b ManagedQueue \<times> 'b TriggerManager \<times> dms" where
  "TM_getQueue rl qid = (\<lambda>(tm, s).
     case mget (tm_queues tm) qid of
       Some mq \<Rightarrow> (mq, tm, s)
     | None \<Rightarrow>
         (let (q, s1) = DM_GetQueue qid s;
              mq = \<lparr>mq_queue = q,
                    mq_trigger_limiter =
                      NewBucketWithRate rl (tm_trigger_limit tm) (go_int64 (tm_trigger_limit tm)),
                    mq_reporting_limiter =
                      NewBucketWithRate rl (tm_reporting_limit tm) (go_int64 (tm_reporting_limit tm)),
                    mq_vt = tm_vc tm\<rparr>
          in (mq, tm\<lparr>tm_queues := mput qid mq (tm_queues tm)\<rparr>, s1)))"

definition TM_setQueue :: "int \<Rightarrow> 'b ManagedQueue \<Rightarrow> 'b TriggerManager \<Rightarrow> 'b TriggerManager" where
  "TM_setQueue qid mq tm = tm\<lparr>tm_queues := mput qid mq (tm_queues tm)\<rparr>"

definition TM_ConfigureRateLimits ::
    "'b ratelimit \<Rightarrow> (int, float64) gomap \<Rightarrow> 'b TriggerManager \<times> dms \<Rightarrow> 'b TriggerManager \<times> dms" where
  "TM_ConfigureRateLimits rl limits st =
     fold (\<lambda>(queue_id, limit) st.
         (let (mq, tm, s) = TM_getQueue rl queue_id st;
              limit_bytes = limit * 1024 * 1024
          in (TM_setQueue queue_id
                (mq\<lparr>mq_reporting_limiter := NewBucketWithRate rl limit_bytes (go_int64 limit_bytes)\<rparr>) tm, s)))
       limits st"

definition MQ_TriggerLocal ::
    "'b ratelimit \<Rightarrow> int \<Rightarrow> 'b ManagedQueue \<Rightarrow> u64 \<Rightarrow> u64 list \<Rightarrow> 'b TriggerManager \<times> dms \<Rightarrow>
       (bool \<times> breadcrumb_map \<times> 'b TriggerManager \<times> dms) result" where
  "MQ_TriggerLocal rl qid mq trigger_id trace_ids = (\<lambda>(tm, s).
     let (av, lim) = Available rl (mq_trigger_limiter mq) in
     if av < 0 then
       Inr (False, [], TM_setQueue qid (mq\<lparr>mq_trigger_limiter := lim\<rparr>) tm,
            upd_metrics (mq_queue mq) (\<lambda>m. m\<lparr>tm_dropped := tm_dropped m + 1\<rparr>) s)
     else
       (let tm1 = TM_setQueue qid (mq\<lparr>mq_trigger_limiter := Take rl 1 lim\<rparr>) tm;
            s1 = upd_metrics (mq_queue mq) (\<lambda>m. m\<lparr>tm_local := tm_local m + 1\<rparr>) s
        in rbind (TQ_Trigger (mq_queue mq) trigger_id trace_ids s1)
             (\<lambda>(breadcrumbs, s2). Inr (True, breadcrumbs, tm1, s2))))"

definition MQ_TriggerRemote ::
    "'b ManagedQueue \<Rightarrow> u64 \<Rightarrow> u64 list \<Rightarrow> dms \<Rightarrow> (breadcrumb_map \<times> dms) result" where
  "MQ_TriggerRemote mq trigger_id trace_ids s =
     TQ_Trigger (mq_queue mq) trigger_id trace_ids
       (upd_metrics (mq_queue mq) (\<lambda>m. m\<lparr>tm_remote := tm_remote m + 1\<rparr>) s)"

section \<open>Choosing what to report next\<close>

text \<open>One iteration of the loop over the queues: the updated entry, and the best candidate so far
  with its virtual time.\<close>

definition scan_queue ::
    "'b ratelimit \<Rightarrow> int \<Rightarrow> dms \<Rightarrow> int \<times> 'b ManagedQueue \<Rightarrow>
       (int, 'b ManagedQueue) gomap \<times> (int \<times> int) option \<Rightarrow>
       (int, 'b ManagedQueue) gomap \<times> (int \<times> int) option" where
  "scan_queue rl vc s = (\<lambda>(qid, candidate) (visited, best).
     if tq_buffer_count (h_queues s (mq_queue candidate)) = 0
     then (visited @ [(qid, candidate\<lparr>mq_vt := vc\<rparr>)], best)
     else
       (let (av, lim) = Available rl (mq_reporting_limiter candidate);
            candidate1 = candidate\<lparr>mq_reporting_limiter := lim\<rparr>
        in
          if av < 0 then (visited @ [(qid, candidate1\<lparr>mq_vt := vc\<rparr>)], best)
          else
            (visited @ [(qid, candidate1)],
             case best of
               None \<Rightarrow> Some (qid, mq_vt candidate1)
             | Some (best_id, best_vt) \<Rightarrow>
                 if mq_vt candidate1 < best_vt then Some (qid, mq_vt candidate1) else best)))"

definition scan_queues ::
    "'b ratelimit \<Rightarrow> 'b TriggerManager \<Rightarrow> dms \<Rightarrow> (int, 'b ManagedQueue) gomap \<times> (int \<times> int) option" where
  "scan_queues rl tm s = fold (scan_queue rl (tm_vc tm) s) (tm_queues tm) ([], None)"

definition getNextBuffersToReport ::
    "'b ratelimit \<Rightarrow> 'b TriggerManager \<times> dms \<Rightarrow> (buffer list \<times> 'b TriggerManager \<times> dms) result" where
  "getNextBuffersToReport rl = (\<lambda>(tm, s).
     let (queues, best) = scan_queues rl tm s;
         tm1 = tm\<lparr>tm_queues := queues\<rparr>
     in
       case best of
         None \<Rightarrow> Inr ([], tm1, s)
       | Some (qid, _) \<Rightarrow>
           rbind (deref (mget queues qid)) (\<lambda>mq.
           rbind (TQ_ReportNext (mq_queue mq) s) (\<lambda>(buffers, s1).
             if len buffers > 0 then
               (let mq1 = mq\<lparr>mq_vt := mq_vt mq + len buffers,
                             mq_reporting_limiter :=
                               Take rl (len buffers * tm_buffer_size tm1) (mq_reporting_limiter mq)\<rparr>
                in Inr (buffers, (TM_setQueue qid mq1 tm1)\<lparr>tm_vc := mq_vt mq1\<rparr>, s1))
             else Inr (buffers, tm1, s1))))"

partial_function (option) batch_loop ::
    "'b ratelimit \<Rightarrow> buffer list \<Rightarrow> 'b TriggerManager \<times> dms \<Rightarrow>
       (buffer list \<times> 'b TriggerManager \<times> dms) result option" where
  "batch_loop rl buffers st =
     (if len buffers < tm_batch_size (fst st) \<and> td_buffer_count (dm_triggered (snd st)) > 0 then
        (case getNextBuffersToReport rl st of
           Inl e \<Rightarrow> Some (Inl e)
         | Inr r \<Rightarrow> batch_loop rl (buffers @ fst r) (snd r))
      else Some (Inr (buffers, st)))"

declare batch_loop.simps [code]

definition GetNextBatchToReport ::
    "'b ratelimit \<Rightarrow> 'b TriggerManager \<times> dms \<Rightarrow> (buffer list \<times> 'b TriggerManager \<times> dms) result" where
  "GetNextBatchToReport rl st = returns (batch_loop rl [] st)"

section \<open>The invariant\<close>

text \<open>Every queue of the data manager is managed, and every managed queue is one of its queues.\<close>

definition tm_inv :: "'b TriggerManager \<Rightarrow> dms \<Rightarrow> bool" where
  "tm_inv tm s \<longleftrightarrow> mok (tm_queues tm) \<and>
     (\<forall>k q. live_queue s k q \<longleftrightarrow> (\<exists>mq. mget (tm_queues tm) k = Some mq \<and> mq_queue mq = q))"

lemma tm_inv_managed: "tm_inv tm s \<Longrightarrow> mget (tm_queues tm) k = Some mq \<Longrightarrow> live_queue s k (mq_queue mq)"
  by (auto simp: tm_inv_def)

lemma tm_inv_cong: "tm_inv tm s \<Longrightarrow> (\<And>k q. live_queue s' k q \<longleftrightarrow> live_queue s k q) \<Longrightarrow> tm_inv tm s'"
  by (simp add: tm_inv_def)

lemma tm_inv_set:
  assumes "tm_inv tm s" "mget (tm_queues tm) k = Some mq" "mq_queue mq' = mq_queue mq"
  shows "tm_inv (TM_setQueue k mq' tm) s"
  using assms by (auto simp: tm_inv_def TM_setQueue_def mget_mput)

lemma TM_getQueue_ok:
  assumes inv: "dm_inv s" and t: "tm_inv tm s" and g: "TM_getQueue rl k (tm, s) = (mq, tm', s')"
  shows "dm_inv s' \<and> tm_inv tm' s' \<and> held s' = held s \<and> mget (tm_queues tm') k = Some mq \<and>
    live_queue s' k (mq_queue mq) \<and> tm_batch_size tm' = tm_batch_size tm \<and> dm_now s' = dm_now s \<and>
    dm_traces s' = dm_traces s \<and> h_traces s' = h_traces s"
proof (cases "mget (tm_queues tm) k")
  case None
  obtain q s1 where d: "DM_GetQueue k s = (q, s1)" by (cases "DM_GetQueue k s")
  note n = DM_GetQueue_ok [OF inv d]
  have nq: "mget (td_queues (dm_triggered s)) k = None"
    using t None by (cases "mget (td_queues (dm_triggered s)) k") (auto simp: tm_inv_def live_queue_def)
  then have lq: "live_queue s1 l r \<longleftrightarrow> (if l = k then r = q else live_queue s l r)" for l r
    using d by (auto simp: DM_GetQueue_def initTriggerQueue_def upd_defs Let_def live_queue_def mget_mput)
  have x: "s' = s1" "mq_queue mq = q" "tm' = tm\<lparr>tm_queues := mput k mq (tm_queues tm)\<rparr>"
    using g None d by (auto simp: TM_getQueue_def Let_def)
  have "tm_inv tm' s'" using t by (auto simp: tm_inv_def x lq mget_mput)
  with n x show ?thesis by (simp add: mget_mput)
next
  case (Some mq')
  with assms show ?thesis by (auto simp: TM_getQueue_def tm_inv_managed)
qed

lemma TM_ConfigureRateLimits_ok:
  assumes "dm_inv s" "tm_inv tm s" "TM_ConfigureRateLimits rl limits (tm, s) = (tm', s')"
  shows "dm_inv s' \<and> tm_inv tm' s' \<and> held s' = held s \<and> tm_batch_size tm' = tm_batch_size tm"
  using assms
proof (induction limits arbitrary: tm s)
  case Nil
  then show ?case by (simp add: TM_ConfigureRateLimits_def)
next
  case (Cons x limits)
  obtain k limit where x: "x = (k, limit)" by (cases x)
  obtain mq tm1 s1 where g: "TM_getQueue rl k (tm, s) = (mq, tm1, s1)" by (cases "TM_getQueue rl k (tm, s)")
  let ?mq = "mq\<lparr>mq_reporting_limiter := NewBucketWithRate rl (limit * 1024 * 1024) (go_int64 (limit * 1024 * 1024))\<rparr>"
  note n = TM_getQueue_ok [OF Cons.prems(1,2) g]
  have t1: "tm_inv (TM_setQueue k ?mq tm1) s1" by (rule tm_inv_set [of _ _ _ mq]) (use n in auto)
  have "TM_ConfigureRateLimits rl limits (TM_setQueue k ?mq tm1, s1) = (tm', s')"
    using Cons.prems(3) g by (simp add: TM_ConfigureRateLimits_def x Let_def)
  with Cons.IH [OF _ t1] n show ?case by (simp add: TM_setQueue_def)
qed

lemma MQ_TriggerLocal_ok [ok_rules]:
  assumes inv: "dm_inv s" and t: "tm_inv tm s" and mq: "mget (tm_queues tm) k = Some mq"
  shows "ok (MQ_TriggerLocal rl k mq b ids (tm, s)) (\<lambda>(fired, bc, tm', s'). dm_inv s' \<and> tm_inv tm' s' \<and>
    held s' = held s \<and> dm_now s' = dm_now s \<and> tm_batch_size tm' = tm_batch_size tm \<and>
    (fired \<longleftrightarrow> 0 \<le> fst (Available rl (mq_trigger_limiter mq))) \<and>
    (if fired then
       (\<exists>f. live_fired s' \<lparr>queue_id = k, base_trace_id = b\<rparr> f \<and> (\<forall>i \<in> set ids. linked s' f i)) \<and>
       (\<forall>i. mget bc i = (if i \<in> set ids \<and> crumbs s i \<noteq> [] then Some (crumbs s i) else None))
     else bc = [] \<and> dm_traces s' = dm_traces s \<and> h_traces s' = h_traces s))"
proof -
  obtain av lim where av: "Available rl (mq_trigger_limiter mq) = (av, lim)" by (cases "Available rl (mq_trigger_limiter mq)")
  have q: "live_queue s k (mq_queue mq)" using tm_inv_managed [OF t mq] .
  note m = upd_metrics_ok [OF inv]
  have cr: "crumbs (upd_metrics q g s) i = crumbs s i" for q g i by (simp add: crumbs_def upd_defs split: option.split)
  have lq: "live_queue (upd_metrics q g s) k r \<longleftrightarrow> live_queue s k r" for q g k r by (simp add: live_queue_def upd_defs)
  have tr: "dm_traces (upd_metrics q g s) = dm_traces s" "h_traces (upd_metrics q g s) = h_traces s"
    "dm_now (upd_metrics q g s) = dm_now s" for q g by (simp_all add: upd_defs)
  show ?thesis
  proof (cases "av < 0")
    case True
    then show ?thesis
      using m tr tm_inv_set [OF tm_inv_cong [OF t lq] mq]
      by (simp add: MQ_TriggerLocal_def av) (simp add: TM_setQueue_def)
  next
    case False
    let ?s1 = "upd_metrics (mq_queue mq) (\<lambda>m. m\<lparr>tm_local := tm_local m + 1\<rparr>) s"
    let ?tm1 = "TM_setQueue k (mq\<lparr>mq_trigger_limiter := Take rl 1 lim\<rparr>) tm"
    have t1: "tm_inv ?tm1 s" by (rule tm_inv_set [OF t mq]) simp
    have q1: "live_queue ?s1 k (mq_queue mq)" using q lq by blast
    have "ok (rbind (TQ_Trigger (mq_queue mq) b ids ?s1) (\<lambda>(bc, s2). Inr (True, bc, ?tm1, s2)))
      (\<lambda>(fired, bc, tm', s'). dm_inv s' \<and> tm_inv tm' s' \<and> held s' = held s \<and> dm_now s' = dm_now s \<and>
        tm_batch_size tm' = tm_batch_size tm \<and> fired \<and>
        (\<exists>f. live_fired s' \<lparr>queue_id = k, base_trace_id = b\<rparr> f \<and> (\<forall>i \<in> set ids. linked s' f i)) \<and>
        (\<forall>i. mget bc i = (if i \<in> set ids \<and> crumbs s i \<noteq> [] then Some (crumbs s i) else None)))"
      by (rule ok_bind [OF TQ_Trigger_ok [OF m(1) q1]])
        (use m tr lq cr tm_inv_cong [OF t1] in \<open>auto simp: TM_setQueue_def\<close>)
    then show ?thesis using False by (auto simp: MQ_TriggerLocal_def av elim!: ok_mono)
  qed
qed

lemma MQ_TriggerRemote_ok [ok_rules]:
  assumes inv: "dm_inv s" and t: "tm_inv tm s" and mq: "mget (tm_queues tm) k = Some mq"
  shows "ok (MQ_TriggerRemote mq b ids s) (\<lambda>(bc, s'). dm_inv s' \<and> tm_inv tm s' \<and>
    held s' = held s \<and> dm_now s' = dm_now s \<and>
    (\<exists>f. live_fired s' \<lparr>queue_id = k, base_trace_id = b\<rparr> f \<and> (\<forall>i \<in> set ids. linked s' f i)) \<and>
    (\<forall>i. mget bc i = (if i \<in> set ids \<and> crumbs s i \<noteq> [] then Some (crumbs s i) else None)))"
proof -
  let ?s1 = "upd_metrics (mq_queue mq) (\<lambda>m. m\<lparr>tm_remote := tm_remote m + 1\<rparr>) s"
  note m = upd_metrics_ok [OF inv]
  have cr: "crumbs ?s1 i = crumbs s i" for i by (simp add: crumbs_def upd_defs split: option.split)
  have lq: "live_queue ?s1 k r \<longleftrightarrow> live_queue s k r" for k r by (simp add: live_queue_def upd_defs)
  have q1: "live_queue ?s1 k (mq_queue mq)" using tm_inv_managed [OF t mq] lq by blast
  have now: "dm_now ?s1 = dm_now s" by (simp add: upd_defs)
  show ?thesis
    unfolding MQ_TriggerRemote_def
    by (rule ok_mono [OF TQ_Trigger_ok [OF m(1) q1]]) (use m lq cr now tm_inv_cong [OF t] in auto)
qed

section \<open>The scan over the queues\<close>

definition eligible :: "'b ratelimit \<Rightarrow> dms \<Rightarrow> 'b ManagedQueue \<Rightarrow> bool" where
  "eligible rl s mq \<longleftrightarrow> tq_buffer_count (h_queues s (mq_queue mq)) \<noteq> 0 \<and>
     0 \<le> fst (Available rl (mq_reporting_limiter mq))"

definition scanned :: "'b ratelimit \<Rightarrow> int \<Rightarrow> dms \<Rightarrow> 'b ManagedQueue \<Rightarrow> 'b ManagedQueue" where
  "scanned rl vc s mq =
     (if tq_buffer_count (h_queues s (mq_queue mq)) = 0 then mq\<lparr>mq_vt := vc\<rparr>
      else
        (let mq1 = mq\<lparr>mq_reporting_limiter := snd (Available rl (mq_reporting_limiter mq))\<rparr>
         in if eligible rl s mq then mq1 else mq1\<lparr>mq_vt := vc\<rparr>))"

lemma scanned_queue [simp]: "mq_queue (scanned rl vc s mq) = mq_queue mq"
  by (simp add: scanned_def Let_def)

lemma scanned_vt: "eligible rl s mq \<Longrightarrow> mq_vt (scanned rl vc s mq) = mq_vt mq"
  by (simp add: scanned_def Let_def eligible_def)

lemma scan_fold:
  "\<exists>best. fold (scan_queue rl vc s) m ([], None) = (map (\<lambda>(k, mq). (k, scanned rl vc s mq)) m, best) \<and>
     (best = None \<longleftrightarrow> (\<forall>(k, mq) \<in> set m. \<not> eligible rl s mq)) \<and>
     (\<forall>k vt. best = Some (k, vt) \<longrightarrow> (\<exists>mq. (k, mq) \<in> set m \<and> eligible rl s mq \<and> vt = mq_vt mq) \<and>
        (\<forall>(k', mq') \<in> set m. eligible rl s mq' \<longrightarrow> vt \<le> mq_vt mq'))"
proof (induction m rule: rev_induct)
  case Nil
  then show ?case by simp
next
  case (snoc x m)
  obtain k mq where x: "x = (k, mq)" by (cases x)
  obtain av lim where av: "Available rl (mq_reporting_limiter mq) = (av, lim)"
    by (cases "Available rl (mq_reporting_limiter mq)")
  from snoc obtain best where b: "fold (scan_queue rl vc s) m ([], None) = (map (\<lambda>(k, mq). (k, scanned rl vc s mq)) m, best)"
    "best = None \<longleftrightarrow> (\<forall>(k, mq) \<in> set m. \<not> eligible rl s mq)"
    "\<And>k vt. best = Some (k, vt) \<Longrightarrow> (\<exists>mq. (k, mq) \<in> set m \<and> eligible rl s mq \<and> vt = mq_vt mq) \<and>
        (\<forall>(k', mq') \<in> set m. eligible rl s mq' \<longrightarrow> vt \<le> mq_vt mq')"
    by blast
  show ?case
  proof (cases "eligible rl s mq")
    case False
    then have "scan_queue rl vc s x (map (\<lambda>(k, mq). (k, scanned rl vc s mq)) m, best) =
        (map (\<lambda>(k, mq). (k, scanned rl vc s mq)) (m @ [x]), best)"
      by (auto simp: scan_queue_def x av scanned_def eligible_def Let_def)
    with b False show ?thesis by (auto simp: x)
  next
    case True
    then have e: "tq_buffer_count (h_queues s (mq_queue mq)) \<noteq> 0" "0 \<le> av" by (simp_all add: eligible_def av)
    let ?b = "case best of None \<Rightarrow> Some (k, mq_vt mq)
      | Some (bk, bv) \<Rightarrow> if mq_vt mq < bv then Some (k, mq_vt mq) else best"
    have "scan_queue rl vc s x (map (\<lambda>(k, mq). (k, scanned rl vc s mq)) m, best) =
        (map (\<lambda>(k, mq). (k, scanned rl vc s mq)) (m @ [x]), ?b)"
      using e True by (simp add: scan_queue_def x av scanned_def Let_def split: option.split)
    moreover have "?b = None \<longleftrightarrow> (\<forall>(k, mq) \<in> set (m @ [x]). \<not> eligible rl s mq)"
      using True by (auto simp: x split: option.splits)
    moreover have "(\<exists>mq. (k', mq) \<in> set (m @ [x]) \<and> eligible rl s mq \<and> vt = mq_vt mq) \<and>
        (\<forall>(k', mq') \<in> set (m @ [x]). eligible rl s mq' \<longrightarrow> vt \<le> mq_vt mq')" if "?b = Some (k', vt)" for k' vt
    proof (cases best)
      case None
      with that True b(2) show ?thesis by (force simp: x)
    next
      case (Some p)
      obtain bk bv where p: "p = (bk, bv)" by (cases p)
      note b3 = b(3) [OF Some [unfolded p]]
      show ?thesis
      proof (cases "mq_vt mq < bv")
        case True
        with that Some p have "k' = k" "vt = mq_vt mq" by auto
        with True b3 \<open>eligible rl s mq\<close> show ?thesis by (fastforce simp: x)
      next
        case False
        with that Some p have "k' = bk" "vt = bv" by auto
        with False b3 show ?thesis by (fastforce simp: x)
      qed
    qed
    ultimately show ?thesis using b(1) by simp
  qed
qed

lemma scan_queues_ok:
  assumes t: "tm_inv tm s"
  shows "\<exists>best.
    scan_queues rl tm s = (map (\<lambda>(k, mq). (k, scanned rl (tm_vc tm) s mq)) (tm_queues tm), best) \<and>
    (best = None \<longrightarrow> (\<forall>k mq. mget (tm_queues tm) k = Some mq \<longrightarrow> \<not> eligible rl s mq)) \<and>
    (\<forall>k vt. best = Some (k, vt) \<longrightarrow>
       (\<exists>mq. mget (tm_queues tm) k = Some mq \<and> eligible rl s mq \<and> vt = mq_vt mq) \<and>
       (\<forall>k' mq'. mget (tm_queues tm) k' = Some mq' \<longrightarrow> eligible rl s mq' \<longrightarrow> vt \<le> mq_vt mq'))"
proof -
  have m: "mok (tm_queues tm)" using t by (simp add: tm_inv_def)
  obtain best where b: "fold (scan_queue rl (tm_vc tm) s) (tm_queues tm) ([], None) =
      (map (\<lambda>(k, mq). (k, scanned rl (tm_vc tm) s mq)) (tm_queues tm), best)"
    "best = None \<longleftrightarrow> (\<forall>(k, mq) \<in> set (tm_queues tm). \<not> eligible rl s mq)"
    "\<forall>k vt. best = Some (k, vt) \<longrightarrow> (\<exists>mq. (k, mq) \<in> set (tm_queues tm) \<and> eligible rl s mq \<and> vt = mq_vt mq) \<and>
        (\<forall>(k', mq') \<in> set (tm_queues tm). eligible rl s mq' \<longrightarrow> vt \<le> mq_vt mq')"
    using scan_fold [of rl "tm_vc tm" s "tm_queues tm"] by blast
  show ?thesis
    by (rule exI [of _ best]) (use b m in \<open>auto simp: scan_queues_def mget_set\<close>)
qed

lemma mget_map_values: "mget (map (\<lambda>(k, v). (k, g v)) m) k = map_option g (mget m k)"
  by (induction m) auto

lemma mok_map_values: "mok (map (\<lambda>(k, v). (k, g v)) m) \<longleftrightarrow> mok m"
  by (simp add: mok_def comp_def case_prod_beta')

lemma scanned_tm_inv:
  assumes "tm_inv tm s"
  shows "tm_inv (tm\<lparr>tm_queues := map (\<lambda>(k, mq). (k, scanned rl vc s mq)) (tm_queues tm)\<rparr>) s"
  using assms by (auto simp: tm_inv_def mok_map_values mget_map_values)

text \<open>The pending work: the ids in the trees of all queues.\<close>

definition pending :: "dms \<Rightarrow> int" where
  "pending s = msum (\<lambda>(k, q). Size (tq_reporting (h_queues s q))) (td_queues (dm_triggered s))"

lemma pending_nonneg: "dm_inv s \<Longrightarrow> 0 \<le> pending s"
  unfolding pending_def
proof (rule msum_nonneg, clarify)
  fix k q assume inv: "dm_inv s" and "(k, q) \<in> set (td_queues (dm_triggered s))"
  then have "live_queue s k q" by (simp add: live_queue_def dm_inv_def inv_def queues_ok_def mget_set)
  from tq.card_ok [OF queue_okD(4) [OF dm_queue_ok [OF inv this]]]
  show "0 \<le> Size (tq_reporting (h_queues s q))" by simp
qed

lemma pending_step:
  assumes inv: "dm_inv s" and q: "live_queue s k q" and quiet: "quiet q s s'"
  shows "pending s' - pending s = Size (tq_reporting (h_queues s' q)) - Size (tq_reporting (h_queues s q))"
proof -
  have m: "mok (td_queues (dm_triggered s))" using inv by (simp add: dm_inv_def inv_def queues_ok_def)
  have "r \<noteq> q" if "(l, r) \<in> set (td_queues (dm_triggered s))" "l \<noteq> k" for l r
    using that q m live_queue_inj [of _ s k q l] inv by (auto simp: live_queue_def mget_set dm_inv_def inv_def)
  then have "tq_reporting (h_queues s' r) = tq_reporting (h_queues s r)"
    if "(l, r) \<in> set (td_queues (dm_triggered s))" "l \<noteq> k" for l r
    using that quiet by (auto simp: quiet_def same_queue_def)
  then have "Size (tq_reporting (h_queues s q)) +
      msum (\<lambda>(k, q). Size (tq_reporting (h_queues s' q))) (td_queues (dm_triggered s)) =
      Size (tq_reporting (h_queues s' q)) + msum (\<lambda>(k, q). Size (tq_reporting (h_queues s q))) (td_queues (dm_triggered s))"
    using msum_change [OF m, of k q "\<lambda>(k, q). Size (tq_reporting (h_queues s' q))"
        "\<lambda>(k, q). Size (tq_reporting (h_queues s q))"] q by (simp add: live_queue_def)
  with quiet show ?thesis by (simp add: pending_def quiet_def)
qed

section \<open>Reporting\<close>

text \<open>With no eligible queue nothing happens; otherwise an eligible queue of least virtual time
  gives up one pending trigger.\<close>

definition report_step ::
    "'b ratelimit \<Rightarrow> 'b TriggerManager \<times> dms \<Rightarrow> buffer list \<times> 'b TriggerManager \<times> dms \<Rightarrow> bool" where
  "report_step rl = (\<lambda>(tm, s) (bufs, tm', s').
     dm_inv s' \<and> tm_inv tm' s' \<and> held s = mset bufs + held s' \<and> dm_now s' = dm_now s \<and>
     tm_batch_size tm' = tm_batch_size tm \<and>
     (if (\<exists>k mq. mget (tm_queues tm) k = Some mq \<and> eligible rl s mq) then
        pending s' = pending s - 1 \<and>
        (\<exists>k mq. mget (tm_queues tm) k = Some mq \<and> eligible rl s mq \<and>
           (\<forall>k' mq'. mget (tm_queues tm) k' = Some mq' \<and> eligible rl s mq' \<longrightarrow> mq_vt mq \<le> mq_vt mq') \<and>
           (bufs \<noteq> [] \<longrightarrow> tm_vc tm' = mq_vt mq + len bufs))
      else bufs = [] \<and> s' = s \<and> tm_vc tm' = tm_vc tm \<and>
        tm_queues tm' = map (\<lambda>(k, mq). (k, scanned rl (tm_vc tm) s mq)) (tm_queues tm)))"

lemma getNextBuffersToReport_ok [ok_rules]:
  assumes inv: "dm_inv s" and t: "tm_inv tm s"
  shows "ok (getNextBuffersToReport rl (tm, s)) (report_step rl (tm, s))"
proof -
  let ?qs = "map (\<lambda>(k, mq). (k, scanned rl (tm_vc tm) s mq)) (tm_queues tm)"
  let ?tm1 = "tm\<lparr>tm_queues := ?qs\<rparr>"
  obtain best where b: "scan_queues rl tm s = (?qs, best)"
    "\<And>k mq. best = None \<Longrightarrow> mget (tm_queues tm) k = Some mq \<Longrightarrow> \<not> eligible rl s mq"
    "\<And>k vt. best = Some (k, vt) \<Longrightarrow> \<exists>mq. mget (tm_queues tm) k = Some mq \<and> eligible rl s mq \<and> vt = mq_vt mq"
    "\<And>k vt k' mq'. best = Some (k, vt) \<Longrightarrow> mget (tm_queues tm) k' = Some mq' \<Longrightarrow> eligible rl s mq' \<Longrightarrow> vt \<le> mq_vt mq'"
    using scan_queues_ok [OF t, of rl] by blast
  have t1: "tm_inv ?tm1 s" using scanned_tm_inv [OF t] .
  show ?thesis
  proof (cases best)
    case None
    then have "\<not> (\<exists>k mq. mget (tm_queues tm) k = Some mq \<and> eligible rl s mq)" using b(2) by blast
    with None inv t1 show ?thesis by (simp add: getNextBuffersToReport_def b(1) report_step_def)
  next
    case (Some p)
    obtain k vt where p: "p = (k, vt)" by (cases p)
    then obtain mq where mq: "mget (tm_queues tm) k = Some mq" "eligible rl s mq" "vt = mq_vt mq"
      using b(3) Some by blast
    have least: "mq_vt mq \<le> mq_vt mq'" if "mget (tm_queues tm) k' = Some mq'" "eligible rl s mq'" for k' mq'
      using b(4) Some p that mq(3) by blast
    let ?mq = "scanned rl (tm_vc tm) s mq"
    have g: "mget ?qs k = Some ?mq" by (simp add: mget_map_values mq(1))
    have q: "live_queue s k (mq_queue mq)" using tm_inv_managed [OF t mq(1)] .
    have "0 < tq_buffer_count (h_queues s (mq_queue mq))"
      using mq(2) queue_buffers_nonneg [OF inv q] by (simp add: eligible_def)
    then have pos: "0 < Size (tq_reporting (h_queues s (mq_queue mq)))" by (rule queue_buffers_tree [OF inv q])
    from TQ_ReportNext_ok [OF inv q pos] obtain bufs s1 c where r: "TQ_ReportNext (mq_queue mq) s = Inr (bufs, s1)"
      "dm_inv s1" "held s = mset bufs + held s1" "quiet (mq_queue mq) s s1"
      "tree_mset (tq_reporting (h_queues s (mq_queue mq))) = add_mset c (tree_mset (tq_reporting (h_queues s1 (mq_queue mq))))"
      by (auto simp: ok_iff)
    have q1: "live_queue s1 k (mq_queue mq)" using quiet_live_queue [OF r(4)] q by blast
    have "Size (tq_reporting (h_queues s1 (mq_queue mq))) = Size (tq_reporting (h_queues s (mq_queue mq))) - 1"
      using tq.card_ok [OF queue_okD(4) [OF dm_queue_ok [OF inv q]]]
        tq.card_ok [OF queue_okD(4) [OF dm_queue_ok [OF r(2) q1]]] r(5) by simp
    then have pend: "pending s1 = pending s - 1" using pending_step [OF inv q r(4)] by simp
    have t2: "tm_inv ?tm1 s1" by (rule tm_inv_cong [OF t1 quiet_live_queue [OF r(4)]])
    have t3: "tm_inv (TM_setQueue k mq' ?tm1) s1" if "mq_queue mq' = mq_queue mq" for mq'
      by (rule tm_inv_set [OF t2, of k ?mq]) (use g that in auto)
    have ex: "\<exists>k mq. mget (tm_queues tm) k = Some mq \<and> eligible rl s mq" using mq by blast
    have now: "dm_now s1 = dm_now s" using r(4) by (simp add: quiet_def)
    let ?mq2 = "?mq\<lparr>mq_vt := mq_vt ?mq + len bufs,
       mq_reporting_limiter := Take rl (len bufs * tm_buffer_size ?tm1) (mq_reporting_limiter ?mq)\<rparr>"
    let ?tm2 = "if len bufs > 0 then (TM_setQueue k ?mq2 ?tm1)\<lparr>tm_vc := mq_vt ?mq2\<rparr> else ?tm1"
    have "getNextBuffersToReport rl (tm, s) = Inr (bufs, ?tm2, s1)"
      by (simp add: getNextBuffersToReport_def b(1) Some p g r(1))
    moreover have "tm_inv ?tm2 s1" using t2 t3 [of ?mq2] by (simp add: tm_inv_def)
    moreover have "tm_batch_size ?tm2 = tm_batch_size tm" by (simp add: TM_setQueue_def)
    moreover have "\<exists>k mq. mget (tm_queues tm) k = Some mq \<and> eligible rl s mq \<and>
        (\<forall>k' mq'. mget (tm_queues tm) k' = Some mq' \<and> eligible rl s mq' \<longrightarrow> mq_vt mq \<le> mq_vt mq') \<and>
        (bufs \<noteq> [] \<longrightarrow> tm_vc ?tm2 = mq_vt mq + len bufs)"
      using mq least scanned_vt [OF mq(2)] by (intro exI [of _ k] exI [of _ mq]) auto
    ultimately show ?thesis using ex r(2,3) now pend by (simp add: report_step_def)
  qed
qed

text \<open>The readings that the queues with data are away from having tokens.\<close>

definition polls :: "('b \<Rightarrow> nat) \<Rightarrow> 'b TriggerManager \<Rightarrow> dms \<Rightarrow> nat" where
  "polls m tm s = sum_list (map (\<lambda>(k, mq). if tq_buffer_count (h_queues s (mq_queue mq)) = 0 then 0
     else m (mq_reporting_limiter mq)) (tm_queues tm))"

lemma polls_decrease:
  assumes inv: "dm_inv s" and t: "tm_inv tm s" and pos: "0 < td_buffer_count (dm_triggered s)"
    and m: "refill_measure rl m"
    and none: "\<And>k mq. mget (tm_queues tm) k = Some mq \<Longrightarrow> \<not> eligible rl s mq"
    and q: "tm_queues tm' = map (\<lambda>(k, mq). (k, scanned rl vc s mq)) (tm_queues tm)"
  shows "polls m tm' s < polls m tm s"
proof -
  let ?h = "\<lambda>(k :: int, mq). if tq_buffer_count (h_queues s (mq_queue mq)) = 0 then 0 else m (mq_reporting_limiter mq)"
  let ?g = "\<lambda>(k :: int, mq). ?h (k, scanned rl vc s mq)"
  have ok: "mok (tm_queues tm)" using t by (simp add: tm_inv_def)
  have less: "?g p < ?h p" if p: "p \<in> set (tm_queues tm)" "tq_buffer_count (h_queues s (mq_queue (snd p))) \<noteq> 0" for p
  proof -
    obtain k mq where kq: "p = (k, mq)" by (cases p)
    then have "\<not> eligible rl s mq" using p(1) ok none [of k mq] by (simp add: mget_set)
    with p(2) m show ?thesis by (simp add: kq eligible_def scanned_def Let_def refill_measure_def)
  qed
  then have le: "?g p \<le> ?h p" if "p \<in> set (tm_queues tm)" for p
    using that less [of p] by (cases p; cases "tq_buffer_count (h_queues s (mq_queue (snd p))) = 0") (auto intro: less_imp_le)
  obtain k r where r: "live_queue s k r" "0 < tq_buffer_count (h_queues s r)"
    using triggered_buffer_queue [OF inv pos] by metis
  then obtain mq where mq: "mget (tm_queues tm) k = Some mq" "mq_queue mq = r" using t by (auto simp: tm_inv_def)
  have p: "(k, mq) \<in> set (tm_queues tm)" using mq(1) ok by (simp add: mget_set)
  have "sum_list (map ?g (tm_queues tm)) < sum_list (map ?h (tm_queues tm))"
    by (rule sum_list_strict_mono_one [OF le p]) (use less [OF p] r mq in auto)
  then show ?thesis by (simp add: polls_def q comp_def case_prod_beta')
qed

text \<open>The batch loop ends: a round uses up a pending trigger, or else brings every queue with data
  closer to having tokens.\<close>

lemma batch_loop_ok:
  assumes "dm_inv s" "tm_inv tm s" and m: "refill_measure rl m"
  shows "ok (returns (batch_loop rl bufs (tm, s))) (\<lambda>(bufs', tm', s'). dm_inv s' \<and> tm_inv tm' s' \<and>
    held s + mset bufs = mset bufs' + held s' \<and> dm_now s' = dm_now s \<and> tm_batch_size tm' = tm_batch_size tm \<and>
    (tm_batch_size tm \<le> len bufs' \<or> td_buffer_count (dm_triggered s') \<le> 0))"
  using assms(1,2)
proof (induction "(nat (pending s), polls m tm s)" arbitrary: bufs tm s
    rule: wf_induct_rule [OF wf_lex_prod [OF wf_less wf_less]])
  case (1 tm s bufs)
  note prems = \<open>dm_inv s\<close> \<open>tm_inv tm s\<close>
  show ?case
  proof (cases "len bufs < tm_batch_size tm \<and> 0 < td_buffer_count (dm_triggered s)")
    case False
    then show ?thesis using prems by (subst batch_loop.simps) auto
  next
    case True
    from getNextBuffersToReport_ok [OF prems, of rl] obtain b tm1 s1 where
      g: "getNextBuffersToReport rl (tm, s) = Inr (b, tm1, s1)" "report_step rl (tm, s) (b, tm1, s1)"
      by (auto simp: ok_iff)
    have i1: "dm_inv s1" "tm_inv tm1 s1" using g(2) by (simp_all add: report_step_def)
    have lt: "((nat (pending s1), polls m tm1 s1), (nat (pending s), polls m tm s)) \<in> {(x, y). x < y} <*lex*> {(x, y). x < y}"
    proof (cases "\<exists>k mq. mget (tm_queues tm) k = Some mq \<and> eligible rl s mq")
      case True
      with g(2) have "pending s1 = pending s - 1" by (simp add: report_step_def)
      then show ?thesis using pending_nonneg [OF i1(1)] by simp
    next
      case False
      then have x: "s1 = s" "tm_queues tm1 = map (\<lambda>(k, mq). (k, scanned rl (tm_vc tm) s mq)) (tm_queues tm)"
        using g(2) by (auto simp: report_step_def)
      have "polls m tm1 s < polls m tm s" by (rule polls_decrease [OF prems _ m _ x(2)]) (use True False in blast)+
      then show ?thesis by (simp add: x(1))
    qed
    have "batch_loop rl bufs (tm, s) = batch_loop rl (bufs @ b) (tm1, s1)"
      using True g(1) by (subst batch_loop.simps) simp
    moreover have "ok (returns (batch_loop rl (bufs @ b) (tm1, s1))) (\<lambda>(bufs', tm', s'). dm_inv s' \<and> tm_inv tm' s' \<and>
      held s + mset bufs = mset bufs' + held s' \<and> dm_now s' = dm_now s \<and> tm_batch_size tm' = tm_batch_size tm \<and>
      (tm_batch_size tm \<le> len bufs' \<or> td_buffer_count (dm_triggered s') \<le> 0))"
      by (rule ok_mono [OF 1(1) [OF lt i1]]) (use g(2) in \<open>auto simp: report_step_def ac_simps\<close>)
    ultimately show ?thesis by simp
  qed
qed

lemma GetNextBatchToReport_ok:
  assumes "dm_inv s" "tm_inv tm s" "refilling rl"
  shows "ok (GetNextBatchToReport rl (tm, s)) (\<lambda>(bufs, tm', s'). dm_inv s' \<and> tm_inv tm' s' \<and>
    held s = mset bufs + held s' \<and> dm_now s' = dm_now s \<and> tm_batch_size tm' = tm_batch_size tm \<and>
    (tm_batch_size tm \<le> len bufs \<or> td_buffer_count (dm_triggered s') \<le> 0))"
proof -
  from assms(3) obtain m where "refill_measure rl m" by (auto simp: refilling_def)
  from batch_loop_ok [OF assms(1,2) this, of "[]"] show ?thesis by (simp add: GetNextBatchToReport_def)
qed

section \<open>Initialisation\<close>

lemma TM_Init_ok:
  assumes "0 < buffer_size"
  shows "ok (TM_Init buffer_size limit) (\<lambda>tm. tm_inv tm (InitDataManager now) \<and> 0 < tm_batch_size tm)"
proof -
  have "0 \<le> (131072 :: int) sdiv buffer_size"
    using assms by (simp add: signed_divide_int_def pos_imp_zdiv_nonneg_iff)
  then show ?thesis using assms by (simp add: TM_Init_def tm_inv_def InitDataManager_def live_queue_def)
qed

section \<open>Properties\<close>

text \<open>A manager of the single queue of the concrete data manager; its bucket is in debt.\<close>

definition demo_tm :: "int TriggerManager" where
  "demo_tm = \<lparr>tm_queues = [(1, \<lparr>mq_queue = 0, mq_trigger_limiter = 5, mq_reporting_limiter = -3, mq_vt = 0\<rparr>)],
     tm_vc = 0, tm_buffer_size = 32768, tm_trigger_limit = 5, tm_reporting_limit = 5, tm_batch_size = 5\<rparr>"

lemma demo_tm_inv: "tm_inv demo_tm demo"
proof -
  have "td_queues (dm_triggered demo) = [(1, 0)]" by code_simp
  then show ?thesis by (auto simp: tm_inv_def demo_tm_def live_queue_def mok_def)
qed



text \<open>C22: Collecting the next batch always ends if buckets in debt are refilled: it returns at least a
  full batch or leaves no triggered buffer behind, and every buffer is either in the batch or still
  held.\<close>

theorem batch_completes:
  assumes "dm_inv s" and "tm_inv tm s" and "refilling rl"
  shows "ok (GetNextBatchToReport rl (tm, s)) (\<lambda>(bufs, tm', s'). dm_inv s' \<and> tm_inv tm' s' \<and>
    held s = mset bufs + held s' \<and>
    (tm_batch_size tm \<le> len bufs \<or> td_buffer_count (dm_triggered s') \<le> 0))"
  by (rule ok_mono [OF GetNextBatchToReport_ok [OF assms]]) auto

theorem batch_completes_witness:
  "ok (GetNextBatchToReport ticking (demo_tm, demo)) (\<lambda>(bufs, tm', s').
    held demo = mset bufs + held s' \<and> (5 \<le> len bufs \<or> td_buffer_count (dm_triggered s') \<le> 0))"
  by (rule ok_mono [OF batch_completes [OF demo_inv demo_tm_inv refilling_ticking]]) (auto simp: demo_tm_def)

text \<open>A local trigger is dropped exactly when its queue is out of tokens, and then no trace is
  touched; otherwise it covers all its traces and yields their breadcrumbs.\<close>

theorem TriggerLocal_rate_limited:
  assumes "dm_inv s" and "tm_inv tm s" and "mget (tm_queues tm) k = Some mq"
  shows "ok (MQ_TriggerLocal rl k mq b ids (tm, s)) (\<lambda>(fired, bc, tm', s'). dm_inv s' \<and> tm_inv tm' s' \<and>
    held s' = held s \<and> (fired \<longleftrightarrow> 0 \<le> fst (Available rl (mq_trigger_limiter mq))) \<and>
    (if fired then
       (\<exists>f. live_fired s' \<lparr>queue_id = k, base_trace_id = b\<rparr> f \<and> (\<forall>i \<in> set ids. linked s' f i)) \<and>
       (\<forall>i. mget bc i = (if i \<in> set ids \<and> crumbs s i \<noteq> [] then Some (crumbs s i) else None))
     else bc = [] \<and> dm_traces s' = dm_traces s \<and> h_traces s' = h_traces s))"
  by (rule ok_mono [OF MQ_TriggerLocal_ok [OF assms]]) (simp split: prod.splits)

theorem TriggerLocal_rate_limited_witness:
  "ok (MQ_TriggerLocal ticking 1 \<lparr>mq_queue = 0, mq_trigger_limiter = 5, mq_reporting_limiter = -3, mq_vt = 0\<rparr> 8 [8] (demo_tm, demo))
     (\<lambda>(fired, bc, tm', s'). fired \<and> (\<exists>f. live_fired s' \<lparr>queue_id = 1, base_trace_id = 8\<rparr> f \<and> linked s' f 8))"
  by (rule ok_mono [OF TriggerLocal_rate_limited [OF demo_inv demo_tm_inv]]) (auto simp: demo_tm_def ticking_def)

end
