(* ===== verification/Shm_Api.thy ===== *)
theory Shm_Api
  imports Go_Bytes
begin

unbundle bit_operations_syntax

text \<open>
  The Go side of the shared-memory interface (\<^verbatim>\<open>pkg/memory/memory.go\<close>): batching of what the
  application writes, the return of buffers, the polling loops with their backoff, and access to
  the buffer pool.

  A shared-memory queue is the list of its elements, oldest first;
  \<^verbatim>\<open>hindsight_agentapi_get_..._nonblocking\<close> (client/src/agentapi.c) takes up to
  \<^verbatim>\<open>BATCHSIZE\<close> elements off its front and \<^verbatim>\<open>hindsight_agentapi_put_available_blocking\<close> waits
  until its batch has been appended.
\<close>

section \<open>Data\<close>

definition BATCHSIZE :: nat where
  "BATCHSIZE = 100"

record CompleteBuffer =
  cb_Request_id :: u64
  cb_Buffer_id :: int

record Trigger =
  Queue_id :: int
  Base_trace_id :: u64
  Trace_id :: u64

record Breadcrumb =
  bc_Request_id :: u64
  bc_Address :: string

type_synonym CompleteBatch = "(u64, buffer list) gomap"
type_synonym BreadcrumbBatch = "(u64, string list) gomap"

text \<open>\<^verbatim>\<open>m[k] = append(m[k], v)\<close>: a missing key reads as the empty slice.\<close>

definition mappend :: "'k \<Rightarrow> 'v \<Rightarrow> ('k, 'v list) gomap \<Rightarrow> ('k, 'v list) gomap" where
  "mappend k v m = mput k ((case mget m k of None \<Rightarrow> [] | Some vs \<Rightarrow> vs) @ [v]) m"

text \<open>\<^verbatim>\<open>queue_get_nonblocking_multi\<close> with \<^verbatim>\<open>BATCHSIZE\<close>.\<close>

definition get_nonblocking :: "'e list \<Rightarrow> 'e list \<times> 'e list" where
  "get_nonblocking q = (take BATCHSIZE q, drop BATCHSIZE q)"

definition GetComplete :: "(u64 \<times> int) list \<Rightarrow> CompleteBuffer list \<times> (u64 \<times> int) list" where
  "GetComplete q =
     (let (batch, q') = get_nonblocking q
      in (map (\<lambda>(t, b). \<lparr>cb_Request_id = t, cb_Buffer_id = b\<rparr>) batch, q'))"

definition group_complete :: "(u64 \<times> 'v) list \<Rightarrow> (u64, 'v list) gomap" where
  "group_complete batch = fold (\<lambda>(trace_id, v). mappend trace_id v) batch []"

definition GetCompleteBatches :: "(u64 \<times> int) list \<Rightarrow> int \<times> CompleteBatch \<times> (u64 \<times> int) list" where
  "GetCompleteBatches q =
     (let (batch, q') = get_nonblocking q in (int (length batch), group_complete batch, q'))"

definition GetTriggers :: "(int \<times> u64 \<times> u64) list \<Rightarrow> Trigger list \<times> (int \<times> u64 \<times> u64) list" where
  "GetTriggers q =
     (let (batch, q') = get_nonblocking q
      in (map (\<lambda>(i, b, t). \<lparr>Queue_id = i, Base_trace_id = b, Trace_id = t\<rparr>) batch, q'))"

definition GetBreadcrumbs :: "(u64 \<times> string) list \<Rightarrow> Breadcrumb list \<times> (u64 \<times> string) list" where
  "GetBreadcrumbs q =
     (let (batch, q') = get_nonblocking q
      in (map (\<lambda>(t, a). \<lparr>bc_Request_id = t, bc_Address = a\<rparr>) batch, q'))"

definition GetBreadcrumbBatches ::
    "(u64 \<times> string) list \<Rightarrow> int \<times> BreadcrumbBatch \<times> (u64 \<times> string) list" where
  "GetBreadcrumbBatches q =
     (let (batch, q') = get_nonblocking q in (int (length batch), group_complete batch, q'))"

text \<open>The conversion \<^verbatim>\<open>C.int(id)\<close> keeps the low 32 bits, as a signed number.\<close>

definition c_int :: "int \<Rightarrow> int" where
  "c_int x = signed_take_bit 31 x"

function put_batches :: "int list \<Rightarrow> int list list" where
  "put_batches ids =
     (if ids = [] then []
      else
        (let size = (if length ids > BATCHSIZE then BATCHSIZE else length ids)
         in map c_int (take size ids) # put_batches (drop size ids)))"
  by pat_completeness auto
termination
  by (relation "measure length") (auto simp: BATCHSIZE_def)

declare put_batches.simps [simp del]

definition PutAvailable :: "int list \<Rightarrow> int list \<Rightarrow> int list" where
  "PutAvailable ids queue = fold (\<lambda>ab queue. queue @ ab) (put_batches ids) queue"

section \<open>The polling loops\<close>

text \<open>What happens at one turn of a drain loop: the context is cancelled, or the queue is polled
  after the application added some elements.\<close>

datatype 'e poll = Cancelled | Poll "'e list"

text \<open>
  \<^verbatim>\<open>drainBatches\<close>, \<^verbatim>\<open>drainTriggers\<close> and \<^verbatim>\<open>drainBreadcrumbs\<close> have the same shape: fetch a
  batch, send it on if it is not empty, stop when it is small.  The three differ in \<open>get\<close>, which
  returns the number of elements, the message for the channel and the rest of the queue.  \<open>None\<close>:
  still looping after the given polls.
\<close>

fun drain ::
    "('e list \<Rightarrow> int \<times> 'm \<times> 'e list) \<Rightarrow> int \<Rightarrow> 'e poll list \<Rightarrow> int \<Rightarrow> 'm list \<Rightarrow> 'e list \<Rightarrow>
       (int \<times> 'm list \<times> 'e list) option" where
  "drain get min_bs [] tot sent q = None"
| "drain get min_bs (Cancelled # ps) tot sent q = Some (0, sent, q)"
| "drain get min_bs (Poll new # ps) tot sent q =
     (let (cnt, m, q') = get (q @ new);
          tot' = tot + cnt;
          sent' = (if cnt > 0 then sent @ [m] else sent)
      in if cnt < min_bs then Some (tot', sent', q') else drain get min_bs ps tot' sent' q')"

definition drainBatches ::
    "int \<Rightarrow> (u64 \<times> int) poll list \<Rightarrow> (u64 \<times> int) list \<Rightarrow>
       (int \<times> CompleteBatch list \<times> (u64 \<times> int) list) option" where
  "drainBatches min_bs ps q = drain GetCompleteBatches min_bs ps 0 [] q"

definition drainTriggers ::
    "int \<Rightarrow> (int \<times> u64 \<times> u64) poll list \<Rightarrow> (int \<times> u64 \<times> u64) list \<Rightarrow>
       (int \<times> Trigger list list \<times> (int \<times> u64 \<times> u64) list) option" where
  "drainTriggers min_bs ps q =
     drain (\<lambda>q. let (triggers, q') = GetTriggers q in (int (length triggers), triggers, q'))
       min_bs ps 0 [] q"

definition drainBreadcrumbs ::
    "int \<Rightarrow> (u64 \<times> string) poll list \<Rightarrow> (u64 \<times> string) list \<Rightarrow>
       (int \<times> BreadcrumbBatch list \<times> (u64 \<times> string) list) option" where
  "drainBreadcrumbs min_bs ps q = drain GetBreadcrumbBatches min_bs ps 0 [] q"

text \<open>The backoff of \<^verbatim>\<open>completeLoop\<close>, \<^verbatim>\<open>triggerLoop\<close> and \<^verbatim>\<open>breadcrumbsLoop\<close>, in
  microseconds; it is never negative, so Go's division is \<open>div\<close>.\<close>

definition next_backoff :: "int \<Rightarrow> int \<Rightarrow> int" where
  "next_backoff tot backoff =
     (let max_backoff = 100000; min_backoff = 10; add_delay = 10; remove_delay = 40; reset_delay = 100;
          backoff1 = (if tot > reset_delay then min_backoff
                      else if tot > remove_delay then backoff div 2
                      else if tot < add_delay then backoff * 2
                      else backoff)
      in if backoff1 > max_backoff then max_backoff else backoff1)"

section \<open>The buffer pool\<close>

type_synonym pool = "nat \<Rightarrow> byte"

definition POOL_LIMIT :: int where
  "POOL_LIMIT = 2 ^ 30"

text \<open>A slice of the pool: where it starts, its length, and its bytes.  The pool is viewed as an
  array of \<^verbatim>\<open>1 << 30\<close> bytes, so slicing beyond that panics.\<close>

record slice =
  sl_start :: int
  sl_len :: int

definition slice_bytes :: "pool \<Rightarrow> slice \<Rightarrow> byte list" where
  "slice_bytes pool sl = map (\<lambda>i. pool (nat (sl_start sl) + i)) [0..<nat (sl_len sl)]"

definition GetBuffer :: "int \<Rightarrow> int \<Rightarrow> slice result" where
  "GetBuffer buffer_size buffer_id =
     (let start = buffer_id * buffer_size; stop = start + buffer_size
      in if 0 \<le> start \<and> start \<le> stop \<and> stop \<le> POOL_LIMIT then Inr \<lparr>sl_start = start, sl_len = buffer_size\<rparr>
         else Inl IndexOutOfRange)"

record BufferHeader =
  bh_Trace_id :: u64
  bh_Acquired :: u64
  bh_Buffer_id :: "32 word"
  bh_Prev_buffer_id :: "32 word"
  bh_Size :: "32 word"
  bh_Buffer_number :: "16 word"
  bh_Null_buffer_count :: "16 word"

text \<open>The C struct \<^verbatim>\<open>TraceHeader\<close> (client/src/tracestate.h), copied from the first byte of the
  buffer; little-endian, without padding.\<close>

definition le_at :: "pool \<Rightarrow> nat \<Rightarrow> nat \<Rightarrow> nat" where
  "le_at pool off n = le_nat (map (\<lambda>i. pool (off + i)) [0..<n])"

definition ExtractBufferHeader :: "pool \<Rightarrow> slice \<Rightarrow> BufferHeader result" where
  "ExtractBufferHeader pool sl =
     (if sl_len sl \<le> 0 then Inl IndexOutOfRange
      else
        (let p = nat (sl_start sl)
         in Inr \<lparr>bh_Trace_id = of_nat (le_at pool p 8), bh_Acquired = of_nat (le_at pool (p + 8) 8),
                bh_Buffer_id = of_nat (le_at pool (p + 16) 4),
                bh_Prev_buffer_id = of_nat (le_at pool (p + 20) 4),
                bh_Size = of_nat (le_at pool (p + 24) 4),
                bh_Buffer_number = of_nat (le_at pool (p + 28) 2),
                bh_Null_buffer_count = of_nat (le_at pool (p + 30) 2)\<rparr>))"

definition ExtractBuffer :: "pool \<Rightarrow> int \<Rightarrow> int \<Rightarrow> (BufferHeader \<times> slice) result" where
  "ExtractBuffer pool buffer_size buffer_id =
     rbind (GetBuffer buffer_size buffer_id) (\<lambda>payload.
     rbind (ExtractBufferHeader pool payload) (\<lambda>header. Inr (header, payload)))"

text \<open>\<^verbatim>\<open>data[0:size]\<close> (in \<^verbatim>\<open>reportData\<close>): Go checks the new length against the capacity of the
  slice, which reaches to the end of the array, not against its length.\<close>

definition reslice :: "slice \<Rightarrow> int \<Rightarrow> slice result" where
  "reslice sl n =
     (if 0 \<le> n \<and> sl_start sl + n \<le> POOL_LIMIT then Inr (sl\<lparr>sl_len := n\<rparr>) else Inl IndexOutOfRange)"

section \<open>Batches\<close>

lemma group_snoc:
  "group_complete (batch @ [(t, v)]) = mappend t v (group_complete batch)"
  by (simp add: group_complete_def)

text \<open>Grouping by trace id keeps the order of the values of each trace.\<close>

definition of_trace :: "u64 \<Rightarrow> (u64 \<times> 'v) list \<Rightarrow> 'v list" where
  "of_trace t batch = map snd (filter (\<lambda>p. fst p = t) batch)"

lemma group_get:
  "mok (group_complete batch) \<and>
   mget (group_complete batch) t = (if of_trace t batch = [] then None else Some (of_trace t batch))"
proof (induction batch arbitrary: t rule: rev_induct)
  case Nil
  then show ?case by (simp add: group_complete_def of_trace_def)
next
  case (snoc p batch)
  obtain u v where p: "p = (u, v)" by (cases p)
  have "mok (group_complete batch)" using snoc by blast
  moreover have "mget (group_complete batch) u = (if of_trace u batch = [] then None else Some (of_trace u batch))"
    "mget (group_complete batch) t = (if of_trace t batch = [] then None else Some (of_trace t batch))"
    using snoc by blast+
  ultimately show ?case by (auto simp: p group_snoc mappend_def mget_mput of_trace_def)
qed

lemma c_int_id: "- (2 ^ 31) \<le> x \<Longrightarrow> x < 2 ^ 31 \<Longrightarrow> c_int x = x"
  unfolding c_int_def by (simp add: signed_take_bit_int_eq_self)

lemma put_batches_concat: "concat (put_batches ids) = map c_int ids"
proof (induction ids rule: put_batches.induct)
  case (1 ids)
  show ?case
  proof (cases "ids = []")
    case False
    let ?n = "if length ids > BATCHSIZE then BATCHSIZE else length ids"
    have "concat (put_batches ids) = map c_int (take ?n ids) @ map c_int (drop ?n ids)"
      using 1 [OF False refl] False by (subst put_batches.simps) (simp add: Let_def)
    also have "\<dots> = map c_int ids" by (simp flip: map_append)
    finally show ?thesis .
  qed (simp add: put_batches.simps)
qed

lemma put_batches_bounded: "b \<in> set (put_batches ids) \<Longrightarrow> 0 < length b \<and> length b \<le> BATCHSIZE"
proof (induction ids rule: put_batches.induct)
  case (1 ids)
  then show ?case
    by (subst (asm) (2) put_batches.simps) (auto simp: Let_def BATCHSIZE_def split: if_splits)
qed

lemma fold_append: "fold (\<lambda>ab queue. queue @ ab) bs q = q @ concat bs"
  by (induction bs arbitrary: q) auto

lemma PutAvailable_exact:
  assumes "\<forall>b \<in> set bufids. 0 \<le> b \<and> b < 2 ^ 31"
  shows "PutAvailable bufids queue = queue @ bufids"
proof -
  have "map c_int bufids = bufids" using assms by (intro map_idI c_int_id) auto
  then show ?thesis by (simp add: PutAvailable_def fold_append put_batches_concat)
qed

section \<open>The drain loops\<close>

text \<open>\<open>get\<close> takes a batch of at most \<open>BATCHSIZE\<close> elements off the front and turns it into a message;
  \<open>content\<close> reads a message back.\<close>

definition arrived :: "'e poll list \<Rightarrow> 'e list" where
  "arrived ps = concat (map (\<lambda>p. case p of Cancelled \<Rightarrow> [] | Poll new \<Rightarrow> new) ps)"

locale batch_source =
  fixes get :: "'e list \<Rightarrow> int \<times> 'm \<times> 'e list" and content :: "'m \<Rightarrow> 'e multiset"
  assumes get_count: "fst (get q) = int (min BATCHSIZE (length q))"
    and get_content: "content (fst (snd (get q))) = mset (take BATCHSIZE q)"
    and get_rest: "snd (snd (get q)) = drop BATCHSIZE q"
begin

lemma get_split: "mset q = content (fst (snd (get q))) + mset (snd (snd (get q)))"
  by (simp add: get_content get_rest flip: mset_append)

lemma get_len: "fst (get q) = int (size (content (fst (snd (get q)))))"
  by (simp add: get_count get_content min.commute)

lemma drain_conserves:
  assumes "drain get min_bs ps tot sent q = Some (n, sent', q')"
  shows "\<exists>used rest. ps = used @ rest \<and>
    mset q + mset (arrived used) + sum_list (map content sent) = mset q' + sum_list (map content sent')"
  using assms
proof (induction ps arbitrary: tot sent q)
  case (Cons p ps)
  show ?case
  proof (cases p)
    case Cancelled
    with Cons.prems show ?thesis by (intro exI [of _ "[]"] exI [of _ "p # ps"]) (simp add: arrived_def)
  next
    case (Poll new)
    obtain c m r where g: "get (q @ new) = (c, m, r)" by (cases "get (q @ new)")
    let ?sent = "if c > 0 then sent @ [m] else sent"
    have sp: "mset q + mset new = content m + mset r" using get_split [of "q @ new"] by (simp add: g)
    have "c = 0 \<longleftrightarrow> content m = {#}" "0 \<le> c" using get_len [of "q @ new"] by (simp_all add: g)
    then have st: "sum_list (map content ?sent) = sum_list (map content sent) + content m" by auto
    show ?thesis
    proof (cases "c < min_bs")
      case True
      with Cons.prems g Poll have "sent' = ?sent" "q' = r" by (auto simp: Let_def)
      then show ?thesis using st sp
        by (intro exI [of _ "[p]"] exI [of _ ps]) (simp add: arrived_def Poll ac_simps)
    next
      case False
      with Cons.prems g Poll have "drain get min_bs ps (tot + c) ?sent r = Some (n, sent', q')" by (simp add: Let_def)
      from Cons.IH [OF this] obtain used rest where u: "ps = used @ rest"
        "mset r + mset (arrived used) + sum_list (map content ?sent) = mset q' + sum_list (map content sent')"
        by blast
      have "mset q + mset (arrived (p # used)) + sum_list (map content sent) =
          (mset q + mset new) + mset (arrived used) + sum_list (map content sent)"
        by (simp add: arrived_def Poll)
      also have "\<dots> = mset r + mset (arrived used) + sum_list (map content ?sent)"
        unfolding sp st by (simp add: ac_simps)
      finally show ?thesis using u by (intro exI [of _ "p # used"] exI [of _ rest]) simp
    qed
  qed
qed simp

text \<open>Once nothing arrives any more the loop ends: a poll takes elements off the queue or is the
  last one.\<close>

lemma drain_ends:
  assumes "0 < min_bs" "length q < length ps" "\<And>p. p \<in> set ps \<Longrightarrow> p = Poll []"
  shows "\<exists>r. drain get min_bs ps tot sent q = Some r"
  using assms(2,3)
proof (induction ps arbitrary: tot sent q)
  case (Cons p ps)
  obtain c m r where g: "get q = (c, m, r)" by (cases "get q")
  have c: "c = int (min BATCHSIZE (length q))" and r: "r = drop BATCHSIZE q"
    using get_count [of q] get_rest [of q] by (simp_all add: g)
  have p: "p = Poll []" using Cons.prems by simp
  show ?case
  proof (cases "c < min_bs")
    case True
    then show ?thesis using g by (simp add: p)
  next
    case False
    then have "0 < length q" using assms(1) by (auto simp: c)
    then have "length r < length q" by (simp add: r BATCHSIZE_def)
    then have "length r < length ps" using Cons.prems(1) by simp
    then have "\<exists>x. drain get min_bs ps (tot + c) (if c > 0 then sent @ [m] else sent) r = Some x"
      by (rule Cons.IH) (rule Cons.prems(2), simp)
    then show ?thesis using False g by (simp add: p)
  qed
qed simp

end

lemma min_length_take: "int (length (take n q)) = int (min n (length q))"
  by (simp add: min.commute)

text \<open>The three sources of the program.\<close>

definition pairs_of :: "('k, 'v list) gomap \<Rightarrow> ('k \<times> 'v) multiset" where
  "pairs_of m = msum (\<lambda>(k, vs). image_mset (Pair k) (mset vs)) m"

lemma pairs_mappend:
  assumes "mok m"
  shows "pairs_of (mappend k v m) = add_mset (k, v) (pairs_of m)"
proof (cases "mget m k")
  case None
  then show ?thesis by (simp add: mappend_def pairs_of_def msum_put_fresh)
next
  case (Some vs)
  let ?m = "mput k (vs @ [v]) m"
  have g: "mget ?m k = Some (vs @ [v])" by (simp add: mget_mput)
  have d: "mdel k ?m = mdel k m" by (induction m) auto
  have "pairs_of ?m = image_mset (Pair k) (mset (vs @ [v])) + pairs_of (mdel k m)"
    using msum_del [OF _ g, of "\<lambda>(k, vs). image_mset (Pair k) (mset vs)"] assms by (simp add: pairs_of_def d)
  moreover have "pairs_of m = image_mset (Pair k) (mset vs) + pairs_of (mdel k m)"
    using msum_del [OF assms Some, of "\<lambda>(k, vs). image_mset (Pair k) (mset vs)"] by (simp add: pairs_of_def)
  ultimately show ?thesis by (simp add: mappend_def Some)
qed

lemma pairs_group: "pairs_of (group_complete batch) = mset batch"
proof (induction batch rule: rev_induct)
  case Nil
  then show ?case by (simp add: group_complete_def pairs_of_def)
next
  case (snoc p batch)
  have "mok (group_complete batch)" using group_get by blast
  with snoc show ?case by (cases p) (simp add: group_snoc pairs_mappend)
qed

interpretation cb: batch_source GetCompleteBatches pairs_of
  by unfold_locales (simp_all add: GetCompleteBatches_def get_nonblocking_def Let_def pairs_group min_length_take)

interpretation bb: batch_source GetBreadcrumbBatches pairs_of
  by unfold_locales (simp_all add: GetBreadcrumbBatches_def get_nonblocking_def Let_def pairs_group min_length_take)

interpretation tb: batch_source "\<lambda>q. let (triggers, q') = GetTriggers q in (int (length triggers), triggers, q')"
  "\<lambda>ts. image_mset (\<lambda>t. (Queue_id t, Base_trace_id t, Trace_id t)) (mset ts)"
proof unfold_locales
  fix q :: "(int \<times> u64 \<times> u64) list"
  have "map ((\<lambda>t. (Queue_id t, Base_trace_id t, Trace_id t)) \<circ>
      (\<lambda>(i, b, t). \<lparr>Queue_id = i, Base_trace_id = b, Trace_id = t\<rparr>)) xs = xs" for xs
    by (induction xs) auto
  then show "image_mset (\<lambda>t. (Queue_id t, Base_trace_id t, Trace_id t))
      (mset (fst (snd (let (triggers, q') = GetTriggers q in (int (length triggers), triggers, q'))))) =
      mset (take BATCHSIZE q)"
    by (simp add: GetTriggers_def get_nonblocking_def Let_def flip: mset_map)
qed (simp_all add: GetTriggers_def get_nonblocking_def Let_def min_length_take)

section \<open>Backoff\<close>

lemma next_backoff_bounds: "0 \<le> b \<Longrightarrow> 0 \<le> next_backoff n b \<and> next_backoff n b \<le> 100000"
  by (simp add: next_backoff_def Let_def)

lemma next_backoff_stuck: "n \<le> 100 \<Longrightarrow> next_backoff n 0 = 0"
  by (simp add: next_backoff_def Let_def)

section \<open>Buffer headers\<close>

text \<open>The layout in which the tracer writes a header.\<close>

definition header_bytes :: "BufferHeader \<Rightarrow> byte list" where
  "header_bytes h = le_bytes 8 (unat (bh_Trace_id h)) @ le_bytes 8 (unat (bh_Acquired h)) @
     le_bytes 4 (unat (bh_Buffer_id h)) @ le_bytes 4 (unat (bh_Prev_buffer_id h)) @
     le_bytes 4 (unat (bh_Size h)) @ le_bytes 2 (unat (bh_Buffer_number h)) @
     le_bytes 2 (unat (bh_Null_buffer_count h))"

lemma length_header [simp]: "length (header_bytes h) = 32"
  by (simp add: header_bytes_def)

lemma le_at_bytes:
  assumes "\<And>i. i < length bs \<Longrightarrow> pool (p + i) = bs ! i" "off + n \<le> length bs"
  shows "le_at pool (p + off) n = le_nat (take n (drop off bs))"
proof -
  have "map (\<lambda>i. pool (p + off + i)) [0..<n] = take n (drop off bs)"
    using assms by (intro nth_equalityI) (simp_all add: add.assoc)
  then show ?thesis by (simp add: le_at_def)
qed

lemma unat_less_words:
  "unat (x :: 64 word) < 18446744073709551616" "unat (y :: 32 word) < 4294967296" "unat (z :: 16 word) < 65536"
  using unsigned_less [of x] unsigned_less [of y] unsigned_less [of z] by simp_all

lemmas unat_less_pow = unat_less_words [THEN mod_less]

lemma header_fields:
  assumes "\<And>i. i < 32 \<Longrightarrow> pool (p + i) = header_bytes h ! i"
  shows "le_at pool p 8 = unat (bh_Trace_id h)" "le_at pool (p + 8) 8 = unat (bh_Acquired h)"
    "le_at pool (p + 16) 4 = unat (bh_Buffer_id h)" "le_at pool (p + 20) 4 = unat (bh_Prev_buffer_id h)"
    "le_at pool (p + 24) 4 = unat (bh_Size h)" "le_at pool (p + 28) 2 = unat (bh_Buffer_number h)"
    "le_at pool (p + 30) 2 = unat (bh_Null_buffer_count h)"
proof -
  note at = le_at_bytes [of "header_bytes h" pool p, simplified, OF assms]
  show "le_at pool p 8 = unat (bh_Trace_id h)"
    using at [of 0 8] by (simp add: header_bytes_def le_nat_le_bytes unat_less_pow)
  show "le_at pool (p + 8) 8 = unat (bh_Acquired h)"
    using at [of 8 8] by (simp add: header_bytes_def le_nat_le_bytes unat_less_pow)
  show "le_at pool (p + 16) 4 = unat (bh_Buffer_id h)"
    using at [of 16 4] by (simp add: header_bytes_def le_nat_le_bytes unat_less_pow)
  show "le_at pool (p + 20) 4 = unat (bh_Prev_buffer_id h)"
    using at [of 20 4] by (simp add: header_bytes_def le_nat_le_bytes unat_less_pow)
  show "le_at pool (p + 24) 4 = unat (bh_Size h)"
    using at [of 24 4] by (simp add: header_bytes_def le_nat_le_bytes unat_less_pow)
  show "le_at pool (p + 28) 2 = unat (bh_Buffer_number h)"
    using at [of 28 2] by (simp add: header_bytes_def le_nat_le_bytes unat_less_pow)
  show "le_at pool (p + 30) 2 = unat (bh_Null_buffer_count h)"
    using at [of 30 2] by (simp add: header_bytes_def le_nat_le_bytes unat_less_pow)
qed

section \<open>Properties\<close>

text \<open>One poll of the complete queue takes at most \<open>BATCHSIZE\<close> buffers off its front, loses and
  duplicates none of them, and lists the buffers of each trace in the order in which the
  application completed them.\<close>

theorem GetCompleteBatches_groups:
  assumes "GetCompleteBatches q = (n, m, q')"
  shows "n = int (min BATCHSIZE (length q)) \<and> q' = drop BATCHSIZE q \<and> pairs_of m = mset (take BATCHSIZE q) \<and> mok m \<and>
    (\<forall>t. mget m t = (let bufs = of_trace t (take BATCHSIZE q) in if bufs = [] then None else Some bufs))"
proof -
  have "m = group_complete (take BATCHSIZE q)" using assms by (auto simp: GetCompleteBatches_def get_nonblocking_def)
  then show ?thesis
    using cb.get_count [of q] cb.get_content [of q] cb.get_rest [of q] group_get [of "take BATCHSIZE q"]
    by (simp add: assms)
qed

theorem GetCompleteBatches_groups_witness:
  "GetCompleteBatches [(7, 1), (9, 2), (7, 3)] = (3, [(7, [1, 3]), (9, [2])], []) \<and>
   mget [(7, [1, 3]), (9, [2])] (7 :: u64) = Some [1, 3 :: int]"
proof -
  have e: "GetCompleteBatches [(7, 1), (9, 2), (7, 3)] = (3, [(7, [1, 3]), (9, [2])], [])" by code_simp
  from GetCompleteBatches_groups [OF e] e show ?thesis by simp
qed

text \<open>\<open>PutAvailable\<close> ends, cuts the buffers into batches that fit the fixed-size C struct, and
  appends exactly the given buffers, in order, to the available queue.\<close>

theorem PutAvailable_returns_all:
  assumes "\<forall>x \<in> set ids. - (2 ^ 31) \<le> x \<and> x < 2 ^ 31"
  shows "PutAvailable ids queue = queue @ ids \<and>
    (\<forall>b \<in> set (put_batches ids). 0 < length b \<and> length b \<le> BATCHSIZE)"
proof -
  have "map c_int ids = ids" using assms by (intro map_idI) (simp add: c_int_id)
  then show ?thesis using put_batches_bounded by (auto simp: PutAvailable_def fold_append put_batches_concat)
qed

theorem PutAvailable_returns_all_witness: "PutAvailable [4, 8, 15] [1, 2] = [1, 2, 4, 8, 15]"
  using PutAvailable_returns_all [of "[4, 8, 15]" "[1, 2]"] by simp

text \<open>The drain loop over the complete queue neither loses nor duplicates a buffer, whatever the
  application appends between two polls and even if it is cancelled in between: what was in the
  queue and what arrived is what was sent on or is still queued.\<close>

theorem drainBatches_conserves:
  assumes "drainBatches min_bs ps q = Some (n, sent, q')"
  shows "\<exists>used rest. ps = used @ rest \<and> mset q + mset (arrived used) = mset q' + sum_list (map pairs_of sent)"
  using cb.drain_conserves [OF assms [unfolded drainBatches_def]] by simp

theorem drainBatches_conserves_witness:
  "\<exists>used rest. [Poll [(5 :: u64, 2 :: int)]] = used @ rest \<and>
     mset [(4, 1)] + mset (arrived used) = mset [] + sum_list (map pairs_of [[(4, [1]), (5, [2])]])"
proof -
  have "drainBatches 20 [Poll [(5, 2)]] [(4, 1)] = Some (2, [[(4, [1]), (5, [2])]], [])" by code_simp
  from drainBatches_conserves [OF this] show ?thesis .
qed

text \<open>The drain loop ends once the application is quiet for as many polls as there are
  elements queued.\<close>

theorem drainBatches_ends:
  assumes "0 < min_bs" and "length q < n"
  shows "\<exists>r. drainBatches min_bs (replicate n (Poll [])) q = Some r"
  unfolding drainBatches_def
  by (rule cb.drain_ends) (use assms in auto)

theorem drainBatches_ends_witness: "\<exists>r. drainBatches 20 (replicate 3 (Poll [])) [(1, 1), (2, 2)] = Some r"
  using drainBatches_ends [of 20 "[(1, 1), (2, 2)]" 3] by simp

text \<open>The polling loops have no lower bound on their backoff: after moderately full drains it is
  halved down to zero, and from there no number of elements up to 100 raises it again, so the loop
  polls without any pause.\<close>

theorem backoff_collapses:
  "fold next_backoff [50, 50, 50, 50] 10 = 0 \<and> (\<forall>ns. (\<forall>n \<in> set ns. n \<le> 100) \<longrightarrow> fold next_backoff ns 0 = 0)"
proof -
  have "fold next_backoff ns 0 = 0" if "\<forall>n \<in> set ns. n \<le> 100" for ns
    using that by (induction ns) (auto simp: next_backoff_stuck)
  moreover have "fold next_backoff [50, 50, 50, 50] 10 = 0" by code_simp
  ultimately show ?thesis by blast
qed

theorem backoff_collapses_witness: "fold next_backoff [50, 50, 50, 50, 5, 60, 100] 10 = 0"
proof -
  from backoff_collapses have "fold next_backoff [50, 50, 50, 50] 10 = 0"
    and all: "\<And>ns. (\<forall>n \<in> set ns. n \<le> 100) \<Longrightarrow> fold next_backoff ns 0 = 0" by blast+
  moreover have "fold next_backoff [5, 60, 100] 0 = 0" by (rule all) simp
  ultimately show ?thesis by simp
qed



text \<open>C29: Reading the header of a buffer gives back what the tracer wrote there: every field of a
  header laid out as the C struct is recovered.\<close>

theorem ExtractBufferHeader_reads_back:
  assumes "0 < sl_len sl" and "\<forall>i < 32. pool (nat (sl_start sl) + i) = header_bytes h ! i"
  shows "ExtractBufferHeader pool sl = Inr h"
proof -
  have "\<And>i. i < 32 \<Longrightarrow> pool (nat (sl_start sl) + i) = header_bytes h ! i" using assms(2) by blast
  from header_fields [OF this] assms(1) show ?thesis by (simp add: ExtractBufferHeader_def Let_def)
qed

theorem ExtractBufferHeader_reads_back_witness:
  "let h = \<lparr>bh_Trace_id = 77, bh_Acquired = 5, bh_Buffer_id = 3, bh_Prev_buffer_id = - 1, bh_Size = 4096,
        bh_Buffer_number = 1, bh_Null_buffer_count = 0\<rparr>
   in ExtractBufferHeader (\<lambda>i. (replicate 64 0 @ header_bytes h) ! i) \<lparr>sl_start = 64, sl_len = 64\<rparr> = Inr h"
  unfolding Let_def by (rule ExtractBufferHeader_reads_back) (simp_all add: nth_append)

end
