(* ===== verification/Go_Chan.thy ===== *)
theory Go_Chan
  imports Main
begin

text \<open>
  Buffered Go channels: every message sent so far, how many of them were received, and the
  capacity.  A send in a \<^verbatim>\<open>select\<close> with a \<^verbatim>\<open>default\<close> branch looks whether the channel is full.
  A plain send on a full channel blocks until the receiver made room; nothing else happens in the
  sending goroutine meanwhile, so it is recorded as done.
\<close>

record 'm chan =
  ch_log :: "'m list"
  ch_taken :: nat
  ch_cap :: nat

definition chan_make :: "nat \<Rightarrow> 'm chan" where
  "chan_make n = \<lparr>ch_log = [], ch_taken = 0, ch_cap = n\<rparr>"

definition chan_full :: "'m chan \<Rightarrow> bool" where
  "chan_full c \<longleftrightarrow> ch_cap c \<le> length (ch_log c) - ch_taken c"

definition chan_send :: "'m \<Rightarrow> 'm chan \<Rightarrow> 'm chan" where
  "chan_send m c = c\<lparr>ch_log := ch_log c @ [m]\<rparr>"

definition chan_receive :: "'m chan \<Rightarrow> 'm chan" where
  "chan_receive c = c\<lparr>ch_taken := Suc (ch_taken c)\<rparr>"

lemma chan_simps [simp]:
  "ch_log (chan_make n) = []" "ch_log (chan_send m c) = ch_log c @ [m]" "ch_log (chan_receive c) = ch_log c"
  by (simp_all add: chan_make_def chan_send_def chan_receive_def)

text \<open>The messages in the channel, and a channel into which some more were sent.\<close>

definition chan_pending :: "'m chan \<Rightarrow> 'm list" where
  "chan_pending c = drop (ch_taken c) (ch_log c)"

definition grown :: "'m chan \<Rightarrow> 'm list \<Rightarrow> 'm chan \<Rightarrow> bool" where
  "grown c ms c' \<longleftrightarrow> ch_log c' = ch_log c @ ms \<and> ch_taken c' = ch_taken c \<and> ch_cap c' = ch_cap c"

definition chan_ok :: "'m chan \<Rightarrow> bool" where
  "chan_ok c \<longleftrightarrow> ch_taken c \<le> length (ch_log c)"

lemma chan_full_iff: "chan_full c \<longleftrightarrow> ch_cap c \<le> length (chan_pending c)"
  by (simp add: chan_full_def chan_pending_def)

lemma chan_pending_make [simp]: "chan_pending (chan_make n) = []" "chan_ok (chan_make n)" "ch_cap (chan_make n) = n"
  by (simp_all add: chan_pending_def chan_ok_def chan_make_def)

lemma chan_pending_grown: "grown c ms c' \<Longrightarrow> chan_ok c \<Longrightarrow> chan_pending c' = chan_pending c @ ms \<and> chan_ok c' \<and> ch_cap c' = ch_cap c"
  by (auto simp: grown_def chan_ok_def chan_pending_def)

lemma grown_send [simp]: "grown c [m] (chan_send m c)"
  by (simp add: grown_def chan_send_def)

lemma grown_refl [simp]: "grown c [] c"
  by (simp add: grown_def)

lemma grown_trans: "grown c ms c' \<Longrightarrow> grown c' ms' c'' \<Longrightarrow> grown c (ms @ ms') c''"
  by (simp add: grown_def)

lemma grown_fold_send: "grown c ms (fold chan_send ms c)"
proof (induction ms arbitrary: c)
  case (Cons m ms)
  have "grown c ([m] @ ms) (fold chan_send ms (chan_send m c))" by (rule grown_trans [OF grown_send Cons.IH])
  then show ?case by simp
qed simp

lemma chan_pending_receive:
  assumes "chan_pending c = m # ms"
  shows "chan_pending (chan_receive c) = ms" "chan_ok (chan_receive c)" "ch_cap (chan_receive c) = ch_cap c"
proof -
  have l: "ch_taken c < length (ch_log c)" using assms by (metis drop_eq_Nil leI list.discI chan_pending_def)
  then show "chan_pending (chan_receive c) = ms" using assms by (simp add: chan_pending_def chan_receive_def drop_Suc drop_tl)
  show "chan_ok (chan_receive c)" using l by (simp add: chan_ok_def chan_receive_def)
qed (simp add: chan_receive_def)

end
