(* ===== verification/Agent_Loop.thy ===== *)
theory Agent_Loop
  imports Trigger_Manager Shm_Api Go_Chan
begin

text \<open>
  The agent (\<^verbatim>\<open>pkg/agent/agent.go\<close>): the handlers of its event loop and the loop itself as a step
  relation.  The other goroutines of the agent are seen through channels.
\<close>

section \<open>State\<close>

record AgentMetrics =
  am_complete_batches :: int
  am_complete_buffers :: int
  am_event_horizon :: duration
  am_dropped_triggers :: int
  am_dropped_breadcrumbs :: int

record 'b Agent =
  ag_dm :: dms
  ag_tm :: "'b TriggerManager"
  ag_cache_capacity :: int
  ag_triggered_capacity :: int
  ag_trigger_timeout :: duration
  ag_metrics :: AgentMetrics
  ag_available :: "buffer list chan"
  ag_localtriggers :: "Trigger list chan"
  ag_breadcrumbs :: "breadcrumb_map chan"
  ag_data :: "buffer list chan"
  ag_data_to_report :: "buffer list"

definition upd_am :: "(AgentMetrics \<Rightarrow> AgentMetrics) \<Rightarrow> 'b Agent \<Rightarrow> 'b Agent" where
  "upd_am g a = a\<lparr>ag_metrics := g (ag_metrics a)\<rparr>"

text \<open>\<^verbatim>\<open>InitAgent2\<close>: the sizes come from the shared-memory pool.\<close>

definition InitAgent2 ::
    "'b ratelimit \<Rightarrow> time \<Rightarrow> int \<Rightarrow> int \<Rightarrow> float64 \<Rightarrow> (int, float64) gomap \<Rightarrow> 'b Agent result" where
  "InitAgent2 rl now capacity buffer_size trigger_rate_limit per_trigger_rate_limits =
     rbind (TM_Init buffer_size trigger_rate_limit) (\<lambda>tm0.
       let (tm, dm) = TM_ConfigureRateLimits rl per_trigger_rate_limits (tm0, InitDataManager now);
           cache_capacity = (4 * capacity) sdiv 5
       in Inr \<lparr>ag_dm = dm, ag_tm = tm, ag_cache_capacity = cache_capacity,
              ag_triggered_capacity = cache_capacity sdiv 2,
              ag_trigger_timeout = - 5 * 60 * 1000000000,
              ag_metrics = \<lparr>am_complete_batches = 0, am_complete_buffers = 0, am_event_horizon = 0,
                am_dropped_triggers = 0, am_dropped_breadcrumbs = 0\<rparr>,
              ag_available = chan_make 100000, ag_localtriggers = chan_make 500,
              ag_breadcrumbs = chan_make 500, ag_data = chan_make 4, ag_data_to_report = []\<rparr>)"

section \<open>Handlers\<close>

definition send_available :: "buffer list \<Rightarrow> 'b Agent \<Rightarrow> 'b Agent" where
  "send_available bufs a =
     (if len bufs > 0 then a\<lparr>ag_available := chan_send bufs (ag_available a)\<rparr> else a)"

definition maybeEvict :: "'b Agent \<Rightarrow> 'b Agent result" where
  "maybeEvict a =
     (if dm_buffer_count (ag_dm a) < ag_cache_capacity a then Inr a
      else
        rbind (DM_CheckIdleTriggers (dm_now (ag_dm a) + ag_trigger_timeout a) (ag_dm a)) (\<lambda>s1.
        rbind (DM_EvictedTriggeredToCapacity (ag_triggered_capacity a) s1) (\<lambda>(evicted, s2).
        let a2 = send_available evicted (a\<lparr>ag_dm := s2\<rparr>) in
        rbind (DM_EvictToCapacity (ag_cache_capacity a) s2) (\<lambda>(evicted, s3).
        let a3 = send_available evicted (a2\<lparr>ag_dm := s3\<rparr>) in
        Inr (upd_am (\<lambda>m. m\<lparr>am_event_horizon := dm_now s3 - ud_event_horizion (dm_untriggered s3)\<rparr>) a3)))))"

definition complete_one :: "u64 \<times> buffer list \<Rightarrow> buffer list \<times> 'b Agent \<Rightarrow> (buffer list \<times> 'b Agent) result" where
  "complete_one = (\<lambda>(trace_id, buffers) (freed, a).
     let a1 = upd_am (\<lambda>m. m\<lparr>am_complete_buffers := am_complete_buffers m + len buffers\<rparr>) a in
     if trace_id = 0 then Inr (freed @ buffers, a1)
     else rbind (DM_AddBuffers trace_id buffers (ag_dm a1)) (\<lambda>s. Inr (freed, a1\<lparr>ag_dm := s\<rparr>)))"

definition processCompletedBuffers :: "CompleteBatch \<Rightarrow> 'b Agent \<Rightarrow> 'b Agent result" where
  "processCompletedBuffers batch a =
     rbind (rfold complete_one batch ([], a)) (\<lambda>(freed, a1).
     rbind (maybeEvict a1) (\<lambda>a2.
     Inr (upd_am (\<lambda>m. m\<lparr>am_complete_batches := am_complete_batches m + 1\<rparr>) (send_available freed a2))))"

text \<open>The \<^verbatim>\<open>select\<close> with a \<^verbatim>\<open>default\<close> branch that drops breadcrumbs.\<close>

definition forward_breadcrumbs :: "breadcrumb_map \<Rightarrow> int \<Rightarrow> 'b Agent \<Rightarrow> 'b Agent" where
  "forward_breadcrumbs bcs num a =
     (if len bcs > 0 then
        (if chan_full (ag_breadcrumbs a)
         then upd_am (\<lambda>m. m\<lparr>am_dropped_breadcrumbs := am_dropped_breadcrumbs m + num\<rparr>) a
         else a\<lparr>ag_breadcrumbs := chan_send bcs (ag_breadcrumbs a)\<rparr>)
      else a)"

definition breadcrumbs_one ::
    "u64 \<times> string list \<Rightarrow> breadcrumb_map \<times> int \<times> dms \<Rightarrow> (breadcrumb_map \<times> int \<times> dms) result" where
  "breadcrumbs_one = (\<lambda>(trace_id, breadcrumbs) (to_report, num, s).
     if trace_id = 0 then Inr (to_report, num, s)
     else
       rbind (DM_AddBreadcrumbs trace_id breadcrumbs s) (\<lambda>(bcs, s1).
         Inr (if len bcs > 0 then (mput trace_id bcs to_report, num + len bcs, s1)
              else (to_report, num, s1))))"

definition processBreadcrumbs :: "BreadcrumbBatch \<Rightarrow> 'b Agent \<Rightarrow> 'b Agent result" where
  "processBreadcrumbs batch a =
     rbind (rfold breadcrumbs_one batch ([], 0, ag_dm a)) (\<lambda>(to_report, num, s).
     Inr (forward_breadcrumbs to_report num (a\<lparr>ag_dm := s\<rparr>)))"

text \<open>\<^verbatim>\<open>m[k] = append(m[k], vs...)\<close> for the breadcrumbs to forward.\<close>

definition accumulate :: "breadcrumb_map \<Rightarrow> breadcrumb_map \<times> int \<Rightarrow> breadcrumb_map \<times> int" where
  "accumulate breadcrumbs fwd =
     fold (\<lambda>(trace_id, addrs) (m, num).
         if len addrs > 0
         then (mput trace_id ((case mget m trace_id of None \<Rightarrow> [] | Some vs \<Rightarrow> vs) @ addrs) m, num + len addrs)
         else (m, num))
       breadcrumbs fwd"

definition local_trigger_one ::
    "'b ratelimit \<Rightarrow> Trigger \<Rightarrow> Trigger list \<times> (breadcrumb_map \<times> int) \<times> 'b TriggerManager \<times> dms \<Rightarrow>
       (Trigger list \<times> (breadcrumb_map \<times> int) \<times> 'b TriggerManager \<times> dms) result" where
  "local_trigger_one rl t = (\<lambda>(forward, fwd, st).
     let (mq, st1) = TM_getQueue rl (Queue_id t) st in
     rbind (MQ_TriggerLocal rl (Queue_id t) mq (Base_trace_id t) [Trace_id t] st1)
       (\<lambda>(triggered, breadcrumbs, st2).
          Inr (if triggered then forward @ [t] else forward, accumulate breadcrumbs fwd, st2)))"

definition forward_triggers :: "Trigger list \<Rightarrow> 'b Agent \<Rightarrow> 'b Agent" where
  "forward_triggers ts a =
     (if len ts > 0 then
        (if chan_full (ag_localtriggers a)
         then upd_am (\<lambda>m. m\<lparr>am_dropped_triggers := am_dropped_triggers m + len ts\<rparr>) a
         else a\<lparr>ag_localtriggers := chan_send ts (ag_localtriggers a)\<rparr>)
      else a)"

definition processTriggers :: "'b ratelimit \<Rightarrow> Trigger list \<Rightarrow> 'b Agent \<Rightarrow> 'b Agent result" where
  "processTriggers rl batch a =
     rbind (rfold (local_trigger_one rl) batch ([], ([], 0), ag_tm a, ag_dm a))
       (\<lambda>(forward, (bcs, num), tm, s).
          Inr (forward_breadcrumbs bcs num (forward_triggers forward (a\<lparr>ag_tm := tm, ag_dm := s\<rparr>))))"

definition remote_trigger_one ::
    "'b ratelimit \<Rightarrow> Trigger \<Rightarrow> (breadcrumb_map \<times> int) \<times> 'b TriggerManager \<times> dms \<Rightarrow>
       ((breadcrumb_map \<times> int) \<times> 'b TriggerManager \<times> dms) result" where
  "remote_trigger_one rl t = (\<lambda>(fwd, st).
     let (mq, tm, s) = TM_getQueue rl (Queue_id t) st in
     rbind (MQ_TriggerRemote mq (Base_trace_id t) [Trace_id t] s)
       (\<lambda>(breadcrumbs, s1). Inr (accumulate breadcrumbs fwd, tm, s1)))"

definition processRemoteTriggers :: "'b ratelimit \<Rightarrow> Trigger list \<Rightarrow> 'b Agent \<Rightarrow> 'b Agent result" where
  "processRemoteTriggers rl batch a =
     rbind (rfold (remote_trigger_one rl) batch (([], 0), ag_tm a, ag_dm a))
       (\<lambda>((bcs, num), tm, s). Inr (forward_breadcrumbs bcs num (a\<lparr>ag_tm := tm, ag_dm := s\<rparr>)))"

section \<open>The processing loop\<close>

datatype event =
    Timer
  | Report
  | RemoteTriggers "Trigger list"
  | LocalTriggers "Trigger list"
  | Complete CompleteBatch
  | Breadcrumbs BreadcrumbBatch

definition next_batch :: "'b ratelimit \<Rightarrow> 'b Agent \<Rightarrow> 'b Agent result" where
  "next_batch rl a =
     rbind (GetNextBatchToReport rl (ag_tm a, ag_dm a)) (\<lambda>(bufs, tm, s).
       Inr (a\<lparr>ag_tm := tm, ag_dm := s, ag_data_to_report := bufs\<rparr>))"

text \<open>One iteration of the loop at time \<open>now\<close>, for the event that \<^verbatim>\<open>select\<close> chose.\<close>

definition iteration :: "'b ratelimit \<Rightarrow> time \<Rightarrow> event \<Rightarrow> 'b Agent \<Rightarrow> 'b Agent result" where
  "iteration rl now ev a0 =
     (let a = a0\<lparr>ag_dm := (ag_dm a0)\<lparr>dm_now := now\<rparr>\<rparr> in
      case ev of
        Timer \<Rightarrow> next_batch rl a
      | Report \<Rightarrow> next_batch rl (a\<lparr>ag_data := chan_send (ag_data_to_report a) (ag_data a)\<rparr>)
      | RemoteTriggers ts \<Rightarrow> processRemoteTriggers rl ts a
      | LocalTriggers ts \<Rightarrow> processTriggers rl ts a
      | Complete batch \<Rightarrow> processCompletedBuffers batch a
      | Breadcrumbs batch \<Rightarrow> processBreadcrumbs batch a)"

text \<open>The cases of the two \<^verbatim>\<open>select\<close> statements: the timer is looked at only when there is nothing to
  report, the reporting channel only when there is.\<close>

fun ready :: "event \<Rightarrow> 'b Agent \<Rightarrow> bool" where
  "ready Timer a \<longleftrightarrow> ag_data_to_report a = []"
| "ready Report a \<longleftrightarrow> ag_data_to_report a \<noteq> [] \<and> \<not> chan_full (ag_data a)"
| "ready _ a \<longleftrightarrow> True"

text \<open>The clock never goes backwards; the other goroutines receive from the channels at any time.  Go
  visits the entries of a map in any order, so the maps of queues and of the traces of a trigger may be
  reordered at any time.\<close>

inductive agent_step :: "'b ratelimit \<Rightarrow> 'b Agent \<Rightarrow> event list \<Rightarrow> 'b Agent \<Rightarrow> bool" for rl where
  iterate: "ready ev a \<Longrightarrow> dm_now (ag_dm a) \<le> now \<Longrightarrow> iteration rl now ev a = Inr a' \<Longrightarrow>
    agent_step rl a [ev] a'"
| take_available: "ch_taken (ag_available a) < length (ch_log (ag_available a)) \<Longrightarrow>
    agent_step rl a [] (a\<lparr>ag_available := chan_receive (ag_available a)\<rparr>)"
| take_data: "ch_taken (ag_data a) < length (ch_log (ag_data a)) \<Longrightarrow>
    agent_step rl a [] (a\<lparr>ag_data := chan_receive (ag_data a)\<rparr>)"
| take_triggers: "ch_taken (ag_localtriggers a) < length (ch_log (ag_localtriggers a)) \<Longrightarrow>
    agent_step rl a [] (a\<lparr>ag_localtriggers := chan_receive (ag_localtriggers a)\<rparr>)"
| take_breadcrumbs: "ch_taken (ag_breadcrumbs a) < length (ch_log (ag_breadcrumbs a)) \<Longrightarrow>
    agent_step rl a [] (a\<lparr>ag_breadcrumbs := chan_receive (ag_breadcrumbs a)\<rparr>)"
| order_managed: "mset m = mset (tm_queues (ag_tm a)) \<Longrightarrow>
    agent_step rl a [] (a\<lparr>ag_tm := (ag_tm a)\<lparr>tm_queues := m\<rparr>\<rparr>)"
| order_queues: "mset m = mset (td_queues (dm_triggered (ag_dm a))) \<Longrightarrow>
    agent_step rl a [] (a\<lparr>ag_dm := reorder_queues m (ag_dm a)\<rparr>)"
| order_links: "live_fired (ag_dm a) tid f \<Longrightarrow> mset m = mset (ft_traces (h_fired (ag_dm a) f)) \<Longrightarrow>
    agent_step rl a [] (a\<lparr>ag_dm := reorder_links f m (ag_dm a)\<rparr>)"

inductive agent_run :: "'b ratelimit \<Rightarrow> 'b Agent \<Rightarrow> event list \<Rightarrow> 'b Agent \<Rightarrow> bool" for rl where
  start: "agent_run rl a [] a"
| step: "agent_run rl a evs a' \<Longrightarrow> agent_step rl a' ev a'' \<Longrightarrow> agent_run rl a (evs @ ev) a''"

inductive_cases agent_stepE: "agent_step rl a evs a'"

section \<open>The invariant and the accounting of buffers\<close>

definition agent_inv :: "'b Agent \<Rightarrow> bool" where
  "agent_inv a \<longleftrightarrow> dm_inv (ag_dm a) \<and> tm_inv (ag_tm a) (ag_dm a)"

text \<open>Every buffer the agent has accepted: held by the data manager, waiting to be reported, handed
  to the reporting goroutine, or handed back for reuse.\<close>

definition accounted :: "'b Agent \<Rightarrow> buffer multiset" where
  "accounted a = held (ag_dm a) + mset (ag_data_to_report a) + mset (concat (ch_log (ag_data a))) +
     mset (concat (ch_log (ag_available a)))"

text \<open>The buffers a list of events brings in.\<close>

fun event_buffers :: "event \<Rightarrow> buffer multiset" where
  "event_buffers (Complete batch) = msum (\<lambda>(t, bufs). mset bufs) batch"
| "event_buffers _ = {#}"

lemma held_now [simp]: "held (s\<lparr>dm_now := now\<rparr>) = held s"
  by (simp add: held_def)

lemma dm_inv_now:
  assumes inv: "dm_inv s" and le: "dm_now s \<le> now"
  shows "dm_inv (s\<lparr>dm_now := now\<rparr>)"
proof -
  let ?E = "\<lambda>f. ft_traces (h_fired s f)" and ?s = "s\<lparr>dm_now := now\<rparr>"
  have e: "inv ?E s" using inv by (simp add: dm_inv_def)
  have "queue_ok now (h_fired s) (next_fired s) ?E k q (h_queues s q)" if "live_queue s k q" for k q
  proof -
    note ok = queues_okD(2) [OF invD(2) [OF e] that]
    have "\<forall>e f. (e, f) \<in> set (elems (tq_idle (h_queues s q))) \<longrightarrow> ft_stamp (ft_state (h_fired s f)) \<le> now"
      using queue_okD(12) [OF ok] le by (meson order_trans)
    with ok show ?thesis by (simp add: queue_ok_def)
  qed
  then have "queues_ok ?E ?s" using invD(2) [OF e] by (simp add: queues_ok_def live_queue_def)
  moreover have "lru_ok ?s"
  proof -
    have "\<forall>e a. (e, a) \<in> set (elems (ud_lru (dm_untriggered s))) \<longrightarrow> st_stamp (tstate s a) \<le> now"
      using lru_okD(4) [OF invD(5) [OF e]] le by (meson order_trans)
    with invD(5) [OF e] show ?thesis by (simp add: lru_ok_def live_trace_def)
  qed
  moreover have "trace_ok ?E ?s i a" if "live_trace s i a" for i a
    by (rule trace_ok_frame [OF invD(3) [OF e that]]) (simp_all add: live_fired_def live_queue_def)
  moreover have "fired_ok ?E ?s f" if "live_fired s tid f" for tid f
    using invD(4) [OF e that] by (simp add: fired_ok_def live_trace_def)
  moreover have "counts_ok ?s" using invD(6) [OF e] by (simp add: counts_ok_def cong: if_cong)
  ultimately show ?thesis
    using invD(1) [OF e] unfolding dm_inv_def inv_def
    by (simp add: live_trace_def live_fired_def live_queue_def)
qed

lemma agent_inv_now:
  "agent_inv a \<Longrightarrow> dm_now (ag_dm a) \<le> now \<Longrightarrow> agent_inv (a\<lparr>ag_dm := (ag_dm a)\<lparr>dm_now := now\<rparr>\<rparr>)"
  by (auto simp: agent_inv_def dm_inv_now live_queue_def intro: tm_inv_cong)

section \<open>The handlers keep the invariant and every buffer\<close>

lemma send_available_accounted:
  "accounted (send_available bufs a) = accounted a + mset bufs" "ag_dm (send_available bufs a) = ag_dm a"
  "ag_tm (send_available bufs a) = ag_tm a" "ag_cache_capacity (send_available bufs a) = ag_cache_capacity a"
  by (auto simp: send_available_def accounted_def chan_send_def)

lemma upd_am_accounted [simp]:
  "accounted (upd_am g a) = accounted a" "ag_dm (upd_am g a) = ag_dm a" "ag_tm (upd_am g a) = ag_tm a"
  by (simp_all add: upd_am_def accounted_def)

lemma accounted_dm: "accounted (a\<lparr>ag_dm := s\<rparr>) + held (ag_dm a) = accounted a + held s"
  by (simp add: accounted_def)

lemma accounted_dm_held:
  "held s = held (ag_dm a) \<Longrightarrow> accounted (a\<lparr>ag_dm := s\<rparr>) = accounted a"
  by (simp add: accounted_def)

lemma maybeEvict_ok [ok_rules]:
  assumes inv: "agent_inv a"
  shows "ok (maybeEvict a) (\<lambda>a'. agent_inv a' \<and> accounted a' = accounted a \<and>
    dm_now (ag_dm a') = dm_now (ag_dm a) \<and>
    (0 \<le> ag_cache_capacity a \<longrightarrow> dm_buffer_count (ag_dm a') \<le> ag_cache_capacity a \<or>
       list_Len (ud_lru (dm_untriggered (ag_dm a'))) = 0))"
proof (cases "dm_buffer_count (ag_dm a) < ag_cache_capacity a")
  case True
  then show ?thesis using inv by (simp add: maybeEvict_def)
next
  case False
  have d: "dm_inv (ag_dm a)" and t: "tm_inv (ag_tm a) (ag_dm a)" using inv by (simp_all add: agent_inv_def)
  show ?thesis
    unfolding maybeEvict_def if_not_P [OF False]
  proof (rule ok_bind [OF DM_CheckIdleTriggers_ok [OF d]], goal_cases)
    case (1 s1)
    then have d1: "dm_inv s1" and h1: "held s1 = held (ag_dm a)" and n1: "dm_now s1 = dm_now (ag_dm a)"
      and q1: "\<And>k q. live_queue s1 k q \<longleftrightarrow> live_queue (ag_dm a) k q" by auto
    show ?case
    proof (rule ok_bind [OF DM_EvictedTriggeredToCapacity_ok [OF d1]], clarify, goal_cases)
      case (1 ev2 s2)
      note two = this
      show ?case
        unfolding Let_def
      proof (rule ok_bind [OF DM_EvictToCapacity_ok [OF two(1)]], clarify, goal_cases)
        case (1 ev3 s3)
        have fr: "frame s2 s3" using 1(2) by (rule still_frame)
        have t3: "tm_inv (ag_tm a) s3"
          by (rule tm_inv_cong [OF t]) (use frame_live_queue [OF fr] two(4) q1 in auto)
        have h: "held (ag_dm a) = mset ev2 + (mset ev3 + held s3)" using h1 two(2) 1(3) by simp
        have "accounted (send_available ev3 ((send_available ev2 (a\<lparr>ag_dm := s2\<rparr>))\<lparr>ag_dm := s3\<rparr>)) = accounted a"
          using h by (simp add: send_available_accounted) (simp add: accounted_def send_available_def chan_send_def ac_simps)
        with 1 t3 n1 two(3) fr show ?case
          by (simp add: agent_inv_def send_available_accounted frame_def)
      qed
    qed
  qed
qed

lemma complete_one_ok:
  assumes inv: "agent_inv a"
  shows "ok (complete_one (t, bufs) (freed, a)) (\<lambda>(freed', a'). agent_inv a' \<and>
    accounted a' + mset freed' = accounted a + mset freed + mset bufs \<and> dm_now (ag_dm a') = dm_now (ag_dm a))"
proof (cases "t = 0")
  case True
  then show ?thesis using inv by (simp add: complete_one_def agent_inv_def ac_simps)
next
  case False
  have d: "dm_inv (ag_dm a)" and tm: "tm_inv (ag_tm a) (ag_dm a)" using inv by (simp_all add: agent_inv_def)
  let ?a1 = "upd_am (\<lambda>m. m\<lparr>am_complete_buffers := am_complete_buffers m + len bufs\<rparr>) a"
  have "ok (rbind (DM_AddBuffers t bufs (ag_dm ?a1)) (\<lambda>s. Inr (freed, ?a1\<lparr>ag_dm := s\<rparr>))) (\<lambda>(freed', a'). agent_inv a' \<and>
    accounted a' + mset freed' = accounted a + mset freed + mset bufs \<and> dm_now (ag_dm a') = dm_now (ag_dm a))"
  proof (rule ok_bind [OF DM_AddBuffers_ok], goal_cases)
    case (2 s)
    then show ?case using tm by (auto simp: agent_inv_def accounted_def upd_am_def ac_simps intro: tm_inv_cong)
  qed (use d in simp)
  with False show ?thesis by (simp add: complete_one_def Let_def)
qed

lemma processCompletedBuffers_ok [ok_rules]:
  assumes inv: "agent_inv a"
  shows "ok (processCompletedBuffers batch a) (\<lambda>a'. agent_inv a' \<and>
    accounted a' = accounted a + msum (\<lambda>(t, bufs). mset bufs) batch \<and> dm_now (ag_dm a') = dm_now (ag_dm a))"
proof -
  define I where "I = (\<lambda>(ys :: CompleteBatch) (freed, a' :: 'a Agent). agent_inv a' \<and>
    accounted a' + mset freed = accounted a + msum (\<lambda>(t, bufs). mset bufs) ys \<and> dm_now (ag_dm a') = dm_now (ag_dm a))"
  have "ok (rfold complete_one batch ([], a)) (I batch)"
  proof (rule ok_rfold)
    show "I [] ([], a)" using inv by (simp add: I_def)
  next
    fix ys zs :: CompleteBatch and x :: "u64 \<times> buffer list" and st assume "I ys st"
    obtain t bufs where x: "x = (t, bufs)" by (cases x)
    obtain freed a1 where st: "st = (freed, a1)" by (cases st)
    have i: "agent_inv a1" "accounted a1 + mset freed = accounted a + msum (\<lambda>(t, bufs). mset bufs) ys"
      "dm_now (ag_dm a1) = dm_now (ag_dm a)" using \<open>I ys st\<close> by (simp_all add: I_def st)
    show "ok (complete_one x st) (I (ys @ [x]))"
      unfolding x st
      by (rule ok_mono [OF complete_one_ok [OF i(1)]]) (use i in \<open>auto simp: I_def add.assoc\<close>)
  qed
  then show ?thesis
    unfolding processCompletedBuffers_def
  proof (rule ok_bind, clarify, goal_cases)
    case (1 freed a1)
    then have i: "agent_inv a1" "accounted a1 + mset freed = accounted a + msum (\<lambda>(t, bufs). mset bufs) batch"
      "dm_now (ag_dm a1) = dm_now (ag_dm a)" by (simp_all add: I_def)
    show ?case
      by (rule ok_bind [OF maybeEvict_ok [OF i(1)]])
        (use i in \<open>auto simp: agent_inv_def send_available_accounted\<close>)
  qed
qed

lemma forward_simps [simp]:
  "ag_dm (forward_breadcrumbs bcs num a) = ag_dm a" "ag_tm (forward_breadcrumbs bcs num a) = ag_tm a"
  "accounted (forward_breadcrumbs bcs num a) = accounted a"
  "ag_dm (forward_triggers ts a) = ag_dm a" "ag_tm (forward_triggers ts a) = ag_tm a"
  "accounted (forward_triggers ts a) = accounted a"
  by (simp_all add: forward_breadcrumbs_def forward_triggers_def upd_am_def accounted_def)

lemma accounted_same:
  "held s = held (ag_dm a) \<Longrightarrow> accounted (a\<lparr>ag_dm := s\<rparr>) = accounted a"
  "accounted (a\<lparr>ag_tm := tm\<rparr>) = accounted a"
  by (simp_all add: accounted_def)

lemma processBreadcrumbs_ok [ok_rules]:
  assumes inv: "agent_inv a"
  shows "ok (processBreadcrumbs batch a) (\<lambda>a'. agent_inv a' \<and> accounted a' = accounted a \<and>
    dm_now (ag_dm a') = dm_now (ag_dm a))"
proof -
  define I where "I = (\<lambda>(m :: breadcrumb_map, num :: int, s). dm_inv s \<and> held s = held (ag_dm a) \<and>
    dm_now s = dm_now (ag_dm a) \<and> (\<forall>k q. live_queue s k q \<longleftrightarrow> live_queue (ag_dm a) k q))"
  have "ok (rfold breadcrumbs_one batch ([], 0, ag_dm a)) I"
  proof (rule ok_rfold_inv)
    fix x :: "u64 \<times> string list" and st assume "I st"
    obtain t bcs where x: "x = (t, bcs)" by (cases x)
    obtain m num s where st: "st = (m, num, s)" by (cases st)
    have d: "dm_inv s" using \<open>I st\<close> by (simp add: I_def st)
    show "ok (breadcrumbs_one x st) I"
    proof (cases "t = 0")
      case True
      then show ?thesis using \<open>I st\<close> by (simp add: breadcrumbs_one_def x st)
    next
      case False
      have "ok (rbind (DM_AddBreadcrumbs t bcs s) (\<lambda>(bcs, s1).
         Inr (if len bcs > 0 then (mput t bcs m, num + len bcs, s1) else (m, num, s1)))) I"
        by (rule ok_bind [OF DM_AddBreadcrumbs_ok [OF d]]) (use \<open>I st\<close> in \<open>auto simp: I_def st\<close>)
      with False show ?thesis by (simp add: breadcrumbs_one_def x st)
    qed
  qed (use inv in \<open>simp add: I_def agent_inv_def\<close>)
  then show ?thesis
    unfolding processBreadcrumbs_def
  proof (rule ok_bind, clarify, goal_cases)
    case (1 m num s)
    then have "tm_inv (ag_tm a) s" using inv by (auto simp: I_def agent_inv_def intro: tm_inv_cong)
    with 1 show ?case by (simp add: I_def agent_inv_def accounted_same)
  qed
qed

text \<open>A local trigger that is not dropped attaches its trace to the fired trigger, and is forwarded.\<close>

lemma local_trigger_one_ok:
  assumes d: "dm_inv s" and t: "tm_inv tm s"
  shows "ok (local_trigger_one rl t (fwd, bc, tm, s)) (\<lambda>(fwd', bc', tm', s'). dm_inv s' \<and> tm_inv tm' s' \<and>
    held s' = held s \<and> dm_now s' = dm_now s \<and>
    (fwd' = fwd \<or> fwd' = fwd @ [t] \<and>
      (\<exists>f. live_fired s' \<lparr>queue_id = Queue_id t, base_trace_id = Base_trace_id t\<rparr> f \<and> linked s' f (Trace_id t))))"
proof -
  obtain mq tm1 s1 where g: "TM_getQueue rl (Queue_id t) (tm, s) = (mq, tm1, s1)"
    by (cases "TM_getQueue rl (Queue_id t) (tm, s)")
  note n = TM_getQueue_ok [OF d t g]
  have d1: "dm_inv s1" and t1: "tm_inv tm1 s1" and m1: "mget (tm_queues tm1) (Queue_id t) = Some mq" using n by blast+
  show ?thesis
    unfolding local_trigger_one_def prod.case g Let_def
    by (rule ok_bind [OF MQ_TriggerLocal_ok [OF d1 t1 m1]]) (use n in auto)
qed

lemma remote_trigger_one_ok:
  assumes d: "dm_inv s" and t: "tm_inv tm s"
  shows "ok (remote_trigger_one rl t (bc, tm, s)) (\<lambda>(bc', tm', s'). dm_inv s' \<and> tm_inv tm' s' \<and>
    held s' = held s \<and> dm_now s' = dm_now s \<and>
    (\<exists>f. live_fired s' \<lparr>queue_id = Queue_id t, base_trace_id = Base_trace_id t\<rparr> f \<and> linked s' f (Trace_id t)))"
proof -
  obtain mq tm1 s1 where g: "TM_getQueue rl (Queue_id t) (tm, s) = (mq, tm1, s1)"
    by (cases "TM_getQueue rl (Queue_id t) (tm, s)")
  note n = TM_getQueue_ok [OF d t g]
  have d1: "dm_inv s1" and t1: "tm_inv tm1 s1" and m1: "mget (tm_queues tm1) (Queue_id t) = Some mq" using n by blast+
  show ?thesis
    unfolding remote_trigger_one_def prod.case g Let_def
    by (rule ok_bind [OF MQ_TriggerRemote_ok [OF d1 t1 m1]]) (use n in auto)
qed

lemma processTriggers_ok [ok_rules]:
  assumes inv: "agent_inv a"
  shows "ok (processTriggers rl batch a) (\<lambda>a'. agent_inv a' \<and> accounted a' = accounted a \<and>
    dm_now (ag_dm a') = dm_now (ag_dm a))"
proof -
  define I where "I = (\<lambda>(fwd :: Trigger list, bc :: breadcrumb_map \<times> int, tm :: 'a TriggerManager, s).
    dm_inv s \<and> tm_inv tm s \<and> held s = held (ag_dm a) \<and> dm_now s = dm_now (ag_dm a))"
  have "ok (rfold (local_trigger_one rl) batch ([], ([], 0), ag_tm a, ag_dm a)) I"
  proof (rule ok_rfold_inv)
    fix x st assume "I st"
    obtain fwd bc tm s where st: "st = (fwd, bc, tm, s)" by (cases st)
    have "dm_inv s" "tm_inv tm s" using \<open>I st\<close> by (simp_all add: I_def st)
    from local_trigger_one_ok [OF this, of rl x fwd bc] \<open>I st\<close> show "ok (local_trigger_one rl x st) I"
      unfolding st by (auto simp: I_def elim!: ok_mono)
  qed (use inv in \<open>simp add: I_def agent_inv_def\<close>)
  then show ?thesis
    unfolding processTriggers_def
    by (rule ok_bind) (auto simp: I_def agent_inv_def accounted_same)
qed

lemma processRemoteTriggers_ok [ok_rules]:
  assumes inv: "agent_inv a"
  shows "ok (processRemoteTriggers rl batch a) (\<lambda>a'. agent_inv a' \<and> accounted a' = accounted a \<and>
    dm_now (ag_dm a') = dm_now (ag_dm a))"
proof -
  define I where "I = (\<lambda>(bc :: breadcrumb_map \<times> int, tm :: 'a TriggerManager, s).
    dm_inv s \<and> tm_inv tm s \<and> held s = held (ag_dm a) \<and> dm_now s = dm_now (ag_dm a))"
  have "ok (rfold (remote_trigger_one rl) batch (([], 0), ag_tm a, ag_dm a)) I"
  proof (rule ok_rfold_inv)
    fix x st assume "I st"
    obtain bc tm s where st: "st = (bc, tm, s)" by (cases st)
    have "dm_inv s" "tm_inv tm s" using \<open>I st\<close> by (simp_all add: I_def st)
    from remote_trigger_one_ok [OF this, of rl x bc] \<open>I st\<close> show "ok (remote_trigger_one rl x st) I"
      unfolding st by (auto simp: I_def elim!: ok_mono)
  qed (use inv in \<open>simp add: I_def agent_inv_def\<close>)
  then show ?thesis
    unfolding processRemoteTriggers_def
    by (rule ok_bind) (auto simp: I_def agent_inv_def accounted_same)
qed

section \<open>The loop\<close>

text \<open>Partial correctness, for every limiter: what the batch loop returns is accounted for.\<close>

lemma batch_loop_partial:
  assumes "batch_loop rl bufs st = Some r"
  shows "dm_inv (snd st) \<longrightarrow> tm_inv (fst st) (snd st) \<longrightarrow> ok r (\<lambda>(bufs', tm', s'). dm_inv s' \<and> tm_inv tm' s' \<and>
    held (snd st) + mset bufs = mset bufs' + held s' \<and> dm_now s' = dm_now (snd st))"
  using assms
proof (induction rule: batch_loop.raw_induct [rotated, consumes 1])
  case (1 loop rl bufs st r)
  obtain tm s where st: "st = (tm, s)" by (cases st)
  show ?case
  proof (intro impI)
    assume d: "dm_inv (snd st)" and t: "tm_inv (fst st) (snd st)"
    show "ok r (\<lambda>(bufs', tm', s'). dm_inv s' \<and> tm_inv tm' s' \<and> held (snd st) + mset bufs = mset bufs' + held s' \<and>
        dm_now s' = dm_now (snd st))"
    proof (cases "len bufs < tm_batch_size tm \<and> 0 < td_buffer_count (dm_triggered s)")
      case False
      then have "r = Inr (bufs, tm, s)" using 1(2) by (auto simp: st)
      then show ?thesis using d t by (simp add: st)
    next
      case True
      from getNextBuffersToReport_ok [of s tm rl] d t obtain b tm1 s1 where
        g: "getNextBuffersToReport rl (tm, s) = Inr (b, tm1, s1)" "report_step rl (tm, s) (b, tm1, s1)"
        by (auto simp: ok_iff st)
      have "loop rl (bufs @ b) (tm1, s1) = Some r" using 1(2) True g(1) by (simp add: st)
      from 1(1) [OF this] g(2) show ?thesis by (auto simp: report_step_def st ac_simps elim!: ok_mono)
    qed
  qed
qed

lemma next_batch_partial:
  assumes inv: "agent_inv a" and n: "next_batch rl a = Inr a'"
  shows "agent_inv a' \<and> accounted a' + mset (ag_data_to_report a) = accounted a \<and> dm_now (ag_dm a') = dm_now (ag_dm a)"
proof -
  obtain bufs tm s where g: "batch_loop rl [] (ag_tm a, ag_dm a) = Some (Inr (bufs, tm, s))"
    and a': "a' = a\<lparr>ag_tm := tm, ag_dm := s, ag_data_to_report := bufs\<rparr>"
    using n by (cases "batch_loop rl [] (ag_tm a, ag_dm a)") (auto simp: next_batch_def GetNextBatchToReport_def rbind_eq_Inr)
  from batch_loop_partial [OF g] inv show ?thesis by (simp add: agent_inv_def a' accounted_def ac_simps)
qed

lemma iteration_partial:
  assumes inv: "agent_inv a" and now: "dm_now (ag_dm a) \<le> now" and ready: "ready ev a"
    and it: "iteration rl now ev a = Inr a'"
  shows "agent_inv a' \<and> accounted a' = accounted a + event_buffers ev \<and> dm_now (ag_dm a') = now"
proof -
  let ?a = "a\<lparr>ag_dm := (ag_dm a)\<lparr>dm_now := now\<rparr>\<rparr>"
  have i: "agent_inv ?a" by (rule agent_inv_now [OF inv now])
  have acc: "accounted ?a = accounted a" by (simp add: accounted_def)
  have nw: "dm_now (ag_dm ?a) = now" by simp
  show ?thesis
  proof (cases ev)
    case Timer
    then have "next_batch rl ?a = Inr a'" "ag_data_to_report ?a = []" using it ready by (simp_all add: iteration_def)
    with next_batch_partial [OF i] acc Timer show ?thesis by fastforce
  next
    case Report
    let ?b = "?a\<lparr>ag_data := chan_send (ag_data_to_report ?a) (ag_data ?a)\<rparr>"
    have "next_batch rl ?b = Inr a'" using it Report by (simp add: iteration_def)
    moreover have "agent_inv ?b" using i by (simp add: agent_inv_def)
    moreover have "accounted ?b = accounted ?a + mset (ag_data_to_report a)" by (simp add: accounted_def chan_send_def)
    ultimately show ?thesis using next_batch_partial [of ?b rl a'] acc Report by simp
  next
    case (RemoteTriggers ts)
    with processRemoteTriggers_ok [OF i, of rl ts] it acc show ?thesis by (simp add: iteration_def)
  next
    case (LocalTriggers ts)
    with processTriggers_ok [OF i, of rl ts] it acc show ?thesis by (simp add: iteration_def)
  next
    case (Complete batch)
    with processCompletedBuffers_ok [OF i, of batch] it acc show ?thesis by (simp add: iteration_def)
  next
    case (Breadcrumbs batch)
    with processBreadcrumbs_ok [OF i, of batch] it acc show ?thesis by (simp add: iteration_def)
  qed
qed

lemma agent_step_ok:
  assumes "agent_step rl a evs a'" "agent_inv a"
  shows "agent_inv a' \<and> accounted a' = accounted a + sum_list (map event_buffers evs)"
  using assms(1)
proof (cases rule: agent_step.cases)
  case (iterate ev now)
  with iteration_partial [OF assms(2)] show ?thesis by simp
next
  case (order_managed m)
  have "mok (tm_queues (ag_tm a))" using assms(2) by (simp add: agent_inv_def tm_inv_def)
  note r = reordered [OF order_managed(3) this]
  show ?thesis using assms(2) r(1,2) by (simp add: order_managed agent_inv_def tm_inv_def accounted_def)
next
  case (order_queues m)
  with reorder_queues_inv [of "ag_dm a" m] assms(2) show ?thesis
    by (auto simp: agent_inv_def accounted_def elim: tm_inv_cong)
next
  case (order_links tid f m)
  with reorder_links_inv [of "ag_dm a" tid f m] assms(2) show ?thesis
    by (auto simp: agent_inv_def accounted_def elim: tm_inv_cong)
qed (use assms(2) in \<open>simp_all add: agent_inv_def accounted_def chan_receive_def\<close>)

lemma agent_run_ok:
  assumes "agent_run rl a evs a'" "agent_inv a"
  shows "agent_inv a' \<and> accounted a' = accounted a + sum_list (map event_buffers evs)"
  using assms
proof (induction rule: agent_run.induct)
  case (step a evs a' ev a'')
  with agent_step_ok [OF step.hyps(2)] show ?case by (simp add: add.assoc)
qed simp

lemma next_batch_ok:
  assumes inv: "agent_inv a" and gen: "refilling rl"
  shows "\<exists>a'. next_batch rl a = Inr a'"
proof -
  have "ok (GetNextBatchToReport rl (ag_tm a, ag_dm a)) (\<lambda>_. True)"
    by (rule ok_mono [OF GetNextBatchToReport_ok [OF _ _ gen]]) (use inv in \<open>auto simp: agent_inv_def\<close>)
  then show ?thesis by (auto simp: next_batch_def ok_iff)
qed

lemma iteration_ok:
  assumes inv: "agent_inv a" and now: "dm_now (ag_dm a) \<le> now" and gen: "refilling rl"
  shows "\<exists>a'. iteration rl now ev a = Inr a'"
proof -
  let ?a = "a\<lparr>ag_dm := (ag_dm a)\<lparr>dm_now := now\<rparr>\<rparr>"
  have i: "agent_inv ?a" by (rule agent_inv_now [OF inv now])
  have r: "\<exists>x. e = Inr x" if "ok e P" for e :: "'a Agent result" and P using that by (auto simp: ok_iff)
  have i2: "agent_inv (?a\<lparr>ag_data := chan_send (ag_data_to_report ?a) (ag_data ?a)\<rparr>)"
    using i by (simp add: agent_inv_def)
  show ?thesis
    unfolding iteration_def Let_def
    by (cases ev) (use next_batch_ok [OF i gen] next_batch_ok [OF i2 gen] r [OF processRemoteTriggers_ok [OF i]]
        r [OF processTriggers_ok [OF i]] r [OF processCompletedBuffers_ok [OF i]] r [OF processBreadcrumbs_ok [OF i]]
        in simp_all)
qed

lemma InitAgent2_ok:
  assumes "0 < buffer_size"
  shows "ok (InitAgent2 rl now capacity buffer_size limit limits) (\<lambda>a. agent_inv a \<and> accounted a = {#})"
  unfolding InitAgent2_def
proof (rule ok_bind [OF TM_Init_ok [OF assms, of limit now]], goal_cases)
  case (1 tm)
  obtain tm' dm where c: "TM_ConfigureRateLimits rl limits (tm, InitDataManager now) = (tm', dm)"
    by (cases "TM_ConfigureRateLimits rl limits (tm, InitDataManager now)")
  have h: "held (InitDataManager now) = {#}" by (simp add: held_def InitDataManager_def)
  from TM_ConfigureRateLimits_ok [OF inv_Init _ c] 1 h show ?case
    by (simp add: c agent_inv_def accounted_def chan_make_def Let_def)
qed

section \<open>Properties\<close>

lemma one_step_run:
  assumes "agent_inv a" "dm_now (ag_dm a) \<le> now" "refilling rl" "ready ev a"
  shows "\<exists>a'. agent_run rl a [ev] a'"
proof -
  obtain a' where "iteration rl now ev a = Inr a'" using iteration_ok [OF assms(1-3)] by blast
  then have "agent_step rl a [ev] a'" by (rule agent_step.iterate [OF assms(4,2)])
  with agent_run.step [OF agent_run.start] show ?thesis by (metis append_Nil)
qed

lemma init_ticking:
  "\<exists>a. InitAgent2 ticking 0 capacity 4096 0 [] = Inr a \<and> agent_inv a \<and> dm_now (ag_dm a) = 0"
proof -
  obtain a where a: "InitAgent2 ticking 0 capacity 4096 0 [] = Inr a" "agent_inv a"
    using InitAgent2_ok [of 4096 ticking 0 capacity 0 "[]"] by (auto simp: ok_iff)
  from a(1) have "dm_now (ag_dm a) = 0"
    by (auto simp: InitAgent2_def TM_Init_def TM_ConfigureRateLimits_def Let_def InitDataManager_def)
  with a show ?thesis by blast
qed

text \<open>C1: The agent neither loses nor duplicates a buffer.  Whatever the events, their order, the
  rate limits and the progress of the other goroutines: the buffers that came in from shared memory
  are exactly those that the data manager holds, those waiting to be reported, those handed to the
  reporting goroutine and those handed back for reuse.\<close>

theorem agent_conserves_buffers:
  assumes "InitAgent2 rl now capacity buffer_size limit limits = Inr a0" and "0 < buffer_size"
    and "agent_run rl a0 evs a"
  shows "held (ag_dm a) + mset (ag_data_to_report a) + mset (concat (ch_log (ag_data a))) +
      mset (concat (ch_log (ag_available a))) = sum_list (map event_buffers evs)"
proof -
  have "agent_inv a0" "accounted a0 = {#}" using InitAgent2_ok [OF assms(2), of rl now capacity limit limits] assms(1) by auto
  with agent_run_ok [OF assms(3)] show ?thesis by (simp add: accounted_def)
qed

theorem agent_conserves_buffers_witness:
  "\<exists>a0 a. InitAgent2 ticking 0 100 4096 0 [] = Inr a0 \<and> agent_run ticking a0 [Complete [(7, [1, 2]), (0, [3])]] a \<and>
     held (ag_dm a) + mset (ag_data_to_report a) + mset (concat (ch_log (ag_data a))) +
       mset (concat (ch_log (ag_available a))) = {#1, 2, 3#}"
proof -
  obtain a0 where a0: "InitAgent2 ticking 0 100 4096 0 [] = Inr a0" "agent_inv a0" "dm_now (ag_dm a0) = 0"
    using init_ticking by blast
  obtain a where "agent_run ticking a0 [Complete [(7, [1, 2]), (0, [3])]] a"
    using one_step_run [OF a0(2) _ refilling_ticking, of 0 "Complete [(7, [1, 2]), (0, [3])]"] a0(3) by auto
  with agent_conserves_buffers [OF a0(1) _ this] a0(1) show ?thesis by auto
qed



text \<open>C5: In every reachable state the data manager is consistent: each trace is in exactly the lists
  and maps that its state says, the links between traces and fired triggers agree in both
  directions, the least-recently-used lists are ordered by time, and every counter equals what it
  counts; and each of its queues is managed by the trigger manager.\<close>

theorem agent_reachable_consistent:
  assumes "InitAgent2 rl now capacity buffer_size limit limits = Inr a0" and "0 < buffer_size"
    and "agent_run rl a0 evs a"
  shows "dm_inv (ag_dm a) \<and> tm_inv (ag_tm a) (ag_dm a)"
proof -
  have "agent_inv a0" using InitAgent2_ok [OF assms(2), of rl now capacity limit limits] assms(1) by auto
  with agent_run_ok [OF assms(3)] show ?thesis by (simp add: agent_inv_def)
qed

theorem agent_reachable_consistent_witness:
  "\<exists>a0 a. InitAgent2 ticking 0 100 4096 0 [] = Inr a0 \<and> agent_run ticking a0 [Complete [(7, [1])]] a \<and>
     dm_inv (ag_dm a) \<and> tm_inv (ag_tm a) (ag_dm a)"
proof -
  obtain a0 where a0: "InitAgent2 ticking 0 100 4096 0 [] = Inr a0" "agent_inv a0" "dm_now (ag_dm a0) = 0"
    using init_ticking by blast
  obtain a where "agent_run ticking a0 [Complete [(7, [1])]] a"
    using one_step_run [OF a0(2) _ refilling_ticking, of 0 "Complete [(7, [1])]"] a0(3) by auto
  with agent_reachable_consistent [OF a0(1) _ this] a0(1) show ?thesis by auto
qed

text \<open>After completed buffers were processed and eviction ran, the data manager is within the cache
  capacity or holds no untriggered trace that could still be evicted.\<close>

theorem maybeEvict_frees_cache:
  assumes "dm_inv (ag_dm a)" and "tm_inv (ag_tm a) (ag_dm a)" and "0 \<le> ag_cache_capacity a"
  shows "\<exists>a'. maybeEvict a = Inr a' \<and> (dm_buffer_count (ag_dm a') \<le> ag_cache_capacity a \<or>
      ud_trace_count (dm_untriggered (ag_dm a')) = 0)"
proof -
  have "agent_inv a" using assms by (simp add: agent_inv_def)
  from maybeEvict_ok [OF this] assms(3) show ?thesis
    using untriggered_count by (auto simp: ok_iff agent_inv_def)
qed

theorem maybeEvict_frees_cache_witness:
  "\<exists>a a'. InitAgent2 ticking 0 100 4096 0 [] = Inr a \<and> maybeEvict a = Inr a' \<and>
     (dm_buffer_count (ag_dm a') \<le> 80 \<or> ud_trace_count (dm_untriggered (ag_dm a')) = 0)"
proof -
  obtain a where a: "InitAgent2 ticking 0 100 4096 0 [] = Inr a" "agent_inv a" using init_ticking by blast
  have "ag_cache_capacity a = 80"
    using a(1) by (auto simp: InitAgent2_def TM_Init_def TM_ConfigureRateLimits_def Let_def)
  with maybeEvict_frees_cache [of a] a show ?thesis by (auto simp: agent_inv_def)
qed

end
