(* ===== verification/Shm_Loops.thy ===== *)
theory Shm_Loops
  imports Shm_Api
begin

text \<open>
  The four goroutines of \<^verbatim>\<open>GoAgentAPI\<close> (\<^verbatim>\<open>pkg/memory/memory.go\<close>): three poll a shared-memory queue with
  a backoff and send what they find into a channel, one writes returned buffers to the available
  queue.  Each loop runs over a finite list of turns, which describes a run up to some point in time.
\<close>

section \<open>The loops\<close>

text \<open>What a turn of a polling loop finds: the context is cancelled (at its start or during the pause
  before it), or a drain with the given polls.\<close>

datatype 'e turn = Turn_cancelled | Turn "'e poll list"

text \<open>A loop that has not ended is inside a turn or between two; its state is the backoff, the pauses made
  so far, the messages sent to the channel and the queue.  \<open>None\<close>: the drain of the last turn is still
  going on.\<close>

record ('m, 'e) loop_state =
  ls_backoff :: int
  ls_pauses :: "int list"
  ls_sent :: "'m list"
  ls_queue :: "'e list"

fun poll_loop ::
    "('e list \<Rightarrow> int \<times> 'm \<times> 'e list) \<Rightarrow> 'e turn list \<Rightarrow> ('m, 'e) loop_state \<Rightarrow> (bool \<times> ('m, 'e) loop_state) option" where
  "poll_loop get [] st = Some (False, st)"
| "poll_loop get (Turn_cancelled # ts) st = Some (True, st)"
| "poll_loop get (Turn ps # ts) st =
     (case drain get 20 ps 0 (ls_sent st) (ls_queue st) of
        None \<Rightarrow> None
      | Some (tot, sent, q) \<Rightarrow>
          (let backoff = next_backoff tot (ls_backoff st)
           in poll_loop get ts \<lparr>ls_backoff = backoff, ls_pauses = ls_pauses st @ [backoff], ls_sent = sent, ls_queue = q\<rparr>))"

definition start_loop :: "'e list \<Rightarrow> ('m, 'e) loop_state" where
  "start_loop q = \<lparr>ls_backoff = 10, ls_pauses = [], ls_sent = [], ls_queue = q\<rparr>"

definition completeLoop ::
    "(u64 \<times> int) turn list \<Rightarrow> (u64 \<times> int) list \<Rightarrow> (bool \<times> (CompleteBatch, u64 \<times> int) loop_state) option" where
  "completeLoop ts q = poll_loop GetCompleteBatches ts (start_loop q)"

definition triggerLoop ::
    "(int \<times> u64 \<times> u64) turn list \<Rightarrow> (int \<times> u64 \<times> u64) list \<Rightarrow>
       (bool \<times> (Trigger list, int \<times> u64 \<times> u64) loop_state) option" where
  "triggerLoop ts q =
     poll_loop (\<lambda>q. let (triggers, q') = GetTriggers q in (int (length triggers), triggers, q')) ts (start_loop q)"

definition breadcrumbsLoop ::
    "(u64 \<times> string) turn list \<Rightarrow> (u64 \<times> string) list \<Rightarrow> (bool \<times> (BreadcrumbBatch, u64 \<times> string) loop_state) option" where
  "breadcrumbsLoop ts q = poll_loop GetBreadcrumbBatches ts (start_loop q)"

text \<open>\<^verbatim>\<open>availableLoop\<close>: \<open>None\<close> in the list is the cancellation; the queue is what the application can take.\<close>

fun availableLoop :: "int list option list \<Rightarrow> int list \<Rightarrow> bool \<times> int list" where
  "availableLoop [] queue = (False, queue)"
| "availableLoop (None # ms) queue = (True, queue)"
| "availableLoop (Some bufids # ms) queue = availableLoop ms (PutAvailable bufids queue)"

section \<open>Conservation and pauses\<close>

fun turn_polls :: "'e turn \<Rightarrow> 'e poll list" where
  "turn_polls Turn_cancelled = []"
| "turn_polls (Turn ps) = ps"

text \<open>Of every turn a part of the polls took place; \<open>arrivals\<close> relates the turns to the elements that
  came in with these polls.\<close>

inductive arrivals :: "'e turn list \<Rightarrow> 'e multiset \<Rightarrow> bool" where
  none: "arrivals ts {#}"
| some: "arrivals (Turn (used @ rest) # ts) (mset (arrived used) + A)" if "arrivals ts A"

context batch_source
begin

lemma poll_loop_conserves:
  "poll_loop get ts st = Some (ended, st') \<Longrightarrow> \<exists>A. arrivals ts A \<and>
    mset (ls_queue st) + A + sum_list (map content (ls_sent st)) = mset (ls_queue st') + sum_list (map content (ls_sent st'))"
proof (induction ts arbitrary: st)
  case Nil
  then show ?case by (auto intro: exI [of _ "{#}"] arrivals.none)
next
  case (Cons t ts)
  show ?case
  proof (cases t)
    case Turn_cancelled
    with Cons.prems show ?thesis by (auto intro: exI [of _ "{#}"] arrivals.none)
  next
    case (Turn ps)
    obtain tot sent q where d: "drain get 20 ps 0 (ls_sent st) (ls_queue st) = Some (tot, sent, q)"
      using Cons.prems Turn by (cases "drain get 20 ps 0 (ls_sent st) (ls_queue st)") auto
    obtain used rest where u: "ps = used @ rest"
      "mset (ls_queue st) + mset (arrived used) + sum_list (map content (ls_sent st)) = mset q + sum_list (map content sent)"
      using drain_conserves [OF d] by blast
    obtain A where A: "arrivals ts A" "mset q + A + sum_list (map content sent) =
        mset (ls_queue st') + sum_list (map content (ls_sent st'))"
      using Cons.IH Cons.prems Turn d by (fastforce simp: Let_def)
    have "mset (ls_queue st) + (mset (arrived used) + A) + sum_list (map content (ls_sent st)) =
        (mset (ls_queue st) + mset (arrived used) + sum_list (map content (ls_sent st))) + A" by (simp add: ac_simps)
    also have "\<dots> = mset (ls_queue st') + sum_list (map content (ls_sent st'))"
      unfolding u(2) A(2) [symmetric] by (simp add: ac_simps)
    finally show ?thesis using arrivals.some [OF A(1), of used rest] Turn u(1) by blast
  qed
qed

lemma poll_loop_pauses:
  "poll_loop get ts st = Some (ended, st') \<Longrightarrow> 0 \<le> ls_backoff st \<Longrightarrow>
   \<exists>ps. ls_pauses st' = ls_pauses st @ ps \<and> (\<forall>p \<in> set ps. 0 \<le> p \<and> p \<le> 100000) \<and> length ps \<le> length ts"
proof (induction ts arbitrary: st)
  case (Cons t ts)
  show ?case
  proof (cases t)
    case (Turn ps)
    obtain tot sent q where d: "drain get 20 ps 0 (ls_sent st) (ls_queue st) = Some (tot, sent, q)"
      using Cons.prems(1) Turn by (cases "drain get 20 ps 0 (ls_sent st) (ls_queue st)") auto
    let ?b = "next_backoff tot (ls_backoff st)"
    have b: "0 \<le> ?b" "?b \<le> 100000" using next_backoff_bounds [OF Cons.prems(2)] by blast+
    have "poll_loop get ts \<lparr>ls_backoff = ?b, ls_pauses = ls_pauses st @ [?b], ls_sent = sent, ls_queue = q\<rparr> = Some (ended, st')"
      using Cons.prems(1) Turn d by (simp add: Let_def)
    from Cons.IH [OF this] b obtain ps' where "ls_pauses st' = ls_pauses st @ [?b] @ ps'"
      "\<forall>p \<in> set ps'. 0 \<le> p \<and> p \<le> 100000" "length ps' \<le> length ts" by auto
    then show ?thesis using b by (intro exI [of _ "?b # ps'"]) auto
  qed (use Cons.prems in auto)
qed simp

end

section \<open>Properties\<close>

text \<open>The loop over the complete queue hands every completed buffer to the agent exactly once:
  whatever the application appends while it polls and pauses, and also when it is cancelled, the
  buffers that were queued or arrived with the polls that took place are those sent to the agent, each
  under its trace, and those still queued; and it never pauses for more than a tenth of a second.\<close>

theorem completeLoop_conserves:
  assumes "completeLoop ts q = Some (ended, st)"
  shows "(\<exists>A. arrivals ts A \<and> mset q + A = mset (ls_queue st) + sum_list (map pairs_of (ls_sent st))) \<and>
    (\<forall>pause \<in> set (ls_pauses st). 0 \<le> pause \<and> pause \<le> 100000)"
proof -
  note loop = assms [unfolded completeLoop_def]
  have "\<exists>A. arrivals ts A \<and> mset q + A = mset (ls_queue st) + sum_list (map pairs_of (ls_sent st))"
    using cb.poll_loop_conserves [OF loop] by (simp add: start_loop_def)
  moreover have "\<forall>pause \<in> set (ls_pauses st). 0 \<le> pause \<and> pause \<le> 100000"
    using cb.poll_loop_pauses [OF loop] by (auto simp: start_loop_def)
  ultimately show ?thesis by blast
qed

theorem completeLoop_conserves_witness:
  "\<exists>A. arrivals [Turn [Poll [(5, 2)]], Turn [Poll []], Turn_cancelled] A \<and>
     mset [(4, 1)] + A = mset [] + sum_list (map pairs_of [[(4 :: u64, [1 :: int]), (5, [2])]])"
proof -
  have "completeLoop [Turn [Poll [(5, 2)]], Turn [Poll []], Turn_cancelled] [(4, 1)] =
      Some (True, \<lparr>ls_backoff = 40, ls_pauses = [20, 40], ls_sent = [[(4, [1]), (5, [2])]], ls_queue = []\<rparr>)" by code_simp
  from completeLoop_conserves [OF this] show ?thesis by simp
qed

text \<open>The same for triggers and breadcrumbs.\<close>

lemma triggerLoop_conserves:
  assumes "triggerLoop ts q = Some (ended, st)"
  shows "\<exists>A. arrivals ts A \<and> mset q + A = mset (ls_queue st) +
    sum_list (map (\<lambda>ts. image_mset (\<lambda>t. (Queue_id t, Base_trace_id t, Trace_id t)) (mset ts)) (ls_sent st))"
  using tb.poll_loop_conserves [OF assms [unfolded triggerLoop_def]] by (simp add: start_loop_def)

lemma breadcrumbsLoop_conserves:
  assumes "breadcrumbsLoop ts q = Some (ended, st)"
  shows "\<exists>A. arrivals ts A \<and> mset q + A = mset (ls_queue st) + sum_list (map pairs_of (ls_sent st))"
  using bb.poll_loop_conserves [OF assms [unfolded breadcrumbsLoop_def]] by (simp add: start_loop_def)

text \<open>Every buffer handed to the available loop before it is cancelled is appended to the available
  queue, in order.\<close>

lemma availableLoop_returns_all:
  assumes "\<forall>ids \<in> set ms. \<forall>x \<in> set ids. - (2 ^ 31) \<le> x \<and> x < 2 ^ 31"
  shows "availableLoop (map Some ms @ [None]) queue = (True, queue @ concat ms)"
  using assms
proof (induction ms arbitrary: queue)
  case (Cons ids ms)
  have "map c_int ids = ids" using Cons.prems by (intro map_idI) (simp add: c_int_id)
  then have "PutAvailable ids queue = queue @ ids" by (simp add: PutAvailable_def fold_append put_batches_concat)
  with Cons show ?case by simp
qed simp

end
