(* ===== verification/Byte_Stream.thy ===== *)
theory Byte_Stream
  imports Go_Bytes
begin

text \<open>
  Connections and files as the reporting goroutine and the collector use them: the write and read
  loops and the length-prefixed frames (\<^verbatim>\<open>pkg/agent/reporting.go\<close>,
  \<^verbatim>\<open>pkg/collector/collector.go\<close>, \<^verbatim>\<open>pkg/collector/fileio.go\<close>).

  The network decides how many bytes a call of \<^verbatim>\<open>Write\<close> or \<^verbatim>\<open>Read\<close> moves and when it fails.
  A writer carries the list of its coming outcomes, after which every call takes all bytes; a
  reader carries the pieces in which the bytes arrive, after which it reports the end.  Theorems
  quantify over both.
\<close>

datatype io_error = Broken | EndOfStream | InvalidSize nat

section \<open>Writing\<close>

datatype write_outcome = Takes nat | Fails nat

record writer =
  w_written :: "byte list"
  w_outcomes :: "write_outcome list"

text \<open>One call of \<^verbatim>\<open>Write\<close>: the number of bytes written, whether there was an error, and the writer.\<close>

definition io_Write :: "byte list \<Rightarrow> writer \<Rightarrow> nat \<times> bool \<times> writer" where
  "io_Write src w =
     (case w_outcomes w of
        [] \<Rightarrow> (length src, False, w\<lparr>w_written := w_written w @ src\<rparr>)
      | Takes k # os \<Rightarrow>
          (min k (length src), False, w\<lparr>w_written := w_written w @ take k src, w_outcomes := os\<rparr>)
      | Fails k # os \<Rightarrow>
          (min k (length src), True, w\<lparr>w_written := w_written w @ take k src, w_outcomes := os\<rparr>))"

lemma io_Write_measure:
  assumes "io_Write src w = (n, err, w')" and "src \<noteq> []"
  shows "length (drop n src) + length (w_outcomes w') < length src + length (w_outcomes w)"
  using assms by (auto simp: io_Write_def split: list.splits write_outcome.splits)

text \<open>The loop of \<^verbatim>\<open>doWrite\<close>: whether it failed, and the writer.\<close>

function doWrite :: "byte list \<Rightarrow> writer \<Rightarrow> bool \<times> writer" where
  "doWrite src w =
     (if src = [] then (False, w)
      else
        (let (written, err, w') = io_Write src w
         in if err then (True, w') else doWrite (drop written src) w'))"
  by pat_completeness auto
termination
proof (relation "measure (\<lambda>(src, w). length src + length (w_outcomes w))", goal_cases)
  case (2 src w r n y err w')
  with io_Write_measure [of src w n err w'] show ?case by simp
qed simp

declare doWrite.simps [simp del]

text \<open>\<^verbatim>\<open>PutUint32\<close> keeps the low 32 bits of the length.\<close>

definition frame_bytes :: "byte list \<Rightarrow> byte list" where
  "frame_bytes buf = le_bytes 4 (length buf) @ buf"

definition writeLengthPrefixed :: "byte list \<Rightarrow> writer \<Rightarrow> bool \<times> writer" where
  "writeLengthPrefixed buf w =
     (let (err, w1) = doWrite (le_bytes 4 (length buf)) w
      in if err then (err, w1) else doWrite buf w1)"

section \<open>Reading\<close>

type_synonym reader = "byte list list"

text \<open>One call of \<^verbatim>\<open>Read\<close> into a slice of \<open>n\<close> bytes.\<close>

fun io_Read :: "nat \<Rightarrow> reader \<Rightarrow> io_error + byte list \<times> reader" where
  "io_Read n [] = Inl EndOfStream"
| "io_Read n (c # cs) = Inr (take n c, if length c \<le> n then cs else drop n c # cs)"

lemma io_Read_measure:
  "io_Read n cs = Inr (bs, cs') \<Longrightarrow> n \<noteq> 0 \<Longrightarrow> n - length bs + length cs' < n + length cs"
  by (cases cs) (auto split: if_splits)

text \<open>The loop of \<^verbatim>\<open>doRead\<close>; \<open>n\<close> bytes are still missing.\<close>

function doRead :: "nat \<Rightarrow> reader \<Rightarrow> io_error + byte list \<times> reader" where
  "doRead n cs =
     (if n = 0 then Inr ([], cs)
      else
        (case io_Read n cs of
           Inl e \<Rightarrow> Inl e
         | Inr (bs, cs') \<Rightarrow> rbind (doRead (n - length bs) cs') (\<lambda>(r, cs''). Inr (bs @ r, cs''))))"
  by pat_completeness auto
termination
  by (relation "measure (\<lambda>(n, cs). n + length cs)") (auto dest: io_Read_measure)

declare doRead.simps [simp del]

definition readLengthPrefixed :: "reader \<Rightarrow> io_error + byte list \<times> reader" where
  "readLengthPrefixed cs =
     rbind (doRead 4 cs) (\<lambda>(szbuf, cs1). doRead (le_nat szbuf) cs1)"

text \<open>Reading from a file: a read of no bytes is an error, and so is a length over 100 MB.\<close>

function doFileRead :: "nat \<Rightarrow> reader \<Rightarrow> io_error + byte list \<times> reader" where
  "doFileRead n cs =
     (if n = 0 then Inr ([], cs)
      else
        (case io_Read n cs of
           Inl e \<Rightarrow> Inl e
         | Inr (bs, cs') \<Rightarrow>
             if bs = [] then Inl EndOfStream
             else rbind (doFileRead (n - length bs) cs') (\<lambda>(r, cs''). Inr (bs @ r, cs''))))"
  by pat_completeness auto
termination
  by (relation "measure (\<lambda>(n, cs). n + length cs)") (auto dest: io_Read_measure)

declare doFileRead.simps [simp del]

definition MAX_FRAME :: nat where
  "MAX_FRAME = 1024 * 1024 * 100"

definition readFileLengthPrefixed :: "reader \<Rightarrow> io_error + byte list \<times> reader" where
  "readFileLengthPrefixed cs =
     rbind (doFileRead 4 cs) (\<lambda>(szbuf, cs1).
       let sz = le_nat szbuf
       in if sz > MAX_FRAME then Inl (InvalidSize sz) else doFileRead sz cs1)"

section \<open>The write loop\<close>

definition steady :: "write_outcome list \<Rightarrow> bool" where
  "steady os \<longleftrightarrow> (\<forall>k. Fails k \<notin> set os)"

lemma steady_simps [simp]: "steady []" "steady (Takes k # os) \<longleftrightarrow> steady os" "\<not> steady (Fails k # os)"
  by (auto simp: steady_def)

text \<open>Without an error everything is written, in order, however the network cuts it; with an error
  a prefix has been written.\<close>

lemma doWrite_ok:
  assumes "doWrite src w = (err, w')"
  shows "\<exists>n. w_written w' = w_written w @ take n src \<and> (\<not> err \<longrightarrow> length src \<le> n) \<and>
    (steady (w_outcomes w) \<longrightarrow> \<not> err \<and> steady (w_outcomes w'))"
  using assms
proof (induction src w rule: doWrite.induct)
  case (1 src w)
  show ?case
  proof (cases "src = []")
    case True
    then show ?thesis using "1.prems" by (auto simp: doWrite.simps)
  next
    case False
    obtain n e w1 where i: "io_Write src w = (n, e, w1)" by (cases "io_Write src w")
    have w1: "w_written w1 = w_written w @ take n src" "steady (w_outcomes w) \<longrightarrow> \<not> e \<and> steady (w_outcomes w1)"
      using i by (auto simp: io_Write_def min_def split: list.splits write_outcome.splits)
    show ?thesis
    proof (cases e)
      case True
      then show ?thesis using "1.prems" False i w1 by (subst (asm) doWrite.simps) auto
    next
      case no: False
      then have "doWrite (drop n src) w1 = (err, w')" using "1.prems" False i by (subst (asm) doWrite.simps) simp
      from "1.IH" [OF False i [symmetric] refl refl no this] w1 no show ?thesis
        by (auto simp: take_add [symmetric])
    qed
  qed
qed

lemma writeLengthPrefixed_ok:
  assumes "writeLengthPrefixed buf w = (err, w')"
  shows "(\<not> err \<longrightarrow> w_written w' = w_written w @ frame_bytes buf) \<and>
    (steady (w_outcomes w) \<longrightarrow> \<not> err \<and> steady (w_outcomes w'))"
proof -
  obtain e w1 where h: "doWrite (le_bytes 4 (length buf)) w = (e, w1)" by (cases "doWrite (le_bytes 4 (length buf)) w")
  show ?thesis
  proof (cases e)
    case True
    then show ?thesis using assms h doWrite_ok [OF h] by (auto simp: writeLengthPrefixed_def)
  next
    case False
    then have b: "doWrite buf w1 = (err, w')" using assms h by (simp add: writeLengthPrefixed_def)
    from doWrite_ok [OF h] doWrite_ok [OF b] False show ?thesis by (auto simp: frame_bytes_def)
  qed
qed

section \<open>The read loops\<close>

lemma doRead_simps [simp]:
  "doRead 0 cs = Inr ([], cs)" "doRead (Suc n) [] = Inl EndOfStream"
  "doRead (Suc n) (c # cs) =
     (if Suc n < length c then Inr (take (Suc n) c, drop (Suc n) c # cs)
      else rbind (doRead (Suc n - length c) cs) (\<lambda>(bs, cs'). Inr (c @ bs, cs')))"
  by (subst doRead.simps; simp add: min_def doRead.simps [of 0])+

lemma doFileRead_simps [simp]:
  "doFileRead 0 cs = Inr ([], cs)" "doFileRead (Suc n) [] = Inl EndOfStream"
  "doFileRead (Suc n) (c # cs) =
     (if c = [] then Inl EndOfStream
      else if Suc n < length c then Inr (take (Suc n) c, drop (Suc n) c # cs)
      else rbind (doFileRead (Suc n - length c) cs) (\<lambda>(bs, cs'). Inr (c @ bs, cs')))"
  by (subst doFileRead.simps; auto simp add: min_def doFileRead.simps [of 0])+

lemma read_induct [case_names stop finish piece]:
  fixes P :: "nat \<Rightarrow> reader \<Rightarrow> bool"
  shows "(\<And>cs. P 0 cs) \<Longrightarrow> (\<And>n. P (Suc n) []) \<Longrightarrow>
    (\<And>n c cs. (\<not> Suc n < length c \<Longrightarrow> P (Suc n - length c) cs) \<Longrightarrow> P (Suc n) (c # cs)) \<Longrightarrow> P n cs"
  by induction_schema (pat_completeness, lexicographic_order)

text \<open>Only the concatenation of the pieces matters.\<close>

lemma doRead_ok:
  assumes "concat cs = bs @ r" and "length bs = n"
  shows "\<exists>cs'. doRead n cs = Inr (bs, cs') \<and> concat cs' = r"
  using assms
proof (induction n cs arbitrary: bs rule: read_induct)
  case (piece n c cs)
  show ?case
  proof (cases "Suc n < length c")
    case True
    then have "bs = take (Suc n) c" "r = drop (Suc n) c @ concat cs"
      using piece.prems by (auto simp: append_eq_append_conv_if)
    with True show ?thesis by simp
  next
    case False
    then obtain bs' where b: "bs = c @ bs'" "concat cs = bs' @ r"
      using piece.prems by (auto simp: append_eq_append_conv_if) (metis append_take_drop_id)
    moreover have "length bs' = Suc n - length c" using b piece.prems(2) by simp
    ultimately obtain cs' where "doRead (Suc n - length c) cs = Inr (bs', cs')" "concat cs' = r"
      using piece.IH [OF False b(2)] by blast
    with False b show ?thesis by simp
  qed
qed auto

lemma doFileRead_eq:
  assumes "\<forall>c \<in> set cs. c \<noteq> []"
  shows "doFileRead n cs = doRead n cs"
  using assms by (induction n cs rule: read_induct) auto

lemma doRead_pieces:
  assumes "doRead n cs = Inr (bs, cs')" and "\<forall>c \<in> set cs. c \<noteq> []"
  shows "\<forall>c \<in> set cs'. c \<noteq> []"
  using assms
  by (induction n cs arbitrary: bs cs' rule: read_induct) (auto simp: rbind_eq_Inr split: if_splits)

lemma doRead_short: "length (concat cs) < n \<Longrightarrow> doRead n cs = Inl EndOfStream"
  by (induction n cs rule: read_induct) auto

lemma doRead_length:
  assumes "doRead n cs = Inr (bs, cs')"
  shows "length bs = n \<and> concat cs = bs @ concat cs'"
  using assms
proof (induction n cs arbitrary: bs rule: read_induct)
  case (piece n c cs)
  show ?case
  proof (cases "Suc n < length c")
    case True
    with piece.prems show ?thesis by auto
  next
    case False
    with piece.prems obtain r where "bs = c @ r" "doRead (Suc n - length c) cs = Inr (r, cs')"
      by (auto simp: rbind_eq_Inr)
    with piece.IH [OF False, of r] False show ?thesis by auto
  qed
qed auto

section \<open>Frame readers\<close>

text \<open>
  What the readers of frames promise: when the next bytes are a frame with an acceptable payload,
  they return that payload and stop right behind it.  A client can then read back any sequence of
  frames.
\<close>

locale frame_reader =
  fixes get :: "'s \<Rightarrow> io_error + byte list \<times> 's"
    and bytes_of :: "'s \<Rightarrow> byte list"
    and accepts :: "byte list \<Rightarrow> bool"
    and intact :: "'s \<Rightarrow> bool"
  assumes get_frame: "accepts buf \<Longrightarrow> intact s \<Longrightarrow> bytes_of s = frame_bytes buf @ r \<Longrightarrow>
      \<exists>s'. get s = Inr (buf, s') \<and> bytes_of s' = r \<and> intact s'"
    and get_end: "intact s \<Longrightarrow> bytes_of s = [] \<Longrightarrow> get s = Inl EndOfStream"
begin

lemma get_two:
  assumes "accepts a" and "accepts b" and "intact s" and "bytes_of s = frame_bytes a @ frame_bytes b @ r"
  shows "\<exists>s1 s2. get s = Inr (a, s1) \<and> get s1 = Inr (b, s2) \<and> bytes_of s2 = r \<and> intact s2"
proof -
  from get_frame [OF assms(1,3,4)] obtain s1 where s1: "get s = Inr (a, s1)" "bytes_of s1 = frame_bytes b @ r" "intact s1"
    by blast
  from get_frame [OF assms(2) s1(3,2)] s1(1) show ?thesis by blast
qed

end

lemma le_nat_frame: "length buf < 2 ^ 32 \<Longrightarrow> le_nat (le_bytes 4 (length buf)) = length buf"
  by (simp add: le_nat_le_bytes)

lemma readLengthPrefixed_frame:
  assumes "length buf < 2 ^ 32" and "concat cs = frame_bytes buf @ r"
  shows "\<exists>cs'. readLengthPrefixed cs = Inr (buf, cs') \<and> concat cs' = r"
proof -
  have "concat cs = le_bytes 4 (length buf) @ buf @ r" using assms(2) by (simp add: frame_bytes_def)
  from doRead_ok [OF this length_le_bytes] obtain cs1 where
    c: "doRead 4 cs = Inr (le_bytes 4 (length buf), cs1)" "concat cs1 = buf @ r" by blast
  from doRead_ok [OF c(2) refl] obtain cs2 where "doRead (length buf) cs1 = Inr (buf, cs2)" "concat cs2 = r" by blast
  with c(1) le_nat_frame [OF assms(1)] show ?thesis by (simp add: readLengthPrefixed_def)
qed

interpretation net: frame_reader readLengthPrefixed concat "\<lambda>buf. length buf < 2 ^ 32" "\<lambda>_. True"
proof
  fix s :: reader assume "concat s = []"
  then have "length (concat s) < 4" by (simp only: list.size)
  then show "readLengthPrefixed s = Inl EndOfStream" by (simp add: readLengthPrefixed_def doRead_short)
qed (use readLengthPrefixed_frame in auto)

lemma readFileLengthPrefixed_frame:
  assumes "length buf \<le> MAX_FRAME" and "\<forall>c \<in> set cs. c \<noteq> []" and "concat cs = frame_bytes buf @ r"
  shows "\<exists>cs'. readFileLengthPrefixed cs = Inr (buf, cs') \<and> concat cs' = r \<and> (\<forall>c \<in> set cs'. c \<noteq> [])"
proof -
  have lt: "length buf < 2 ^ 32" using assms(1) by (simp add: MAX_FRAME_def)
  have "concat cs = le_bytes 4 (length buf) @ buf @ r" using assms(3) by (simp add: frame_bytes_def)
  from doRead_ok [OF this length_le_bytes] obtain cs1 where
    c: "doRead 4 cs = Inr (le_bytes 4 (length buf), cs1)" "concat cs1 = buf @ r" by blast
  note ne1 = doRead_pieces [OF c(1) assms(2)]
  from doRead_ok [OF c(2) refl] obtain cs2 where
    d: "doRead (length buf) cs1 = Inr (buf, cs2)" "concat cs2 = r" by blast
  note ne2 = doRead_pieces [OF d(1) ne1]
  from c d ne2 le_nat_frame [OF lt] doFileRead_eq [OF assms(2)] doFileRead_eq [OF ne1] assms(1)
  show ?thesis by (simp add: readFileLengthPrefixed_def)
qed

interpretation disk: frame_reader readFileLengthPrefixed concat "\<lambda>buf. length buf \<le> MAX_FRAME" "\<lambda>cs. \<forall>c \<in> set cs. c \<noteq> []"
proof
  fix s :: reader assume "\<forall>c \<in> set s. c \<noteq> []" "concat s = []"
  then show "readFileLengthPrefixed s = Inl EndOfStream"
    by (cases s) (auto simp: readFileLengthPrefixed_def numeral_eq_Suc)
qed (rule readFileLengthPrefixed_frame)

end
