(* ===== verification/Reporting.thy ===== *)
theory Reporting
  imports Rate_Limit Byte_Stream Shm_Api
begin

text \<open>
  The reporting goroutine of the agent (\<^verbatim>\<open>pkg/agent/reporting.go\<close>): it sends triggered buffers
  to the collector and gives them back to the pool.
\<close>

section \<open>Strings as bytes\<close>

text \<open>The conversions \<^verbatim>\<open>[]byte(s)\<close> and \<^verbatim>\<open>string(bs)\<close>.\<close>

definition string_bytes :: "string \<Rightarrow> byte list" where
  "string_bytes s = map (\<lambda>c. of_nat (of_char c)) s"

definition bytes_string :: "byte list \<Rightarrow> string" where
  "bytes_string bs = map (\<lambda>b. char_of (unat b)) bs"

lemma bytes_string_bytes [simp]: "bytes_string (string_bytes s) = s"
proof -
  have "char_of (unat (of_nat (of_char c) :: byte)) = c" for c :: char
    by (simp add: unat_of_nat_byte)
  then show ?thesis by (simp add: string_bytes_def bytes_string_def comp_def)
qed

lemma length_string_bytes [simp]: "length (string_bytes s) = length s"
  by (simp add: string_bytes_def)

section \<open>State and operations\<close>

record 'b Reporting =
  rp_enabled :: bool
  rp_rate_limit :: float64
  rp_buffer_size :: int
  rp_bucket :: "'b option"
  rp_agent_addr :: string
  rp_remote_addr :: string

definition InitReporting ::
    "'b ratelimit \<Rightarrow> int \<Rightarrow> float64 \<Rightarrow> bool \<Rightarrow> string \<Rightarrow> string \<Rightarrow> string \<Rightarrow> 'b Reporting" where
  "InitReporting rl buffer_size rate_limit_mb enabled remote_addr local_hostname local_port =
     (let rate_limit = rate_limit_mb * 1024 * 1024
      in \<lparr>rp_enabled = enabled, rp_rate_limit = rate_limit, rp_buffer_size = buffer_size,
          rp_bucket = (if rate_limit \<noteq> 0 then Some (NewBucketWithRate rl rate_limit (go_int64 rate_limit)) else None),
          rp_agent_addr = local_hostname @ '':'' @ local_port, rp_remote_addr = remote_addr\<rparr>)"

text \<open>The loop over the buffers of a batch: whether a write failed, and the connection.\<close>

fun report_buffers :: "pool \<Rightarrow> int \<Rightarrow> buffer list \<Rightarrow> writer \<Rightarrow> (bool \<times> writer) result" where
  "report_buffers pool buffer_size [] conn = Inr (False, conn)"
| "report_buffers pool buffer_size (buffer_id # buffers) conn =
     rbind (ExtractBuffer pool buffer_size buffer_id) (\<lambda>(header, data).
     rbind (reslice data (uint (bh_Size header))) (\<lambda>data.
       let (err, conn1) = writeLengthPrefixed (slice_bytes pool data) conn
       in if err then Inr (True, conn1) else report_buffers pool buffer_size buffers conn1))"

text \<open>\<open>available\<close> is what was sent on the channel \<^verbatim>\<open>Available\<close> so far.\<close>

definition reportData ::
    "'b ratelimit \<Rightarrow> pool \<Rightarrow> buffer list \<Rightarrow> 'b Reporting \<times> writer \<times> buffer list list \<Rightarrow>
       (bool \<times> 'b Reporting \<times> writer \<times> buffer list list) result" where
  "reportData rl pool buffers = (\<lambda>(r, conn, available).
     let r1 = (case rp_bucket r of
                 None \<Rightarrow> r
               | Some b \<Rightarrow> r\<lparr>rp_bucket := Some (Wait rl (int (length buffers) * rp_buffer_size r) b)\<rparr>)
     in
       rbind (if rp_enabled r1 then report_buffers pool (rp_buffer_size r1) buffers conn else Inr (False, conn))
         (\<lambda>(err, conn1). Inr (err, r1, conn1, if length buffers > 0 then available @ [buffers] else available)))"

definition writeConnectionHandshake :: "'b Reporting \<Rightarrow> writer \<Rightarrow> bool \<times> writer" where
  "writeConnectionHandshake r conn = writeLengthPrefixed (string_bytes (rp_agent_addr r)) conn"

text \<open>The loop of \<^verbatim>\<open>ReportData\<close> over the batches received from the channel \<^verbatim>\<open>data\<close>; the end of the
  list stands for the cancellation of the context.  The batches left over after an error stay in the
  channel.\<close>

fun report_batches ::
    "'b ratelimit \<Rightarrow> pool \<Rightarrow> buffer list list \<Rightarrow> 'b Reporting \<times> writer \<times> buffer list list \<Rightarrow>
       (bool \<times> buffer list list \<times> 'b Reporting \<times> writer \<times> buffer list list) result" where
  "report_batches rl pool [] st = Inr (False, [], st)"
| "report_batches rl pool (buffers # batches) st =
     rbind (reportData rl pool buffers st) (\<lambda>(err, st1).
       if err then Inr (True, batches, st1) else report_batches rl pool batches st1)"

definition ReportData ::
    "'b ratelimit \<Rightarrow> pool \<Rightarrow> buffer list list \<Rightarrow> 'b Reporting \<times> writer \<times> buffer list list \<Rightarrow>
       (bool \<times> buffer list list \<times> 'b Reporting \<times> writer \<times> buffer list list) result" where
  "ReportData rl pool batches = (\<lambda>(r, conn, available).
     let (err, conn1) = writeConnectionHandshake r conn
     in if err then Inr (True, batches, r, conn1, available)
        else report_batches rl pool batches (r, conn1, available))"

section \<open>What is sent\<close>

text \<open>The used part of a buffer, as its header gives it, and the buffers for which it lies in the pool.\<close>

definition buffer_payload :: "pool \<Rightarrow> int \<Rightarrow> buffer \<Rightarrow> byte list" where
  "buffer_payload pool sz b =
     slice_bytes pool \<lparr>sl_start = b * sz, sl_len = int (le_at pool (nat (b * sz) + 24) 4)\<rparr>"

definition reportable :: "pool \<Rightarrow> int \<Rightarrow> buffer \<Rightarrow> bool" where
  "reportable pool sz b \<longleftrightarrow> 0 < sz \<and> 0 \<le> b \<and> (b + 1) * sz \<le> POOL_LIMIT \<and>
     b * sz + int (le_at pool (nat (b * sz) + 24) 4) \<le> POOL_LIMIT"

lemma le_at_less: "le_at pool p n < 256 ^ n"
  using le_nat_less [of "map (\<lambda>i. pool (p + i)) [0..<n]"] by (simp add: le_at_def)

lemma ExtractBuffer_reportable:
  assumes "reportable pool sz b"
  shows "\<exists>h. ExtractBuffer pool sz b = Inr (h, \<lparr>sl_start = b * sz, sl_len = sz\<rparr>) \<and>
    uint (bh_Size h) = int (le_at pool (nat (b * sz) + 24) 4)"
proof -
  have "GetBuffer sz b = Inr \<lparr>sl_start = b * sz, sl_len = sz\<rparr>"
    using assms by (auto simp: GetBuffer_def reportable_def Let_def algebra_simps)
  moreover have "uint (of_nat (le_at pool (nat (b * sz) + 24) 4) :: 32 word) = int (le_at pool (nat (b * sz) + 24) 4)"
    using le_at_less [of pool "nat (b * sz) + 24" 4] by (simp add: unsigned_of_nat take_bit_nat_eq_self flip: of_nat_take_bit)
  ultimately show ?thesis
    using assms by (simp add: ExtractBuffer_def ExtractBufferHeader_def reportable_def Let_def)
qed

lemma report_buffers_step:
  assumes "reportable pool sz b"
  shows "report_buffers pool sz (b # bs) conn =
    (let (err, conn1) = writeLengthPrefixed (buffer_payload pool sz b) conn
     in if err then Inr (True, conn1) else report_buffers pool sz bs conn1)"
proof -
  obtain h where h: "ExtractBuffer pool sz b = Inr (h, \<lparr>sl_start = b * sz, sl_len = sz\<rparr>)"
    "uint (bh_Size h) = int (le_at pool (nat (b * sz) + 24) 4)"
    using ExtractBuffer_reportable [OF assms] by blast
  then have "reslice \<lparr>sl_start = b * sz, sl_len = sz\<rparr> (uint (bh_Size h)) =
      Inr \<lparr>sl_start = b * sz, sl_len = int (le_at pool (nat (b * sz) + 24) 4)\<rparr>"
    using assms by (simp add: reslice_def reportable_def)
  then show ?thesis by (simp add: h buffer_payload_def)
qed

lemma report_buffers_ok:
  assumes "\<forall>b \<in> set bs. reportable pool sz b"
  shows "\<exists>err w'. report_buffers pool sz bs w = Inr (err, w') \<and>
    (\<not> err \<longrightarrow> w_written w' = w_written w @ concat (map (\<lambda>b. frame_bytes (buffer_payload pool sz b)) bs)) \<and>
    (steady (w_outcomes w) \<longrightarrow> \<not> err \<and> steady (w_outcomes w'))"
  using assms
proof (induction bs arbitrary: w)
  case Nil
  then show ?case by auto
next
  case (Cons b bs)
  obtain e w1 where f: "writeLengthPrefixed (buffer_payload pool sz b) w = (e, w1)"
    by (cases "writeLengthPrefixed (buffer_payload pool sz b) w")
  note s = report_buffers_step [of pool sz b bs w] writeLengthPrefixed_ok [OF f]
  show ?case
  proof (cases e)
    case True
    with s f Cons.prems show ?thesis by auto
  next
    case False
    from Cons.IH [of w1] Cons.prems obtain err w' where "report_buffers pool sz bs w1 = Inr (err, w')"
      "\<not> err \<longrightarrow> w_written w' = w_written w1 @ concat (map (\<lambda>b. frame_bytes (buffer_payload pool sz b)) bs)"
      "steady (w_outcomes w1) \<longrightarrow> \<not> err \<and> steady (w_outcomes w')" by auto
    with False s f Cons.prems show ?thesis by auto
  qed
qed

text \<open>One batch: all its buffers go back to the pool, on every outcome.\<close>

lemma reportData_ok:
  assumes "\<forall>b \<in> set buffers. reportable pool (rp_buffer_size r) b"
  shows "\<exists>err r' w'. reportData rl pool buffers (r, w, av) =
      Inr (err, r', w', if buffers = [] then av else av @ [buffers]) \<and>
    rp_buffer_size r' = rp_buffer_size r \<and> rp_enabled r' = rp_enabled r \<and> rp_agent_addr r' = rp_agent_addr r \<and>
    (rp_enabled r \<and> \<not> err \<longrightarrow>
       w_written w' = w_written w @ concat (map (\<lambda>b. frame_bytes (buffer_payload pool (rp_buffer_size r) b)) buffers)) \<and>
    (steady (w_outcomes w) \<longrightarrow> \<not> err \<and> steady (w_outcomes w'))"
proof -
  let ?r = "case rp_bucket r of None \<Rightarrow> r
    | Some b \<Rightarrow> r\<lparr>rp_bucket := Some (Wait rl (int (length buffers) * rp_buffer_size r) b)\<rparr>"
  have r: "rp_buffer_size ?r = rp_buffer_size r" "rp_enabled ?r = rp_enabled r" "rp_agent_addr ?r = rp_agent_addr r"
    by (simp_all split: option.split)
  from report_buffers_ok [OF assms, of w] obtain err w' where
    "report_buffers pool (rp_buffer_size r) buffers w = Inr (err, w')"
    "\<not> err \<longrightarrow> w_written w' = w_written w @ concat (map (\<lambda>b. frame_bytes (buffer_payload pool (rp_buffer_size r) b)) buffers)"
    "steady (w_outcomes w) \<longrightarrow> \<not> err \<and> steady (w_outcomes w')" by blast
  with r show ?thesis
    by (cases "rp_enabled r") (auto simp: reportData_def Let_def)
qed

lemma report_batches_ok:
  assumes "\<forall>bs \<in> set batches. \<forall>b \<in> set bs. reportable pool (rp_buffer_size r) b" and "rp_enabled r"
    and "steady (w_outcomes w)"
  shows "\<exists>r' w'. report_batches rl pool batches (r, w, av) = Inr (False, [], r', w', av @ filter (\<lambda>bs. bs \<noteq> []) batches) \<and>
    w_written w' = w_written w @ concat (map (\<lambda>b. frame_bytes (buffer_payload pool (rp_buffer_size r) b)) (concat batches))"
  using assms
proof (induction batches arbitrary: r w av)
  case Nil
  then show ?case by simp
next
  case (Cons bs batches)
  from reportData_ok [of bs pool r rl w av] Cons.prems obtain r1 w1 where one:
    "reportData rl pool bs (r, w, av) = Inr (False, r1, w1, if bs = [] then av else av @ [bs])"
    "rp_buffer_size r1 = rp_buffer_size r" "rp_enabled r1" "steady (w_outcomes w1)"
    "w_written w1 = w_written w @ concat (map (\<lambda>b. frame_bytes (buffer_payload pool (rp_buffer_size r) b)) bs)"
    by auto
  from Cons.IH [of r1 w1 "if bs = [] then av else av @ [bs]"] Cons.prems(1) one show ?case by auto
qed

end
