(* ===== verification/Buffer_Cycle.thy ===== *)
theory Buffer_Cycle
  imports Agent_Loop Shm_Loops Reporting
begin

text \<open>
  The agent process as a whole: the goroutines that \<^verbatim>\<open>Agent.Run\<close> and \<^verbatim>\<open>GoAgentAPI.Run\<close> start run
  concurrently with the traced application and pass buffers of the shared-memory pool to each other.
  A step of the node is a step of one of them.

  The application is seen through the two queues it shares with the agent: it takes buffers off the
  available queue, and puts those it has onto the complete queue
  (\<^verbatim>\<open>bufmanager_acquire\<close> and \<^verbatim>\<open>bufmanager_return\<close>, client/src/buffer.c).
\<close>

section \<open>The node\<close>

record 'b node =
  nd_available :: "buffer list"           \<comment> \<open>the available queue in shared memory\<close>
  nd_app :: "buffer multiset"             \<comment> \<open>what the application writes to\<close>
  nd_complete :: "(u64 \<times> buffer) list"    \<comment> \<open>the complete queue in shared memory\<close>
  nd_polled :: "CompleteBatch option"     \<comment> \<open>in the hands of \<^verbatim>\<open>completeLoop\<close>\<close>
  nd_Complete :: "CompleteBatch chan"     \<comment> \<open>the channel \<^verbatim>\<open>Complete\<close>\<close>
  nd_agent :: "'b Agent"                  \<comment> \<open>with the channels \<^verbatim>\<open>Available\<close> and \<^verbatim>\<open>data\<close>\<close>
  nd_reporting :: "'b Reporting"
  nd_batch :: "buffer list option"        \<comment> \<open>in the hands of the reporting goroutine\<close>
  nd_returned :: "buffer list option"     \<comment> \<open>in the hands of \<^verbatim>\<open>availableLoop\<close>\<close>

definition init_node :: "int \<Rightarrow> 'b Agent \<Rightarrow> 'b Reporting \<Rightarrow> 'b node" where
  "init_node capacity a r =
     \<lparr>nd_available = [0..capacity - 1], nd_app = {#}, nd_complete = [], nd_polled = None,
      nd_Complete = chan_make 100000, nd_agent = a, nd_reporting = r, nd_batch = None, nd_returned = None\<rparr>"

fun is_Complete :: "event \<Rightarrow> bool" where
  "is_Complete (Complete batch) \<longleftrightarrow> True"
| "is_Complete _ \<longleftrightarrow> False"

text \<open>\<open>other\<close> covers all that the agent does without receiving completed buffers: the other events and what
  goes on in the remaining goroutines.  The connection and the content of the pool may be anything
  whenever a batch is reported.\<close>

inductive node_step :: "'b ratelimit \<Rightarrow> 'b node \<Rightarrow> 'b node \<Rightarrow> bool" for rl where
  acquire: "nd_available y = b # rest \<Longrightarrow>
    node_step rl y (y\<lparr>nd_available := rest, nd_app := add_mset b (nd_app y)\<rparr>)"
| give_back: "b \<in># nd_app y \<Longrightarrow>
    node_step rl y (y\<lparr>nd_app := nd_app y - {#b#}, nd_complete := nd_complete y @ [(t, b)]\<rparr>)"
| poll: "nd_polled y = None \<Longrightarrow> GetCompleteBatches (nd_complete y) = (cnt, completed, rest) \<Longrightarrow>
    node_step rl y (y\<lparr>nd_complete := rest, nd_polled := if cnt > 0 then Some completed else None\<rparr>)"
| send: "nd_polled y = Some completed \<Longrightarrow> \<not> chan_full (nd_Complete y) \<Longrightarrow>
    node_step rl y (y\<lparr>nd_polled := None, nd_Complete := chan_send completed (nd_Complete y)\<rparr>)"
| completed: "chan_pending (nd_Complete y) = buffers # rest \<Longrightarrow> mset batch = mset buffers \<Longrightarrow>
    agent_step rl (nd_agent y) [Complete batch] a \<Longrightarrow>
    node_step rl y (y\<lparr>nd_Complete := chan_receive (nd_Complete y), nd_agent := a\<rparr>)"
| other: "agent_step rl (nd_agent y) evs a \<Longrightarrow> \<forall>ev \<in> set evs. \<not> is_Complete ev \<Longrightarrow>
    ch_taken (ag_available a) = ch_taken (ag_available (nd_agent y)) \<Longrightarrow>
    ch_taken (ag_data a) = ch_taken (ag_data (nd_agent y)) \<Longrightarrow>
    node_step rl y (y\<lparr>nd_agent := a\<rparr>)"
| take_batch: "nd_batch y = None \<Longrightarrow> chan_pending (ag_data (nd_agent y)) = buffers # rest \<Longrightarrow>
    node_step rl y (y\<lparr>nd_batch := Some buffers,
      nd_agent := (nd_agent y)\<lparr>ag_data := chan_receive (ag_data (nd_agent y))\<rparr>\<rparr>)"
| report: "nd_batch y = Some buffers \<Longrightarrow>
    reportData rl pool buffers (nd_reporting y, conn, []) = Inr (err, r, conn', sent) \<Longrightarrow>
    node_step rl y (y\<lparr>nd_batch := None, nd_reporting := r,
      nd_agent := (nd_agent y)\<lparr>ag_available := fold chan_send sent (ag_available (nd_agent y))\<rparr>\<rparr>)"
| take_returned: "nd_returned y = None \<Longrightarrow> chan_pending (ag_available (nd_agent y)) = bufids # rest \<Longrightarrow>
    node_step rl y (y\<lparr>nd_returned := Some bufids,
      nd_agent := (nd_agent y)\<lparr>ag_available := chan_receive (ag_available (nd_agent y))\<rparr>\<rparr>)"
| put: "nd_returned y = Some bufids \<Longrightarrow>
    node_step rl y (y\<lparr>nd_returned := None, nd_available := PutAvailable bufids (nd_available y)\<rparr>)"

inductive_cases node_stepE: "node_step rl y y'"

section \<open>Where the buffers are\<close>

definition batch_buffers :: "CompleteBatch \<Rightarrow> buffer multiset" where
  "batch_buffers m = event_buffers (Complete m)"

definition opt_buffers :: "buffer list option \<Rightarrow> buffer multiset" where
  "opt_buffers = case_option {#} mset"

text \<open>On the way to the agent, in the agent's event loop, and on the way back.\<close>

definition incoming :: "'b node \<Rightarrow> buffer multiset" where
  "incoming y = image_mset snd (mset (nd_complete y)) + case_option {#} batch_buffers (nd_polled y) +
     sum_list (map batch_buffers (chan_pending (nd_Complete y)))"

definition in_agent :: "'b Agent \<Rightarrow> buffer multiset" where
  "in_agent a = held (ag_dm a) + mset (ag_data_to_report a) + mset (concat (chan_pending (ag_data a))) +
     mset (concat (chan_pending (ag_available a)))"

definition pool_buffers :: "'b node \<Rightarrow> buffer multiset" where
  "pool_buffers y = mset (nd_available y) + nd_app y + incoming y + in_agent (nd_agent y) +
     opt_buffers (nd_batch y) + opt_buffers (nd_returned y)"

section \<open>What an event does to the agent's channels\<close>

lemma send_available_grown:
  "\<exists>ms. grown (ag_available a) ms (ag_available (send_available bufs a)) \<and> [] \<notin> set ms"
  by (cases "len bufs > 0") (auto simp: send_available_def intro: exI [of _ "[]"] exI [of _ "[bufs]"])

lemma send_available_same [simp]:
  "ag_data (send_available bufs a) = ag_data a" "ag_data_to_report (send_available bufs a) = ag_data_to_report a"
  by (simp_all add: send_available_def)

lemma upd_am_same [simp]:
  "ag_available (upd_am g a) = ag_available a" "ag_data (upd_am g a) = ag_data a"
  "ag_data_to_report (upd_am g a) = ag_data_to_report a"
  by (simp_all add: upd_am_def)

lemma forward_same [simp]:
  "ag_available (forward_breadcrumbs bcs num a) = ag_available a" "ag_data (forward_breadcrumbs bcs num a) = ag_data a"
  "ag_data_to_report (forward_breadcrumbs bcs num a) = ag_data_to_report a"
  "ag_available (forward_triggers ts a) = ag_available a" "ag_data (forward_triggers ts a) = ag_data a"
  "ag_data_to_report (forward_triggers ts a) = ag_data_to_report a"
  by (simp_all add: forward_breadcrumbs_def forward_triggers_def)

text \<open>\<open>only_returns a a'\<close>: the reporting side is as before, and only non-empty batches were sent back.\<close>

definition only_returns :: "'b Agent \<Rightarrow> 'b Agent \<Rightarrow> bool" where
  "only_returns a a' \<longleftrightarrow> ag_data a' = ag_data a \<and> ag_data_to_report a' = ag_data_to_report a \<and>
     (\<exists>ms. grown (ag_available a) ms (ag_available a') \<and> [] \<notin> set ms)"

lemma only_returns_same:
  "ag_available a' = ag_available a \<Longrightarrow> ag_data a' = ag_data a \<Longrightarrow> ag_data_to_report a' = ag_data_to_report a \<Longrightarrow>
   only_returns a a'"
  by (auto simp: only_returns_def intro: exI [of _ "[]"])

lemma only_returns_send: "only_returns a (send_available bufs a)"
  using send_available_grown by (auto simp: only_returns_def)

lemma only_returns_trans:
  assumes "only_returns a a'" "only_returns a' a''"
  shows "only_returns a a''"
proof -
  obtain ms ms' where "grown (ag_available a) ms (ag_available a')" "[] \<notin> set ms"
    "grown (ag_available a') ms' (ag_available a'')" "[] \<notin> set ms'"
    using assms by (auto simp: only_returns_def)
  then have "grown (ag_available a) (ms @ ms') (ag_available a'')" "[] \<notin> set (ms @ ms')"
    by (auto intro: grown_trans)
  with assms show ?thesis unfolding only_returns_def by metis
qed

lemma complete_fold_same:
  "rfold complete_one batch (freed, a) = Inr (freed', a') \<Longrightarrow> only_returns a a'"
proof (induction batch arbitrary: freed a)
  case Nil
  then show ?case by (simp add: only_returns_same)
next
  case (Cons x batch)
  then obtain f1 a1 where 1: "complete_one x (freed, a) = Inr (f1, a1)" "rfold complete_one batch (f1, a1) = Inr (freed', a')"
    by (auto simp: rbind_eq_Inr)
  have "only_returns a a1"
    using 1(1) by (cases x) (auto simp: complete_one_def rbind_eq_Inr Let_def intro!: only_returns_same split: if_splits)
  from only_returns_trans [OF this Cons.IH [OF 1(2)]] show ?case .
qed

lemma maybeEvict_returns: "maybeEvict a = Inr a' \<Longrightarrow> only_returns a a'"
proof (cases "dm_buffer_count (ag_dm a) < ag_cache_capacity a")
  case False
  assume "maybeEvict a = Inr a'"
  with False obtain ev2 s2 ev3 s3 where
    a': "ag_available a' = ag_available (send_available ev3 ((send_available ev2 (a\<lparr>ag_dm := s2\<rparr>))\<lparr>ag_dm := s3\<rparr>))"
      "ag_data a' = ag_data a" "ag_data_to_report a' = ag_data_to_report a"
    by (auto simp: maybeEvict_def rbind_eq_Inr Let_def)
  have "only_returns a (send_available ev2 (a\<lparr>ag_dm := s2\<rparr>))" (is "only_returns a ?b")
    by (rule only_returns_trans [OF _ only_returns_send]) (simp add: only_returns_same)
  moreover have "only_returns ?b (send_available ev3 (?b\<lparr>ag_dm := s3\<rparr>))" (is "only_returns ?b ?c")
    by (rule only_returns_trans [OF _ only_returns_send]) (simp add: only_returns_same)
  moreover have "only_returns ?c a'" by (rule only_returns_same) (simp_all add: a')
  ultimately show ?thesis by (blast intro: only_returns_trans)
qed (simp add: maybeEvict_def only_returns_same)

lemma processCompletedBuffers_returns:
  assumes "processCompletedBuffers batch a = Inr a'"
  shows "only_returns a a'"
proof -
  obtain freed a1 a2 where "rfold complete_one batch ([], a) = Inr (freed, a1)" "maybeEvict a1 = Inr a2"
    and a': "a' = upd_am (\<lambda>m. m\<lparr>am_complete_batches := am_complete_batches m + 1\<rparr>) (send_available freed a2)"
    using assms by (auto simp: processCompletedBuffers_def rbind_eq_Inr)
  then have "only_returns a a1" "only_returns a1 a2" by (simp_all add: complete_fold_same maybeEvict_returns)
  moreover have "only_returns a2 (send_available freed a2)" by (rule only_returns_send)
  moreover have "only_returns (send_available freed a2) a'" by (rule only_returns_same) (simp_all add: a')
  ultimately show ?thesis by (blast intro: only_returns_trans)
qed

text \<open>The event \<open>Report\<close> sends the batch to report to the reporting goroutine; every other event only
  returns buffers.  A timer or report event fetches the next batch.\<close>

lemma next_batch_same:
  "next_batch rl a = Inr a' \<Longrightarrow> ag_available a' = ag_available a \<and> ag_data a' = ag_data a"
  by (auto simp: next_batch_def rbind_eq_Inr)

lemma iteration_returns:
  assumes "iteration rl now ev a = Inr a'" "ev \<noteq> Timer" "ev \<noteq> Report"
  shows "only_returns a a'"
proof -
  let ?a = "a\<lparr>ag_dm := (ag_dm a)\<lparr>dm_now := now\<rparr>\<rparr>"
  have "only_returns a ?a" by (simp add: only_returns_same)
  moreover have "only_returns ?a a'"
  proof (cases "is_Complete ev")
    case True
    with assms show ?thesis by (cases ev) (auto simp: iteration_def intro: processCompletedBuffers_returns)
  next
    case False
    with assms show ?thesis
      by (cases ev) (auto simp: iteration_def processRemoteTriggers_def processTriggers_def processBreadcrumbs_def
          rbind_eq_Inr intro!: only_returns_same)
  qed
  ultimately show ?thesis by (rule only_returns_trans)
qed

lemma iteration_batch:
  assumes "iteration rl now ev a = Inr a'" "ev = Timer \<or> ev = Report"
  shows "ag_available a' = ag_available a \<and>
    ag_data a' = (if ev = Report then chan_send (ag_data_to_report a) (ag_data a) else ag_data a)"
  using assms by (auto simp: iteration_def dest!: next_batch_same)

section \<open>The invariant\<close>

text \<open>The events of the agent keep what is in it, whatever the other goroutines have taken out so far.\<close>

definition agent_ok :: "'b Agent \<Rightarrow> bool" where
  "agent_ok a \<longleftrightarrow> agent_inv a \<and> chan_ok (ag_data a) \<and> chan_ok (ag_available a) \<and> 0 < ch_cap (ag_data a) \<and>
     [] \<notin> set (chan_pending (ag_data a)) \<and> [] \<notin> set (chan_pending (ag_available a))"

lemma accounted_in_agent:
  "accounted a = in_agent a + mset (concat (take (ch_taken (ag_data a)) (ch_log (ag_data a)))) +
     mset (concat (take (ch_taken (ag_available a)) (ch_log (ag_available a))))"
proof -
  have "mset (concat (ch_log c)) = mset (concat (take (ch_taken c) (ch_log c))) + mset (concat (chan_pending c))"
    for c :: "buffer list chan"
    unfolding chan_pending_def by (metis append_take_drop_id concat_append mset_append)
  then show ?thesis unfolding accounted_def in_agent_def by (simp add: ac_simps)
qed

definition fed :: "'b Agent \<Rightarrow> 'b Agent \<Rightarrow> bool" where
  "fed a a' \<longleftrightarrow> (\<exists>ms. grown (ag_available a) ms (ag_available a') \<and> [] \<notin> set ms) \<and>
     (\<exists>ms. grown (ag_data a) ms (ag_data a') \<and> [] \<notin> set ms)"

lemma fed_same: "ag_available a' = ag_available a \<Longrightarrow> ag_data a' = ag_data a \<Longrightarrow> fed a a'"
  unfolding fed_def by (metis grown_refl empty_iff list.set(1))

lemma iteration_fed:
  assumes "iteration rl now ev a = Inr a'" "ready ev a"
  shows "fed a a'"
proof (cases "ev = Timer \<or> ev = Report")
  case False
  with iteration_returns [OF assms(1)] have "only_returns a a'" by blast
  then show ?thesis unfolding fed_def only_returns_def by (metis grown_refl empty_iff list.set(1))
next
  case True
  from iteration_batch [OF assms(1) True] show ?thesis
  proof (cases "ev = Report")
    case True
    with iteration_batch [OF assms(1)] assms(2) have "ag_available a' = ag_available a"
      "grown (ag_data a) [ag_data_to_report a] (ag_data a')" "[] \<notin> set [ag_data_to_report a]" by auto
    then show ?thesis unfolding fed_def by (metis grown_refl empty_iff list.set(1))
  qed (auto intro: fed_same)
qed

lemma fed_ok:
  assumes ok: "agent_ok a" and f: "fed a a'" and inv: "agent_inv a'"
    and acc: "accounted a' = accounted a + B"
  shows "agent_ok a' \<and> in_agent a' = in_agent a + B"
proof -
  obtain ms ns where g: "grown (ag_available a) ms (ag_available a')" "[] \<notin> set ms"
    "grown (ag_data a) ns (ag_data a')" "[] \<notin> set ns" using f by (auto simp: fed_def)
  have c: "chan_ok (ag_data a)" "chan_ok (ag_available a)" using ok by (simp_all add: agent_ok_def)
  have "take (ch_taken (ag_data a')) (ch_log (ag_data a')) = take (ch_taken (ag_data a)) (ch_log (ag_data a))"
    "take (ch_taken (ag_available a')) (ch_log (ag_available a')) = take (ch_taken (ag_available a)) (ch_log (ag_available a))"
    using g c by (simp_all add: grown_def chan_ok_def)
  with acc have "in_agent a' = in_agent a + B" by (simp add: accounted_in_agent)
  moreover have "agent_ok a'"
    using ok inv chan_pending_grown [OF g(1) c(2)] chan_pending_grown [OF g(3) c(1)] g by (auto simp: agent_ok_def)
  ultimately show ?thesis by blast
qed

lemma agent_step_fed:
  assumes "agent_step rl a evs a'" "ch_taken (ag_available a') = ch_taken (ag_available a)"
    "ch_taken (ag_data a') = ch_taken (ag_data a)"
  shows "fed a a'"
  using assms(1)
proof (cases rule: agent_step.cases)
  case (iterate ev now)
  then show ?thesis by (blast intro: iteration_fed)
qed (use assms(2,3) in \<open>auto simp: chan_receive_def intro: fed_same\<close>)

lemma agent_event_taken:
  assumes "agent_step rl a [ev] a'"
  shows "ready ev a \<and> fed a a'"
  using assms by (cases rule: agent_step.cases) (auto intro: iteration_fed)

lemma agent_step_keeps:
  assumes "agent_ok a" "agent_step rl a evs a'" "fed a a'"
  shows "agent_ok a' \<and> in_agent a' = in_agent a + sum_list (map event_buffers evs)"
proof -
  have "agent_inv a" using assms(1) by (simp add: agent_ok_def)
  with agent_step_ok [OF assms(2)] have "agent_inv a'" "accounted a' = accounted a + sum_list (map event_buffers evs)" by auto
  with fed_ok [OF assms(1,3)] show ?thesis by blast
qed

text \<open>Every buffer of the pool is in exactly one place, no batch is empty, and the buffer size the reporting
  goroutine works with is that of the pool.\<close>

definition node_inv :: "int \<Rightarrow> int \<Rightarrow> 'b node \<Rightarrow> bool" where
  "node_inv capacity sz y \<longleftrightarrow> agent_ok (nd_agent y) \<and> chan_ok (nd_Complete y) \<and> ch_cap (nd_Complete y) = 100000 \<and>
     pool_buffers y = mset [0..capacity - 1] \<and> rp_buffer_size (nd_reporting y) = sz \<and>
     (\<forall>m \<in> set (chan_pending (nd_Complete y)). batch_buffers m \<noteq> {#}) \<and>
     (\<forall>m. nd_polled y = Some m \<longrightarrow> batch_buffers m \<noteq> {#}) \<and>
     nd_batch y \<noteq> Some [] \<and> nd_returned y \<noteq> Some []"

lemma batch_buffers_perm: "mset b = mset m \<Longrightarrow> batch_buffers b = batch_buffers m"
  unfolding batch_buffers_def event_buffers.simps msum_def by (simp flip: sum_mset_sum_list)

lemma batch_buffers_pairs: "batch_buffers m = image_mset snd (pairs_of m)"
  unfolding batch_buffers_def event_buffers.simps pairs_of_def msum_def
  by (induction m) (auto simp: multiset.map_comp comp_def split: prod.splits)

lemma polled_buffers:
  assumes "GetCompleteBatches q = (cnt, m, rest)"
  shows "image_mset snd (mset q) = batch_buffers m + image_mset snd (mset rest)"
    and "cnt > 0 \<longleftrightarrow> batch_buffers m \<noteq> {#}"
proof -
  show "image_mset snd (mset q) = batch_buffers m + image_mset snd (mset rest)"
    using cb.get_split [of q] assms by (simp add: batch_buffers_pairs)
  show "cnt > 0 \<longleftrightarrow> batch_buffers m \<noteq> {#}"
    using cb.get_len [of q] assms by (simp add: batch_buffers_pairs nonempty_has_size)
qed

lemma reportData_sent:
  assumes "reportData rl pool buffers (r, conn, []) = Inr (err, r', conn', sent)"
  shows "sent = (if buffers = [] then [] else [buffers]) \<and> rp_buffer_size r' = rp_buffer_size r"
  using assms by (auto simp: reportData_def Let_def rbind_eq_Inr split: option.splits if_splits)

lemma in_agent_receive:
  "chan_pending (ag_data a) = m # ms \<Longrightarrow>
     in_agent a = in_agent (a\<lparr>ag_data := chan_receive (ag_data a)\<rparr>) + mset m"
  "chan_pending (ag_available a) = m # ms \<Longrightarrow>
     in_agent a = in_agent (a\<lparr>ag_available := chan_receive (ag_available a)\<rparr>) + mset m"
  by (simp_all add: in_agent_def chan_pending_receive ac_simps)

lemma agent_ok_receive:
  assumes "agent_ok a"
  shows "chan_pending (ag_data a) = m # ms \<Longrightarrow> agent_ok (a\<lparr>ag_data := chan_receive (ag_data a)\<rparr>) \<and> m \<noteq> []"
    and "chan_pending (ag_available a) = m # ms \<Longrightarrow> agent_ok (a\<lparr>ag_available := chan_receive (ag_available a)\<rparr>) \<and> m \<noteq> []"
  using assms by (auto simp: agent_ok_def agent_inv_def chan_pending_receive)

lemma agent_ok_send:
  assumes "agent_ok a" "[] \<notin> set ms"
  shows "agent_ok (a\<lparr>ag_available := fold chan_send ms (ag_available a)\<rparr>)"
    and "in_agent (a\<lparr>ag_available := fold chan_send ms (ag_available a)\<rparr>) = in_agent a + mset (concat ms)"
proof -
  have "chan_ok (ag_available a)" using assms(1) by (simp add: agent_ok_def)
  note g = chan_pending_grown [OF grown_fold_send this, of ms]
  show "agent_ok (a\<lparr>ag_available := fold chan_send ms (ag_available a)\<rparr>)"
    using assms g by (simp add: agent_ok_def agent_inv_def)
  show "in_agent (a\<lparr>ag_available := fold chan_send ms (ag_available a)\<rparr>) = in_agent a + mset (concat ms)"
    using g by (simp add: in_agent_def)
qed

lemmas places = pool_buffers_def incoming_def opt_buffers_def

text \<open>Each step of the node keeps the agent consistent and every buffer of the pool.\<close>

lemma node_step_inv:
  assumes step: "node_step rl y y'" and inv: "node_inv capacity sz y" and cap: "capacity \<le> 2 ^ 31"
  shows "node_inv capacity sz y'"
proof -
  have ok: "agent_ok (nd_agent y)" and co: "chan_ok (nd_Complete y)" using inv by (simp_all add: node_inv_def)
  have total: "pool_buffers y = mset [0..capacity - 1]" using inv by (simp add: node_inv_def)
  have range: "0 \<le> b \<and> b < 2 ^ 31" if "b \<in># pool_buffers y" for b using that total cap by auto
  from step show ?thesis
  proof (cases rule: node_step.cases)
    case (acquire b rest)
    then show ?thesis using inv by (simp add: node_inv_def places)
  next
    case (give_back b t)
    then obtain A where "nd_app y = add_mset b A" by (auto dest: multi_member_split)
    with inv show ?thesis by (simp add: node_inv_def places give_back(1))
  next
    case (poll cnt completed rest)
    with polled_buffers [OF poll(3)] inv show ?thesis by (auto simp: node_inv_def places ac_simps)
  next
    case (send completed)
    with chan_pending_grown [OF grown_send co, of completed] inv show ?thesis
      by (auto simp: node_inv_def places ac_simps)
  next
    case (completed buffers rest batch a)
    have "fed (nd_agent y) a" using agent_event_taken [OF completed(4)] by blast
    from agent_step_keeps [OF ok completed(4) this]
    have a: "agent_ok a" "in_agent a = in_agent (nd_agent y) + batch_buffers buffers"
      using batch_buffers_perm [OF completed(3)] by (simp_all add: batch_buffers_def)
    then show ?thesis using inv completed(2) chan_pending_receive [OF completed(2)]
      by (auto simp: node_inv_def places completed(1) ac_simps)
  next
    case (other evs a)
    have "sum_list (map event_buffers evs) = {#}" using other(3) by (induction evs) (auto elim!: is_Complete.elims)
    with agent_step_keeps [OF ok other(2) agent_step_fed [OF other(2,4,5)]]
    have "agent_ok a" "in_agent a = in_agent (nd_agent y)" by simp_all
    then show ?thesis using inv by (simp add: node_inv_def places other(1))
  next
    case (take_batch buffers rest)
    with agent_ok_receive(1) [OF ok take_batch(3)] in_agent_receive(1) [OF take_batch(3)] inv show ?thesis
      by (simp add: node_inv_def places ac_simps)
  next
    case (report buffers pool conn err r conn' sent)
    have "buffers \<noteq> []" using inv report(2) by (auto simp: node_inv_def)
    with reportData_sent [OF report(3)] have s: "sent = [buffers]" "rp_buffer_size r = rp_buffer_size (nd_reporting y)"
      by auto
    from agent_ok_send [OF ok, of sent] \<open>buffers \<noteq> []\<close> s inv report(2) show ?thesis
      by (simp add: node_inv_def places report(1) ac_simps del: fold_simps)
  next
    case (take_returned bufids rest)
    with agent_ok_receive(2) [OF ok take_returned(3)] in_agent_receive(2) [OF take_returned(3)] inv show ?thesis
      by (simp add: node_inv_def places ac_simps)
  next
    case (put bufids)
    have "\<forall>b \<in> set bufids. 0 \<le> b \<and> b < 2 ^ 31" using range put(2) by (simp add: places)
    from PutAvailable_exact [OF this] put inv show ?thesis by (simp add: node_inv_def places ac_simps)
  qed
qed

lemma node_run_inv:
  assumes "(node_step rl)\<^sup>*\<^sup>* y y'" "node_inv capacity sz y" "capacity \<le> 2 ^ 31"
  shows "node_inv capacity sz y'"
  using assms by (induction rule: rtranclp_induct) (auto intro: node_step_inv)

section \<open>The goroutines do not wait for each other\<close>

text \<open>No buffer is in the hands of a goroutine or on the way between two of them.\<close>

definition settled :: "'b node \<Rightarrow> bool" where
  "settled y \<longleftrightarrow> nd_complete y = [] \<and> nd_polled y = None \<and> chan_pending (nd_Complete y) = [] \<and>
     ag_data_to_report (nd_agent y) = [] \<and> chan_pending (ag_data (nd_agent y)) = [] \<and> nd_batch y = None \<and>
     chan_pending (ag_available (nd_agent y)) = [] \<and> nd_returned y = None"

text \<open>How far the buffers still have to go.\<close>

definition agent_weight :: "'b Agent \<Rightarrow> nat" where
  "agent_weight a = 6 * size (held (ag_dm a)) + 5 * length (ag_data_to_report a) +
     4 * length (concat (chan_pending (ag_data a))) + 2 * length (concat (chan_pending (ag_available a)))"

definition node_weight :: "'b node \<Rightarrow> nat" where
  "node_weight y = 9 * length (nd_complete y) + 8 * size (case_option {#} batch_buffers (nd_polled y)) +
     7 * size (sum_list (map batch_buffers (chan_pending (nd_Complete y)))) + agent_weight (nd_agent y) +
     3 * size (opt_buffers (nd_batch y)) + size (opt_buffers (nd_returned y))"

lemma completed_weight:
  assumes ok: "agent_ok a" and step: "agent_step rl a [Complete batch] a'"
  shows "agent_weight a' \<le> agent_weight a + 6 * size (batch_buffers batch)"
proof -
  have "fed a a'" using agent_event_taken [OF step] by blast
  from agent_step_keeps [OF ok step this] have t: "in_agent a' = in_agent a + batch_buffers batch"
    by (simp add: batch_buffers_def)
  have "only_returns a a'" using step by (cases rule: agent_step.cases) (auto intro: iteration_returns)
  then obtain ms where same: "ag_data a' = ag_data a" "ag_data_to_report a' = ag_data_to_report a"
    and g: "grown (ag_available a) ms (ag_available a')" by (auto simp: only_returns_def)
  have p: "chan_pending (ag_available a') = chan_pending (ag_available a) @ ms"
    using chan_pending_grown [OF g] ok by (simp add: agent_ok_def)
  have "size (in_agent a') = size (in_agent a) + size (batch_buffers batch)" using t by simp
  then show ?thesis by (simp add: in_agent_def agent_weight_def same p)
qed

lemma report_weight:
  assumes ok: "agent_ok a" and step: "agent_step rl a [Report] a'"
  shows "agent_weight a' < agent_weight a"
proof -
  have f: "fed a a'" and r: "ag_data_to_report a \<noteq> []" using agent_event_taken [OF step] by auto
  from agent_step_keeps [OF ok step f] have "size (in_agent a') = size (in_agent a)" by simp
  moreover have same: "ag_available a' = ag_available a" "ag_data a' = chan_send (ag_data_to_report a) (ag_data a)"
    using step by (cases rule: agent_step.cases; auto dest: iteration_batch)+
  moreover have "chan_pending (ag_data a') = chan_pending (ag_data a) @ [ag_data_to_report a]"
    using chan_pending_grown [OF grown_send] ok same(2) by (metis agent_ok_def)
  moreover have "0 < length (ag_data_to_report a)" using r by simp
  ultimately show ?thesis unfolding in_agent_def agent_weight_def by (simp del: length_greater_0_conv)
qed

definition lighter :: "'b ratelimit \<Rightarrow> 'b node \<Rightarrow> bool" where
  "lighter rl y \<longleftrightarrow> (\<exists>y'. node_step rl y y' \<and> node_weight y' < node_weight y)"

lemma lighterI: "node_step rl y y' \<Longrightarrow> node_weight y' < node_weight y \<Longrightarrow> lighter rl y"
  by (auto simp: lighter_def)

lemma agent_event:
  assumes "agent_ok a" "refilling rl" "ready ev a"
  shows "\<exists>a'. agent_step rl a [ev] a'"
  using iteration_ok [of a _ rl ev] agent_step.iterate [OF assms(3) order_refl] assms(1,2)
  by (metis agent_ok_def order_refl)

text \<open>Some goroutine can always bring a buffer further on its way: first those on their way back.\<close>

lemma progress_back:
  assumes inv: "node_inv capacity sz y" and pool: "\<forall>b. 0 \<le> b \<and> b < capacity \<longrightarrow> reportable pool sz b"
    and busy: "nd_returned y \<noteq> None \<or> chan_pending (ag_available (nd_agent y)) \<noteq> [] \<or> nd_batch y \<noteq> None"
  shows "lighter rl y"
proof -
  have ok: "agent_ok (nd_agent y)" using inv by (simp add: node_inv_def)
  consider bufids where "nd_returned y = Some bufids"
    | bufids rest where "nd_returned y = None" "chan_pending (ag_available (nd_agent y)) = bufids # rest"
    | buffers where "nd_batch y = Some buffers"
    using busy by (metis neq_Nil_conv not_None_eq)
  then show ?thesis
  proof cases
    case (1 bufids)
    then have "bufids \<noteq> []" using inv by (auto simp: node_inv_def)
    with 1 show ?thesis
      by (intro lighterI [OF node_step.put [OF 1]]) (simp add: node_weight_def opt_buffers_def)
  next
    case (2 bufids rest)
    from agent_ok_receive(2) [OF ok 2(2)] have "bufids \<noteq> []" by blast
    with 2 chan_pending_receive [OF 2(2)] show ?thesis
      by (intro lighterI [OF node_step.take_returned [OF 2]]) (simp add: node_weight_def agent_weight_def opt_buffers_def)
  next
    case (3 buffers)
    have nz: "buffers \<noteq> []" and sz: "rp_buffer_size (nd_reporting y) = sz" using inv 3 by (auto simp: node_inv_def)
    have "b \<in># pool_buffers y" if "b \<in> set buffers" for b using that 3 by (simp add: places)
    then have "\<forall>b \<in> set buffers. reportable pool sz b" using pool inv by (auto simp: node_inv_def)
    with reportData_ok [of buffers pool "nd_reporting y" rl] sz obtain err r conn' sent where
      rep: "reportData rl pool buffers (nd_reporting y, \<lparr>w_written = [], w_outcomes = []\<rparr>, []) = Inr (err, r, conn', sent)"
      by blast
    then have s: "sent = [buffers]" using reportData_sent nz by fastforce
    have "chan_ok (ag_available (nd_agent y))" using ok by (simp add: agent_ok_def)
    from chan_pending_grown [OF grown_send this, of buffers] nz show ?thesis
      by (intro lighterI [OF node_step.report [OF 3 rep]]) (simp add: node_weight_def agent_weight_def opt_buffers_def 3 s)
  qed
qed

text \<open>then those waiting to be reported,\<close>

lemma progress_report:
  assumes inv: "node_inv capacity sz y" and rl: "refilling rl" and idle: "nd_batch y = None"
    and busy: "chan_pending (ag_data (nd_agent y)) \<noteq> [] \<or> ag_data_to_report (nd_agent y) \<noteq> []"
  shows "lighter rl y"
proof -
  have ok: "agent_ok (nd_agent y)" using inv by (simp add: node_inv_def)
  show ?thesis
  proof (cases "chan_pending (ag_data (nd_agent y))")
    case (Cons buffers rest)
    from agent_ok_receive(1) [OF ok Cons] have "buffers \<noteq> []" by blast
    with idle Cons chan_pending_receive [OF Cons] show ?thesis
      by (intro lighterI [OF node_step.take_batch [OF idle Cons]]) (simp add: node_weight_def agent_weight_def opt_buffers_def)
  next
    case Nil
    then have "ready Report (nd_agent y)" using ok busy by (simp add: chan_full_iff agent_ok_def)
    with agent_event [OF ok rl] obtain a where a: "agent_step rl (nd_agent y) [Report] a" by blast
    have "fed (nd_agent y) a" using agent_event_taken [OF a] by blast
    then have "ch_taken (ag_available a) = ch_taken (ag_available (nd_agent y))"
      "ch_taken (ag_data a) = ch_taken (ag_data (nd_agent y))" by (auto simp: fed_def grown_def)
    from node_step.other [OF a _ this] have "node_step rl y (y\<lparr>nd_agent := a\<rparr>)" by simp
    then show ?thesis by (rule lighterI) (use report_weight [OF ok a] in \<open>simp add: node_weight_def\<close>)
  qed
qed

text \<open>then those that come from the application.\<close>

lemma progress_in:
  assumes inv: "node_inv capacity sz y" and rl: "refilling rl"
    and busy: "nd_complete y \<noteq> [] \<or> nd_polled y \<noteq> None \<or> chan_pending (nd_Complete y) \<noteq> []"
  shows "lighter rl y"
proof -
  have ok: "agent_ok (nd_agent y)" using inv by (simp add: node_inv_def)
  consider buffers rest where "chan_pending (nd_Complete y) = buffers # rest"
    | m where "chan_pending (nd_Complete y) = []" "nd_polled y = Some m"
    | "nd_polled y = None" "nd_complete y \<noteq> []"
    using busy by (metis neq_Nil_conv not_None_eq)
  then show ?thesis
  proof cases
    case (1 buffers rest)
    obtain a where a: "agent_step rl (nd_agent y) [Complete buffers] a" using agent_event [OF ok rl] by fastforce
    have "batch_buffers buffers \<noteq> {#}" using inv 1 by (simp add: node_inv_def)
    with completed_weight [OF ok a] chan_pending_receive(1) [OF 1] show ?thesis
      by (intro lighterI [OF node_step.completed [OF 1 refl a]]) (simp add: node_weight_def nonempty_has_size 1)
  next
    case (2 m)
    then have m: "batch_buffers m \<noteq> {#}" and c: "chan_ok (nd_Complete y)" "ch_cap (nd_Complete y) = 100000"
      using inv by (simp_all add: node_inv_def)
    then have "\<not> chan_full (nd_Complete y)" using 2 by (simp add: chan_full_iff)
    from lighterI [OF node_step.send [OF 2(2) this]] chan_pending_grown [OF grown_send c(1), of m] 2 m show ?thesis
      by (simp add: node_weight_def nonempty_has_size)
  next
    case 3
    obtain cnt m rest where g: "GetCompleteBatches (nd_complete y) = (cnt, m, rest)"
      by (cases "GetCompleteBatches (nd_complete y)")
    have l: "length (nd_complete y) = size (batch_buffers m) + length rest"
      using arg_cong [OF polled_buffers(1) [OF g], of size] by simp
    have "cnt > 0" using cb.get_count [of "nd_complete y"] 3(2) by (simp add: g BATCHSIZE_def)
    with polled_buffers(2) [OF g] l 3 show ?thesis
      by (intro lighterI [OF node_step.poll [OF 3(1) g]]) (simp add: node_weight_def nonempty_has_size)
  qed
qed

lemma node_progress:
  assumes "node_inv capacity sz y" and "refilling rl" and "\<forall>b. 0 \<le> b \<and> b < capacity \<longrightarrow> reportable pool sz b"
    and "\<not> settled y"
  shows "lighter rl y"
proof (cases "nd_returned y \<noteq> None \<or> chan_pending (ag_available (nd_agent y)) \<noteq> [] \<or> nd_batch y \<noteq> None")
  case True
  with assms show ?thesis by (blast intro: progress_back)
next
  case False
  with assms show ?thesis unfolding settled_def by (metis progress_report progress_in)
qed

lemma node_settles:
  assumes "node_inv capacity sz y" "refilling rl" "\<forall>b. 0 \<le> b \<and> b < capacity \<longrightarrow> reportable pool sz b"
    and cap: "capacity \<le> 2 ^ 31"
  shows "\<exists>y'. (node_step rl)\<^sup>*\<^sup>* y y' \<and> settled y'"
  using assms(1)
proof (induction "node_weight y" arbitrary: y rule: less_induct)
  case less
  show ?case
  proof (cases "settled y")
    case False
    with node_progress [OF less.prems assms(2,3)] obtain y1 where y1: "node_step rl y y1" "node_weight y1 < node_weight y"
      by (auto simp: lighter_def)
    from less.hyps [OF y1(2) node_step_inv [OF y1(1) less.prems cap]] y1(1) show ?thesis
      by (meson converse_rtranclp_into_rtranclp)
  qed blast
qed

section \<open>The node at the start\<close>

lemma init_node_inv:
  assumes "InitAgent2 rl now capacity sz limit limits = Inr a0" "0 < sz" "rp_buffer_size r = sz"
  shows "node_inv capacity sz (init_node capacity a0 r)"
proof -
  have i: "agent_inv a0" "accounted a0 = {#}"
    using InitAgent2_ok [OF assms(2), of rl now capacity limit limits] assms(1) by auto
  have "ag_available a0 = chan_make 100000" "ag_data a0 = chan_make 4"
    using assms(1) by (auto simp: InitAgent2_def rbind_eq_Inr Let_def case_prod_beta)
  with i show ?thesis
    by (simp add: node_inv_def agent_ok_def init_node_def places accounted_in_agent assms(3))
qed

lemma InitReporting_size [simp]: "rp_buffer_size (InitReporting rl sz rate enabled remote host port) = sz"
  by (simp add: InitReporting_def Let_def)

lemma reachable_inv:
  assumes "InitAgent2 rl now capacity sz limit limits = Inr a0" "0 < sz" "capacity \<le> 2 ^ 31"
    and "(node_step rl)\<^sup>*\<^sup>* (init_node capacity a0 (InitReporting rl sz rate enabled remote host port)) y"
  shows "node_inv capacity sz y"
  by (rule node_run_inv [OF assms(4) init_node_inv [OF assms(1,2)] assms(3)]) simp

lemma pool_buffers_size: "node_inv capacity sz y \<Longrightarrow> 0 \<le> capacity \<Longrightarrow> int (size (pool_buffers y)) = capacity"
  by (simp add: node_inv_def)

text \<open>A batch takes up at least one buffer, so there are no more batches than buffers.\<close>

lemma length_le_concat: "[] \<notin> set xss \<Longrightarrow> length xss \<le> length (concat xss)"
proof (induction xss)
  case (Cons xs xss)
  then show ?case by (cases xs) auto
qed simp

lemma length_le_batches: "\<forall>m \<in> set ms. batch_buffers m \<noteq> {#} \<Longrightarrow> length ms \<le> size (sum_list (map batch_buffers ms))"
proof (induction ms)
  case (Cons m ms)
  then have "0 < size (batch_buffers m)" by (simp add: nonempty_has_size)
  with Cons show ?case by simp
qed simp

section \<open>Properties\<close>

text \<open>A run used by the examples: the application takes buffer 0 and gives it back for trace 7, and the
  agent's polling loop fetches it.\<close>

lemma cycle_demo_run:
  "\<exists>y. (node_step rl)\<^sup>*\<^sup>* (init_node 3 a r) y \<and> nd_available y = [1, 2] \<and> nd_polled y = Some [(7, [0])]"
proof -
  let ?y1 = "(init_node 3 a r)\<lparr>nd_available := [1, 2], nd_app := {#0#}\<rparr>"
  let ?y2 = "?y1\<lparr>nd_app := {#}, nd_complete := [(7, 0)]\<rparr>"
  let ?y3 = "?y2\<lparr>nd_complete := [], nd_polled := Some [(7, [0])]\<rparr>"
  have "[0..2] = [0, 1, 2 :: int]" by code_simp
  then have s1: "node_step rl (init_node 3 a r) ?y1"
    using node_step.acquire [of "init_node 3 a r" 0 "[1, 2]" rl] by (simp add: init_node_def)
  have s2: "node_step rl ?y1 ?y2"
    using node_step.give_back [of 0 ?y1 rl 7] by (simp add: init_node_def)
  have g: "GetCompleteBatches [(7, 0)] = (1, [(7, [0])], [])" by code_simp
  have s3: "node_step rl ?y2 ?y3"
    using node_step.poll [of ?y2 1 "[(7, [0])]" "[]" rl] g by (simp add: init_node_def)
  have "(node_step rl)\<^sup>*\<^sup>* (init_node 3 a r) ?y3"
    by (rule converse_rtranclp_into_rtranclp [of "node_step rl"], rule s1,
      rule converse_rtranclp_into_rtranclp [of "node_step rl"], rule s2, rule r_into_rtranclp, rule s3)
  then show ?thesis by (intro exI [of _ ?y3]) simp
qed

text \<open>C2: No buffer of the pool is ever lost or in two places: whatever the application, the polling loops, the
  event loop, the reporting goroutine and the network do, and however they are interleaved, each buffer is
  in the available queue, with the application, in the complete queue, with the polling loop, in the
  channel to the agent, in the agent, in the hands of the reporting goroutine or in those of the loop
  that returns it.\<close>

theorem pool_never_leaks:
  assumes "InitAgent2 rl now capacity sz limit limits = Inr a0" and "0 < sz" and "capacity \<le> 2 ^ 31"
    and "(node_step rl)\<^sup>*\<^sup>* (init_node capacity a0 (InitReporting rl sz rate enabled remote host port)) y"
  shows "mset (nd_available y) + nd_app y + incoming y + in_agent (nd_agent y) + opt_buffers (nd_batch y) +
    opt_buffers (nd_returned y) = mset [0..capacity - 1]"
  using reachable_inv [OF assms] by (simp add: node_inv_def pool_buffers_def)

theorem pool_never_leaks_witness:
  "\<exists>a0 y. InitAgent2 ticking 0 3 4096 0 [] = Inr a0 \<and>
     (node_step ticking)\<^sup>*\<^sup>* (init_node 3 a0 (InitReporting ticking 4096 0 True [] [] [])) y \<and>
     nd_polled y = Some [(7, [0])] \<and>
     mset (nd_available y) + nd_app y + incoming y + in_agent (nd_agent y) + opt_buffers (nd_batch y) +
       opt_buffers (nd_returned y) = mset [0..2]"
proof -
  obtain a0 where a0: "InitAgent2 ticking 0 3 4096 0 [] = Inr a0" using init_ticking by blast
  obtain y where y: "(node_step ticking)\<^sup>*\<^sup>* (init_node 3 a0 (InitReporting ticking 4096 0 True [] [] [])) y"
    "nd_polled y = Some [(7, [0])]" using cycle_demo_run by blast
  from pool_never_leaks [OF a0 _ _ y(1)] a0 y show ?thesis by auto
qed

text \<open>C15: No queue overflows: the available queue, which like the complete queue has room for \<^verbatim>\<open>capacity\<close> entries,
  always has room for the buffers that \<^verbatim>\<open>PutAvailable\<close> writes, so that call never blocks, as its comment
  says; the complete queue has room for all buffers that the application holds; and neither the channel
  \<^verbatim>\<open>Available\<close> nor the channel \<^verbatim>\<open>Complete\<close> ever holds more batches than the pool has buffers.\<close>

theorem queues_have_room:
  assumes "InitAgent2 rl now capacity sz limit limits = Inr a0" and "0 < sz" and "0 \<le> capacity" and "capacity \<le> 2 ^ 31"
    and "(node_step rl)\<^sup>*\<^sup>* (init_node capacity a0 (InitReporting rl sz rate enabled remote host port)) y"
  shows "int (length (nd_available y)) + int (size (opt_buffers (nd_returned y))) \<le> capacity \<and>
    int (length (nd_complete y)) + int (size (nd_app y)) \<le> capacity \<and>
    int (length (chan_pending (ag_available (nd_agent y)))) \<le> capacity \<and>
    int (length (chan_pending (nd_Complete y))) + (if nd_polled y = None then 0 else 1) \<le> capacity"
proof -
  have inv: "node_inv capacity sz y" by (rule reachable_inv [OF assms(1,2,4,5)])
  have s: "int (size (pool_buffers y)) = capacity" by (rule pool_buffers_size [OF inv assms(3)])
  have "int (length (nd_available y)) + int (size (opt_buffers (nd_returned y))) \<le> capacity"
    "int (length (nd_complete y)) + int (size (nd_app y)) \<le> capacity"
    using s by (simp_all add: pool_buffers_def incoming_def)
  moreover
  have "[] \<notin> set (chan_pending (ag_available (nd_agent y)))" using inv by (simp add: node_inv_def agent_ok_def)
  from length_le_concat [OF this] s have "int (length (chan_pending (ag_available (nd_agent y)))) \<le> capacity"
    by (simp add: pool_buffers_def in_agent_def)
  moreover have "int (length (chan_pending (nd_Complete y))) + (if nd_polled y = None then 0 else 1) \<le> capacity"
  proof -
    have "length (chan_pending (nd_Complete y)) \<le> size (sum_list (map batch_buffers (chan_pending (nd_Complete y))))"
      using inv by (intro length_le_batches) (simp add: node_inv_def)
    moreover have "(if nd_polled y = None then 0 else 1) \<le> int (size (case_option {#} batch_buffers (nd_polled y)))"
      using inv by (auto simp: node_inv_def nonempty_has_size Suc_le_eq split: option.split)
    ultimately show ?thesis using s by (simp add: pool_buffers_def incoming_def)
  qed
  ultimately show ?thesis by blast
qed

theorem queues_have_room_witness:
  "\<exists>a0 y. InitAgent2 ticking 0 3 4096 0 [] = Inr a0 \<and>
     (node_step ticking)\<^sup>*\<^sup>* (init_node 3 a0 (InitReporting ticking 4096 0 True [] [] [])) y \<and>
     nd_polled y = Some [(7, [0])] \<and>
     int (length (nd_available y)) + int (size (opt_buffers (nd_returned y))) \<le> 3 \<and>
     int (length (chan_pending (nd_Complete y))) + 1 \<le> 3"
proof -
  obtain a0 where a0: "InitAgent2 ticking 0 3 4096 0 [] = Inr a0" using init_ticking by blast
  obtain y where y: "(node_step ticking)\<^sup>*\<^sup>* (init_node 3 a0 (InitReporting ticking 4096 0 True [] [] [])) y"
    "nd_polled y = Some [(7, [0])]" using cycle_demo_run by blast
  from queues_have_room [OF a0 _ _ _ y(1)] a0 y show ?thesis by auto
qed

text \<open>C4: The goroutines never block each other for good: from every state they can reach, they can go on
  until no buffer is on its way, and then each buffer is available to the application, held by it, or
  kept by the data manager.  The limiter has to refill and the headers written by the tracers have to
  give sizes within the pool.\<close>

theorem node_never_deadlocks:
  assumes "InitAgent2 rl now capacity sz limit limits = Inr a0" and "0 < sz" and "capacity \<le> 2 ^ 31"
    and "(node_step rl)\<^sup>*\<^sup>* (init_node capacity a0 (InitReporting rl sz rate enabled remote host port)) y"
    and "refilling rl" and "\<forall>b. 0 \<le> b \<and> b < capacity \<longrightarrow> reportable pool sz b"
  shows "\<exists>y'. (node_step rl)\<^sup>*\<^sup>* y y' \<and> settled y' \<and>
    mset (nd_available y') + nd_app y' + held (ag_dm (nd_agent y')) = mset [0..capacity - 1]"
proof -
  have inv: "node_inv capacity sz y" by (rule reachable_inv [OF assms(1-4)])
  from node_settles [OF inv assms(5,6,3)] obtain y' where y': "(node_step rl)\<^sup>*\<^sup>* y y'" "settled y'" by blast
  have "pool_buffers y' = mset [0..capacity - 1]"
    using node_run_inv [OF y'(1) inv assms(3)] by (simp add: node_inv_def)
  with y' show ?thesis by (auto simp: settled_def places in_agent_def)
qed

theorem node_never_deadlocks_witness:
  "\<exists>a0 y y'. InitAgent2 ticking 0 3 4096 0 [] = Inr a0 \<and>
     (node_step ticking)\<^sup>*\<^sup>* (init_node 3 a0 (InitReporting ticking 4096 0 True [] [] [])) y \<and>
     nd_polled y = Some [(7, [0])] \<and> (node_step ticking)\<^sup>*\<^sup>* y y' \<and> settled y' \<and>
     mset (nd_available y') + nd_app y' + held (ag_dm (nd_agent y')) = mset [0..2]"
proof -
  obtain a0 where a0: "InitAgent2 ticking 0 3 4096 0 [] = Inr a0" using init_ticking by blast
  obtain y where y: "(node_step ticking)\<^sup>*\<^sup>* (init_node 3 a0 (InitReporting ticking 4096 0 True [] [] [])) y"
    "nd_polled y = Some [(7, [0])]" using cycle_demo_run by blast
  have z: "le_at (\<lambda>_. 0) p 4 = 0" for p by (simp add: le_at_def numeral_eq_Suc)
  have "\<forall>b. 0 \<le> b \<and> b < 3 \<longrightarrow> reportable (\<lambda>_. 0) 4096 b" by (simp add: reportable_def z POOL_LIMIT_def)
  from node_never_deadlocks [OF a0 _ _ y(1) refilling_ticking this] a0 y show ?thesis by auto
qed

end
