(* ===== verification/Delayer.thy ===== *)
theory Delayer
  imports Go_List Go_Chan Shm_Api
begin

text \<open>
  The delayer (\<^verbatim>\<open>pkg/agent/delayer.go\<close>), which holds back local triggers for a configured time.
\<close>

record DelayedTrigger =
  dt_trigger_at :: time
  dt_triggers :: "Trigger list"

text \<open>The timer is the time at which it fires next; a timer that has fired or was stopped is
  \<open>None\<close>.\<close>

record Delayer =
  dl_outgoing :: "Trigger list chan"
  dl_delay :: duration
  dl_delayed :: "DelayedTrigger golist"
  dl_timer :: "time option"

definition delayTriggers :: "duration \<Rightarrow> Delayer" where
  "delayTriggers delay =
     \<lparr>dl_outgoing = chan_make 10000, dl_delay = delay, dl_delayed = list_New, dl_timer = None\<rparr>"

definition addTriggers :: "time \<Rightarrow> Trigger list \<Rightarrow> Delayer \<Rightarrow> Delayer" where
  "addTriggers now triggers d =
     (let t = \<lparr>dt_trigger_at = now + dl_delay d, dt_triggers = triggers\<rparr>;
          d1 = (if list_Len (dl_delayed d) = 0 then d\<lparr>dl_timer := Some (now + dl_delay d)\<rparr> else d)
      in d1\<lparr>dl_delayed := snd (list_PushBack t (dl_delayed d1))\<rparr>)"

lemma list_Front_remove:
  "list_Front l = Some (e, v) \<Longrightarrow> length (elems (list_Remove e l)) < length (elems l)"
  by (cases "elems l") (auto simp: list_Front_def list_Remove_def less_Suc_eq_le split: if_splits)

text \<open>\<^verbatim>\<open>checkTimeouts\<close>; resetting the timer to \<^verbatim>\<open>trigger_at.Sub(now)\<close> makes it fire at
  \<^verbatim>\<open>trigger_at\<close>.\<close>

function checkTimeouts :: "time \<Rightarrow> Delayer \<Rightarrow> Delayer" where
  "checkTimeouts now d =
     (case list_Front (dl_delayed d) of
        None \<Rightarrow> d
      | Some (elem, t) \<Rightarrow>
          if dt_trigger_at t < now
          then checkTimeouts now (d\<lparr>dl_delayed := list_Remove elem (dl_delayed d),
                                    dl_outgoing := chan_send (dt_triggers t) (dl_outgoing d)\<rparr>)
          else d\<lparr>dl_timer := Some (dt_trigger_at t)\<rparr>)"
  by pat_completeness auto
termination
  by (relation "measure (\<lambda>(now, d). length (elems (dl_delayed d)))") (auto dest: list_Front_remove)

declare checkTimeouts.simps [simp del]

text \<open>
  The loop \<^verbatim>\<open>applyDelay\<close>: what arrived so far and when, the time of the last step, and the state.
  Triggers can arrive at any time; the timer is looked at only while triggers are waiting, and
  receiving from it leaves it stopped.  The clock never goes backwards.
\<close>

inductive applyDelay :: "duration \<Rightarrow> (time \<times> Trigger list) list \<Rightarrow> time \<Rightarrow> Delayer \<Rightarrow> bool" for delay where
  start: "applyDelay delay [] now (delayTriggers delay)"
| arrive: "applyDelay delay arrivals now d \<Longrightarrow> now \<le> now' \<Longrightarrow>
    applyDelay delay (arrivals @ [(now', triggers)]) now' (addTriggers now' triggers d)"
| fire: "applyDelay delay arrivals now d \<Longrightarrow> now \<le> now' \<Longrightarrow> 0 < list_Len (dl_delayed d) \<Longrightarrow>
    dl_timer d = Some t \<Longrightarrow> t \<le> now' \<Longrightarrow>
    applyDelay delay arrivals now' (checkTimeouts now' (d\<lparr>dl_timer := None\<rparr>))"
| forward: "applyDelay delay arrivals now d \<Longrightarrow> ch_taken (dl_outgoing d) < length (ch_log (dl_outgoing d)) \<Longrightarrow>
    applyDelay delay arrivals now (d\<lparr>dl_outgoing := chan_receive (dl_outgoing d)\<rparr>)"

section \<open>The invariant\<close>

text \<open>The batches sent are a prefix of those that arrived and each was due; the rest is waiting, in
  order of its due time, with the timer set for the first.\<close>

definition delayer_inv :: "duration \<Rightarrow> (time \<times> Trigger list) list \<Rightarrow> time \<Rightarrow> Delayer \<Rightarrow> bool" where
  "delayer_inv delay arrivals now d \<longleftrightarrow>
     list_wf (dl_delayed d) \<and> dl_delay d = delay \<and> sorted (map fst arrivals) \<and> (\<forall>(t, ts) \<in> set arrivals. t \<le> now) \<and>
     (\<exists>k \<le> length arrivals. ch_log (dl_outgoing d) = map snd (take k arrivals) \<and>
        (\<forall>(t, ts) \<in> set (take k arrivals). t + delay < now) \<and>
        map snd (elems (dl_delayed d)) = map (\<lambda>(t, ts). \<lparr>dt_trigger_at = t + delay, dt_triggers = ts\<rparr>) (drop k arrivals) \<and>
        (k < length arrivals \<longrightarrow> dl_timer d = Some (fst (arrivals ! k) + delay)))"

text \<open>The loop of \<^verbatim>\<open>checkTimeouts\<close> over the waiting batches.\<close>

lemma checkTimeouts_ok:
  assumes "list_wf (dl_delayed d)"
    and "map snd (elems (dl_delayed d)) = map (\<lambda>(t, ts). \<lparr>dt_trigger_at = t + delay, dt_triggers = ts\<rparr>) waiting"
  shows "\<exists>k \<le> length waiting. list_wf (dl_delayed (checkTimeouts now d)) \<and> dl_delay (checkTimeouts now d) = dl_delay d \<and>
    ch_log (dl_outgoing (checkTimeouts now d)) = ch_log (dl_outgoing d) @ map snd (take k waiting) \<and>
    (\<forall>(t, ts) \<in> set (take k waiting). t + delay < now) \<and>
    map snd (elems (dl_delayed (checkTimeouts now d))) = map (\<lambda>(t, ts). \<lparr>dt_trigger_at = t + delay, dt_triggers = ts\<rparr>) (drop k waiting) \<and>
    (k < length waiting \<longrightarrow> dl_timer (checkTimeouts now d) = Some (fst (waiting ! k) + delay) \<and> now \<le> fst (waiting ! k) + delay)"
  using assms
proof (induction waiting arbitrary: d)
  case Nil
  then have "checkTimeouts now d = d" by (subst checkTimeouts.simps) (simp add: list_Front_def)
  with Nil show ?case by simp
next
  case (Cons w waiting)
  obtain t ts where w: "w = (t, ts)" by (cases w)
  from Cons.prems(2) obtain e es where el: "elems (dl_delayed d) = (e, \<lparr>dt_trigger_at = t + delay, dt_triggers = ts\<rparr>) # es"
    "map snd es = map (\<lambda>(t, ts). \<lparr>dt_trigger_at = t + delay, dt_triggers = ts\<rparr>) waiting"
    by (auto simp: w Cons_eq_map_conv map_eq_Cons_conv)
  then have f: "list_Front (dl_delayed d) = Some (e, \<lparr>dt_trigger_at = t + delay, dt_triggers = ts\<rparr>)" by (simp add: list_Front_def)
  show ?case
  proof (cases "t + delay < now")
    case False
    then have c: "checkTimeouts now d = d\<lparr>dl_timer := Some (t + delay)\<rparr>" using f by (subst checkTimeouts.simps) simp
    show ?thesis using False Cons.prems by (intro exI [of _ 0]) (simp add: c w)
  next
    case True
    let ?d = "d\<lparr>dl_delayed := list_Remove e (dl_delayed d), dl_outgoing := chan_send ts (dl_outgoing d)\<rparr>"
    have c: "checkTimeouts now d = checkTimeouts now ?d" using f True by (subst checkTimeouts.simps) simp
    have "e \<notin> fst ` set es" using Cons.prems(1) el(1) by (simp add: list_wf_def)
    then have r: "elems (list_Remove e (dl_delayed d)) = es"
      by (auto simp: list_Remove_def el(1) filter_id_conv)
    have wf: "list_wf (dl_delayed ?d)" using lst.remove_wf [OF Cons.prems(1)] by simp
    have "map snd (elems (dl_delayed ?d)) = map (\<lambda>(t, ts). \<lparr>dt_trigger_at = t + delay, dt_triggers = ts\<rparr>) waiting"
      using r el(2) by simp
    from Cons.IH [OF wf this] obtain k where k: "k \<le> length waiting" "list_wf (dl_delayed (checkTimeouts now ?d))"
      "dl_delay (checkTimeouts now ?d) = dl_delay d"
      "ch_log (dl_outgoing (checkTimeouts now ?d)) = (ch_log (dl_outgoing d) @ [ts]) @ map snd (take k waiting)"
      "\<forall>(t, ts) \<in> set (take k waiting). t + delay < now"
      "map snd (elems (dl_delayed (checkTimeouts now ?d))) = map (\<lambda>(t, ts). \<lparr>dt_trigger_at = t + delay, dt_triggers = ts\<rparr>) (drop k waiting)"
      "k < length waiting \<longrightarrow> dl_timer (checkTimeouts now ?d) = Some (fst (waiting ! k) + delay) \<and> now \<le> fst (waiting ! k) + delay"
      by auto
    then show ?thesis using True by (intro exI [of _ "Suc k"]) (auto simp: c w)
  qed
qed

lemma applyDelay_inv: "applyDelay delay arrivals now d \<Longrightarrow> delayer_inv delay arrivals now d"
proof (induction rule: applyDelay.induct)
  case (start now)
  then show ?case by (simp add: delayer_inv_def delayTriggers_def list_New_def list_wf_def)
next
  case (arrive arrivals now d now' ts)
  then obtain k where k: "k \<le> length arrivals" "ch_log (dl_outgoing d) = map snd (take k arrivals)"
    "\<forall>(t, ts) \<in> set (take k arrivals). t + delay < now"
    "map snd (elems (dl_delayed d)) = map (\<lambda>(t, ts). \<lparr>dt_trigger_at = t + delay, dt_triggers = ts\<rparr>) (drop k arrivals)"
    "k < length arrivals \<longrightarrow> dl_timer d = Some (fst (arrivals ! k) + delay)"
    and i: "list_wf (dl_delayed d)" "dl_delay d = delay" "sorted (map fst arrivals)" "\<forall>(t, ts) \<in> set arrivals. t \<le> now"
    by (auto simp: delayer_inv_def)
  let ?d = "addTriggers now' ts d" and ?a = "arrivals @ [(now', ts)]"
  have len: "list_Len (dl_delayed d) = int (length arrivals - k)"
    using arg_cong [OF k(4), of length] by (simp add: list_Len_def)
  have d: "elems (dl_delayed ?d) = elems (dl_delayed d) @ [(fresh (dl_delayed d), \<lparr>dt_trigger_at = now' + delay, dt_triggers = ts\<rparr>)]"
    "list_wf (dl_delayed ?d)" "dl_delay ?d = delay" "dl_outgoing ?d = dl_outgoing d"
    "dl_timer ?d = (if k = length arrivals then Some (now' + delay) else dl_timer d)"
    using i(1,2) len k(1) by (auto simp: addTriggers_def Let_def list_PushBack_def list_wf_def)
  have "sorted (map fst ?a)" "\<forall>(t, ts) \<in> set ?a. t \<le> now'" using i(3,4) arrive.hyps(2) by (force simp: sorted_append)+
  moreover have "\<forall>(t, ts) \<in> set (take k ?a). t + delay < now'" using k(1,3) arrive.hyps(2) by fastforce
  moreover have "k < length ?a \<longrightarrow> dl_timer ?d = Some (fst (?a ! k) + delay)" using k(1,5) d(5) by (auto simp: nth_append)
  ultimately show ?case unfolding delayer_inv_def using k d by (intro conjI exI [of _ k]) auto
next
  case (fire arrivals now d now' t)
  then obtain k where k: "k \<le> length arrivals" "ch_log (dl_outgoing d) = map snd (take k arrivals)"
    "\<forall>(t, ts) \<in> set (take k arrivals). t + delay < now"
    "map snd (elems (dl_delayed d)) = map (\<lambda>(t, ts). \<lparr>dt_trigger_at = t + delay, dt_triggers = ts\<rparr>) (drop k arrivals)"
    and i: "list_wf (dl_delayed d)" "dl_delay d = delay" "sorted (map fst arrivals)" "\<forall>(t, ts) \<in> set arrivals. t \<le> now"
    by (auto simp: delayer_inv_def)
  let ?d = "d\<lparr>dl_timer := None\<rparr>"
  from checkTimeouts_ok [of ?d delay "drop k arrivals" now'] i(1) k(4) obtain j where j: "j \<le> length arrivals - k"
    "list_wf (dl_delayed (checkTimeouts now' ?d))" "dl_delay (checkTimeouts now' ?d) = dl_delay d"
    "ch_log (dl_outgoing (checkTimeouts now' ?d)) = map snd (take k arrivals) @ map snd (take j (drop k arrivals))"
    "\<forall>(t, ts) \<in> set (take j (drop k arrivals)). t + delay < now'"
    "map snd (elems (dl_delayed (checkTimeouts now' ?d))) = map (\<lambda>(t, ts). \<lparr>dt_trigger_at = t + delay, dt_triggers = ts\<rparr>) (drop j (drop k arrivals))"
    "j < length arrivals - k \<longrightarrow> dl_timer (checkTimeouts now' ?d) = Some (fst (drop k arrivals ! j) + delay)"
    by (auto simp: k(2))
  have "\<forall>(t, ts) \<in> set (take (k + j) arrivals). t + delay < now'"
    using k(3) j(5) fire.hyps(2) by (force simp: take_add)
  moreover have "\<forall>(t, ts) \<in> set arrivals. t \<le> now'" using i(4) fire.hyps(2) by force
  moreover have "k + j \<le> length arrivals" using j(1) k(1) by simp
  moreover have "ch_log (dl_outgoing (checkTimeouts now' ?d)) = map snd (take (k + j) arrivals)"
    using j(4) by (simp add: take_add)
  moreover have "drop j (drop k arrivals) = drop (k + j) arrivals" by (simp add: add.commute)
  moreover have "k + j < length arrivals \<longrightarrow> dl_timer (checkTimeouts now' ?d) = Some (fst (arrivals ! (k + j)) + delay)"
    using j(7) k(1) by auto
  ultimately show ?case unfolding delayer_inv_def using i j(2,3,6)
    by (intro conjI exI [of _ "k + j"]) simp_all
next
  case (forward arrivals now d)
  then show ?case by (auto simp: delayer_inv_def)
qed

section \<open>Properties\<close>

text \<open>C19: The delayer forwards the triggers in the order in which they arrived, loses and duplicates none,
  and forwards none before its delay has passed.\<close>

theorem delayer_fifo_never_early:
  assumes "applyDelay delay arrivals now d"
  shows "ch_log (dl_outgoing d) @ map (\<lambda>(e, t). dt_triggers t) (elems (dl_delayed d)) = map snd arrivals \<and>
    (\<forall>i < length (ch_log (dl_outgoing d)). fst (arrivals ! i) + delay < now)"
proof -
  from applyDelay_inv [OF assms] obtain k where k: "k \<le> length arrivals" "ch_log (dl_outgoing d) = map snd (take k arrivals)"
    "\<forall>(t, ts) \<in> set (take k arrivals). t + delay < now"
    "map snd (elems (dl_delayed d)) = map (\<lambda>(t, ts). \<lparr>dt_trigger_at = t + delay, dt_triggers = ts\<rparr>) (drop k arrivals)"
    by (auto simp: delayer_inv_def)
  from arg_cong [OF k(4), of "map dt_triggers"]
  have "map (\<lambda>(e, t). dt_triggers t) (elems (dl_delayed d)) = map snd (drop k arrivals)"
    by (simp add: comp_def case_prod_beta')
  moreover have "fst (arrivals ! i) + delay < now" if "i < k" for i
  proof -
    have "take k arrivals ! i \<in> set (take k arrivals)" using that k(1) by (intro nth_mem) simp
    then have "arrivals ! i \<in> set (take k arrivals)" using that by simp
    with k(3) show ?thesis by (auto simp: case_prod_beta)
  qed
  ultimately show ?thesis using k(1,2) by (simp flip: map_append)
qed

text \<open>A waiting trigger is not forgotten: while triggers wait, the timer is set, for the time at which
  the first of them is due, and when it fires at time \<open>now'\<close>, all triggers that are due before
  \<open>now'\<close> are forwarded.\<close>

theorem delayer_wakes_up:
  assumes "applyDelay delay arrivals now d" and "length (ch_log (dl_outgoing d)) < length arrivals"
  shows "dl_timer d = Some (fst (arrivals ! length (ch_log (dl_outgoing d))) + delay) \<and>
    (\<forall>now' i. i < length arrivals \<and> fst (arrivals ! i) + delay < now' \<longrightarrow>
       i < length (ch_log (dl_outgoing (checkTimeouts now' (d\<lparr>dl_timer := None\<rparr>)))))"
proof -
  from applyDelay_inv [OF assms(1)] obtain k where k: "k \<le> length arrivals" "ch_log (dl_outgoing d) = map snd (take k arrivals)"
    "map snd (elems (dl_delayed d)) = map (\<lambda>(t, ts). \<lparr>dt_trigger_at = t + delay, dt_triggers = ts\<rparr>) (drop k arrivals)"
    "k < length arrivals \<longrightarrow> dl_timer d = Some (fst (arrivals ! k) + delay)"
    and i: "list_wf (dl_delayed d)" "sorted (map fst arrivals)"
    by (auto simp: delayer_inv_def)
  have "i < length (ch_log (dl_outgoing (checkTimeouts now' (d\<lparr>dl_timer := None\<rparr>))))"
    if "i < length arrivals" "fst (arrivals ! i) + delay < now'" for now' i
  proof (rule ccontr)
    assume late: "\<not> ?thesis"
    from checkTimeouts_ok [of "d\<lparr>dl_timer := None\<rparr>" delay "drop k arrivals" now'] i(1) k(3) obtain j where j:
      "j \<le> length arrivals - k"
      "ch_log (dl_outgoing (checkTimeouts now' (d\<lparr>dl_timer := None\<rparr>))) = map snd (take k arrivals) @ map snd (take j (drop k arrivals))"
      "j < length arrivals - k \<longrightarrow> now' \<le> fst (drop k arrivals ! j) + delay" by (auto simp: k(2))
    have kj: "k + j \<le> i" using late j(1,2) k(1) by (auto simp: min_def split: if_splits)
    then have "now' \<le> fst (arrivals ! (k + j)) + delay" using j(3) that(1) k(1) by simp
    moreover have "fst (arrivals ! (k + j)) \<le> fst (arrivals ! i)"
      using sorted_nth_mono [OF i(2) kj] that(1) kj by simp
    ultimately show False using that(2) by simp
  qed
  with k assms(2) show ?thesis by auto
qed

lemma demo_delay:
  "applyDelay 100 [(5, []), (7, [\<lparr>Queue_id = 1, Base_trace_id = 2, Trace_id = 3\<rparr>])] 7
     (addTriggers 7 [\<lparr>Queue_id = 1, Base_trace_id = 2, Trace_id = 3\<rparr>] (addTriggers 5 [] (delayTriggers 100)))"
  using applyDelay.arrive [OF applyDelay.arrive [OF applyDelay.start, of 0 5 100 "[]"], of 7 "[\<lparr>Queue_id = 1, Base_trace_id = 2, Trace_id = 3\<rparr>]"]
  by simp

theorem delayer_fifo_never_early_witness:
  "\<exists>d. applyDelay 100 [(5, []), (7, [\<lparr>Queue_id = 1, Base_trace_id = 2, Trace_id = 3\<rparr>])] 106 d \<and>
     ch_log (dl_outgoing d) @ map (\<lambda>(e, t). dt_triggers t) (elems (dl_delayed d)) = [[], [\<lparr>Queue_id = 1, Base_trace_id = 2, Trace_id = 3\<rparr>]]"
proof -
  let ?d = "addTriggers 7 [\<lparr>Queue_id = 1, Base_trace_id = 2, Trace_id = 3\<rparr>] (addTriggers 5 [] (delayTriggers 100))"
  have "0 < list_Len (dl_delayed ?d)" "dl_timer ?d = Some 105" by code_simp+
  from applyDelay.fire [OF demo_delay _ this, of 106]
  have r: "applyDelay 100 [(5, []), (7, [\<lparr>Queue_id = 1, Base_trace_id = 2, Trace_id = 3\<rparr>])] 106 (checkTimeouts 106 (?d\<lparr>dl_timer := None\<rparr>))"
    by simp
  with delayer_fifo_never_early [OF r] show ?thesis by auto
qed

theorem delayer_wakes_up_witness:
  "dl_timer (addTriggers 7 [\<lparr>Queue_id = 1, Base_trace_id = 2, Trace_id = 3\<rparr>] (addTriggers 5 [] (delayTriggers 100))) = Some 105"
proof -
  have "ch_log (dl_outgoing (addTriggers 7 [\<lparr>Queue_id = 1, Base_trace_id = 2, Trace_id = 3\<rparr>] (addTriggers 5 [] (delayTriggers 100)))) = []"
    by code_simp
  with delayer_wakes_up [OF demo_delay] show ?thesis by simp
qed

end
