(* ===== verification/Messages.thy ===== *)
theory Messages
  imports Hs_Prelude
begin

text \<open>
  The messages agents and coordinator exchange (\<^verbatim>\<open>pkg/datapb\<close>), and the loop that gathers messages of a
  channel into batches and reports each batch, which three goroutines share: the reporting of local
  triggers and of breadcrumbs in \<^verbatim>\<open>pkg/agent/coordinator.go\<close> and of remote triggers in
  \<^verbatim>\<open>pkg/coordinator/server.go\<close>.
\<close>

section \<open>Messages\<close>

record pb_Trigger =
  QueueId :: "32 word"
  BaseTraceId :: u64
  TraceIds :: "u64 list"

record TriggerRequest =
  tr_Src :: string
  tr_Triggers :: "pb_Trigger list"

record BreadcrumbAddress =
  ba_Addr :: string
  ba_Id :: "32 word"

record Breadcrumbs =
  bs_TraceId :: u64
  bs_Addrs :: "32 word list"

record BreadcrumbsRequest =
  br_Src :: string
  br_Addresses :: "BreadcrumbAddress list"
  br_Breadcrumbs :: "Breadcrumbs list"

text \<open>Go's conversions \<^verbatim>\<open>int32(x)\<close> of an \<^verbatim>\<open>int\<close>, which keeps the low 32 bits, and \<^verbatim>\<open>int(x)\<close> of an \<^verbatim>\<open>int32\<close>.\<close>

definition go_int32 :: "int \<Rightarrow> 32 word" where
  "go_int32 x = word_of_int x"

definition go_int :: "32 word \<Rightarrow> int" where
  "go_int w = sint w"

definition int32_range :: "int \<Rightarrow> bool" where
  "int32_range x \<longleftrightarrow> - (2 ^ 31) \<le> x \<and> x < 2 ^ 31"

lemma go_int_int32 [simp]: "int32_range x \<Longrightarrow> go_int (go_int32 x) = x"
  by (simp add: int32_range_def go_int_def go_int32_def sint_sbintrunc' signed_take_bit_int_eq_self)

section \<open>Reporting in batches\<close>

text \<open>
  What a \<^verbatim>\<open>select\<close> on the context and a channel finds: the context is cancelled, a message, or neither
  of them, in which case the \<^verbatim>\<open>default\<close> branch is taken where there is one and the goroutine waits
  where there is none.  A finite list of outcomes describes a run up to some point in time.
\<close>

datatype 'm selection = Stop | Message 'm | Idle

datatype outcome = Stopped | Failed | Waiting

text \<open>The first loop waits for something to report; \<open>items\<close> is what a message contributes.\<close>

fun await :: "('m \<Rightarrow> 'a list) \<Rightarrow> 'm selection list \<Rightarrow> outcome + 'a list \<times> 'm selection list" where
  "await items [] = Inl Waiting"
| "await items (Stop # ps) = Inl Stopped"
| "await items (Idle # ps) = await items ps"
| "await items (Message m # ps) = (if items m = [] then await items ps else Inr (items m, ps))"

text \<open>The second loop adds what is there, without waiting, up to 100.\<close>

fun accumulate_more :: "('m \<Rightarrow> 'a list) \<Rightarrow> 'a list \<Rightarrow> 'm selection list \<Rightarrow> outcome + 'a list \<times> 'm selection list" where
  "accumulate_more items acc [] = Inr (acc, [])"
| "accumulate_more items acc (p # ps) =
     (if length acc < 100
      then (case p of Stop \<Rightarrow> Inl Stopped | Idle \<Rightarrow> Inr (acc, ps) | Message m \<Rightarrow> accumulate_more items (acc @ items m) ps)
      else Inr (acc, p # ps))"

definition gather :: "('m \<Rightarrow> 'a list) \<Rightarrow> 'm selection list \<Rightarrow> outcome + 'a list \<times> 'm selection list" where
  "gather items ps = (case await items ps of Inl r \<Rightarrow> Inl r | Inr (acc, ps') \<Rightarrow> accumulate_more items acc ps')"

lemma await_shorter: "await items ps = Inr (acc, ps') \<Longrightarrow> length ps' < length ps"
  by (induction items ps rule: await.induct) (auto split: if_splits)

lemma accumulate_more_shorter: "accumulate_more items acc ps = Inr (acc', ps') \<Longrightarrow> length ps' \<le> length ps"
  by (induction items acc ps rule: accumulate_more.induct) (auto split: if_splits selection.splits)

lemma gather_shorter: "gather items ps = Inr (acc, ps') \<Longrightarrow> length ps' < length ps"
  unfolding gather_def by (auto split: sum.splits dest!: await_shorter accumulate_more_shorter)

text \<open>The loop around them; \<open>send\<close> reports a batch, tells whether that succeeded, and changes the world.\<close>

function report_loop ::
    "('m \<Rightarrow> 'a list) \<Rightarrow> ('a list \<Rightarrow> 'w \<Rightarrow> bool \<times> 'w) \<Rightarrow> 'm selection list \<Rightarrow> 'w \<Rightarrow> outcome \<times> 'w" where
  "report_loop items send ps w =
     (case gather items ps of
        Inl r \<Rightarrow> (r, w)
      | Inr (acc, ps') \<Rightarrow>
          (case send acc w of (success, w') \<Rightarrow>
             if success then report_loop items send ps' w' else (Failed, w')))"
  by pat_completeness auto

termination
  by (relation "measure (\<lambda>(items, send, ps, w). length ps)") (auto dest: gather_shorter)

declare report_loop.simps [simp del]

text \<open>What the messages of a run contribute.\<close>

fun polled :: "('m \<Rightarrow> 'a list) \<Rightarrow> 'm selection list \<Rightarrow> 'a list" where
  "polled items [] = []"
| "polled items (Message m # ps) = items m @ polled items ps"
| "polled items (_ # ps) = polled items ps"

lemma await_polled:
  "Stop \<notin> set ps \<Longrightarrow> (case await items ps of Inl r \<Rightarrow> r = Waiting \<and> polled items ps = []
     | Inr (acc, ps') \<Rightarrow> acc \<noteq> [] \<and> polled items ps = acc @ polled items ps' \<and> Stop \<notin> set ps')"
  by (induction items ps rule: await.induct) (auto split: sum.splits)

lemma accumulate_more_polled:
  "Stop \<notin> set ps \<Longrightarrow> (case accumulate_more items acc ps of Inl r \<Rightarrow> False
     | Inr (acc', ps') \<Rightarrow> (\<exists>more. acc' = acc @ more) \<and> acc @ polled items ps = acc' @ polled items ps' \<and> Stop \<notin> set ps')"
proof (induction items acc ps rule: accumulate_more.induct)
  case (2 items acc p ps)
  then show ?case by (cases p) (auto split: sum.splits)
qed simp

lemma gather_polled:
  assumes "Stop \<notin> set ps"
  shows "case gather items ps of Inl r \<Rightarrow> r = Waiting \<and> polled items ps = []
     | Inr (acc, ps') \<Rightarrow> acc \<noteq> [] \<and> polled items ps = acc @ polled items ps' \<and> Stop \<notin> set ps'"
proof (cases "await items ps")
  case (Inl r)
  then show ?thesis using await_polled [OF assms, of items] by (simp add: gather_def)
next
  case (Inr q)
  obtain acc ps1 where q: "q = (acc, ps1)" by (cases q)
  note a = await_polled [OF assms, of items, unfolded Inr q sum.case prod.case]
  from accumulate_more_polled [where ps = ps1 and items = items and acc = acc] a show ?thesis
    by (auto simp: gather_def Inr q split: sum.splits)
qed

text \<open>Sending a list of batches one after the other, as long as it succeeds.\<close>

fun send_all :: "('a list \<Rightarrow> 'w \<Rightarrow> bool \<times> 'w) \<Rightarrow> 'a list list \<Rightarrow> 'w \<Rightarrow> bool \<times> 'w" where
  "send_all send [] w = (True, w)"
| "send_all send (b # bs) w = (case send b w of (success, w') \<Rightarrow> if success then send_all send bs w' else (False, w'))"

text \<open>The loop sends non-empty batches that together are what came in, in order, none left out, up to
  the first failure.\<close>

lemma report_loop_batches:
  assumes "Stop \<notin> set ps"
  shows "\<exists>bs. concat bs = polled items ps \<and> [] \<notin> set bs \<and>
    report_loop items send ps w = (case send_all send bs w of (success, w') \<Rightarrow> (if success then Waiting else Failed, w'))"
  using assms
proof (induction items send ps w rule: report_loop.induct)
  case (1 items send ps w)
  show ?case
  proof (cases "gather items ps")
    case (Inl r)
    then show ?thesis using gather_polled [OF 1(2), of items]
      by (intro exI [of _ "[]"]) (simp add: report_loop.simps [of _ _ ps])
  next
    case (Inr q)
    obtain acc ps' where q: "q = (acc, ps')" by (cases q)
    obtain success w' where s: "send acc w = (success, w')" by (cases "send acc w")
    note g = gather_polled [OF 1(2), of items, unfolded Inr q sum.case prod.case]
    show ?thesis
    proof (cases success)
      case True
      from 1(1) [OF Inr q [symmetric] s [symmetric] True] g obtain bs where bs: "concat bs = polled items ps'" "[] \<notin> set bs"
        "report_loop items send ps' w' = (case send_all send bs w' of (success, w') \<Rightarrow> (if success then Waiting else Failed, w'))"
        by (auto simp: s True)
      with True s g show ?thesis
        by (intro exI [of _ "acc # bs"]) (auto simp: report_loop.simps [of _ _ ps] Inr q)
    next
      case False
      then show ?thesis using s g
        by (intro exI [of _ "acc # (if polled items ps' = [] then [] else [polled items ps'])"])
          (auto simp: report_loop.simps [of _ _ ps] Inr q)
    qed
  qed
qed

end
