(* ===== verification/Agent_Coord.thy ===== *)
theory Agent_Coord
  imports Messages Shm_Api Go_Chan
begin

text \<open>
  The agent's side of the coordination (\<^verbatim>\<open>pkg/agent/coordinator.go\<close>): local triggers and
  breadcrumbs are reported to the coordinator in batches, remote triggers are received from it.
  The RPC client, a gRPC stub, is a parameter: a function on the state of the world that tells
  whether the call succeeded.  Breadcrumbs name addresses by numbers, which the agent hands out
  and announces in the request that uses them first.
\<close>

record AgentCoordinator =
  ac_enabled :: bool
  ac_local_addr :: string
  ac_local_port :: string
  ac_remote_addr :: string
  ac_localtriggers :: "Trigger list chan"
  ac_breadcrumbs :: "(u64, string list) gomap chan"
  ac_remotetriggers :: "Trigger list chan"

definition InitCoordinator :: "bool \<Rightarrow> string \<Rightarrow> string \<Rightarrow> string \<Rightarrow> AgentCoordinator" where
  "InitCoordinator enabled local_hostname local_port remote_addr =
     \<lparr>ac_enabled = enabled, ac_local_addr = local_hostname @ '':'' @ local_port, ac_local_port = local_port,
      ac_remote_addr = remote_addr, ac_localtriggers = chan_make 500, ac_breadcrumbs = chan_make 500,
      ac_remotetriggers = chan_make 500\<rparr>"

section \<open>Local triggers\<close>

definition trigger_request :: "AgentCoordinator \<Rightarrow> Trigger list \<Rightarrow> TriggerRequest" where
  "trigger_request r triggers =
     \<lparr>tr_Src = ac_local_addr r,
      tr_Triggers = map (\<lambda>t. \<lparr>QueueId = go_int32 (Queue_id t), BaseTraceId = Base_trace_id t, TraceIds = [Trace_id t]\<rparr>) triggers\<rparr>"

definition sendTriggers ::
    "AgentCoordinator \<Rightarrow> (TriggerRequest \<Rightarrow> 'w \<Rightarrow> bool \<times> 'w) \<Rightarrow> Trigger list \<Rightarrow> 'w \<Rightarrow> bool \<times> 'w" where
  "sendTriggers r rpc triggers w =
     (let request = trigger_request r triggers
      in if ac_enabled r then rpc request w else (True, w))"

definition agent_ReportTriggers ::
    "AgentCoordinator \<Rightarrow> (TriggerRequest \<Rightarrow> 'w \<Rightarrow> bool \<times> 'w) \<Rightarrow> Trigger list selection list \<Rightarrow> 'w \<Rightarrow> outcome \<times> 'w" where
  "agent_ReportTriggers r rpc = report_loop (\<lambda>triggers. triggers) (sendTriggers r rpc)"

section \<open>Remote triggers\<close>

definition remote_triggers :: "TriggerRequest \<Rightarrow> Trigger list" where
  "remote_triggers req =
     concat (map (\<lambda>t. map (\<lambda>traceid. \<lparr>Queue_id = go_int (QueueId t), Base_trace_id = BaseTraceId t, Trace_id = traceid\<rparr>)
       (TraceIds t)) (tr_Triggers req))"

definition RemoteTrigger :: "TriggerRequest \<Rightarrow> AgentCoordinator \<Rightarrow> AgentCoordinator" where
  "RemoteTrigger req r =
     (let triggers = remote_triggers req
      in if length triggers > 0
         then (if chan_full (ac_remotetriggers r) then r
               else r\<lparr>ac_remotetriggers := chan_send triggers (ac_remotetriggers r)\<rparr>)
         else r)"

section \<open>Breadcrumbs\<close>

text \<open>The numbers given out so far, and the next one; \<^verbatim>\<open>seed\<close> is an \<^verbatim>\<open>int32\<close>.\<close>

record encoder =
  en_ids :: "(string, 32 word) gomap"
  en_seed :: "32 word"

definition encode_addr ::
    "string \<Rightarrow> encoder \<times> BreadcrumbAddress list \<times> 32 word list \<Rightarrow> encoder \<times> BreadcrumbAddress list \<times> 32 word list" where
  "encode_addr addr = (\<lambda>(e, announced, ids).
     case mget (en_ids e) addr of
       Some addr_id \<Rightarrow> (e, announced, ids @ [addr_id])
     | None \<Rightarrow>
         (\<lparr>en_ids = mput addr (en_seed e) (en_ids e), en_seed = en_seed e + 1\<rparr>,
          announced @ [\<lparr>ba_Addr = addr, ba_Id = en_seed e\<rparr>], ids @ [en_seed e]))"

definition encode_trace :: "u64 \<times> string list \<Rightarrow> encoder \<times> BreadcrumbsRequest \<Rightarrow> encoder \<times> BreadcrumbsRequest" where
  "encode_trace = (\<lambda>(trace_id, addrs) (e, request).
     case fold encode_addr addrs (e, br_Addresses request, []) of (e', announced, ids) \<Rightarrow>
       (e', request\<lparr>br_Addresses := announced,
                   br_Breadcrumbs := br_Breadcrumbs request @ [\<lparr>bs_TraceId = trace_id, bs_Addrs = ids\<rparr>]\<rparr>))"

definition encode_breadcrumbs :: "string \<Rightarrow> (u64, string list) gomap list \<Rightarrow> encoder \<Rightarrow> encoder \<times> BreadcrumbsRequest" where
  "encode_breadcrumbs src accumulated e =
     fold (\<lambda>breadcrumbs. fold encode_trace breadcrumbs) accumulated
       (e, \<lparr>br_Src = src, br_Addresses = [], br_Breadcrumbs = []\<rparr>)"

definition send_breadcrumbs ::
    "AgentCoordinator \<Rightarrow> (BreadcrumbsRequest \<Rightarrow> 'w \<Rightarrow> bool \<times> 'w) \<Rightarrow> (u64, string list) gomap list \<Rightarrow> encoder \<times> 'w
       \<Rightarrow> bool \<times> encoder \<times> 'w" where
  "send_breadcrumbs r rpc accumulated = (\<lambda>(e, w).
     case encode_breadcrumbs (ac_local_addr r) accumulated e of (e', request) \<Rightarrow>
       if ac_enabled r then (case rpc request w of (success, w') \<Rightarrow> (success, e', w')) else (True, e', w))"

definition ReportBreadcrumbs ::
    "AgentCoordinator \<Rightarrow> (BreadcrumbsRequest \<Rightarrow> 'w \<Rightarrow> bool \<times> 'w) \<Rightarrow> (u64, string list) gomap selection list \<Rightarrow> 'w
       \<Rightarrow> outcome \<times> encoder \<times> 'w" where
  "ReportBreadcrumbs r rpc ps w =
     report_loop (\<lambda>breadcrumbs. if length breadcrumbs > 0 then [breadcrumbs] else []) (send_breadcrumbs r rpc) ps
       (\<lparr>en_ids = [], en_seed = 0\<rparr>, w)"

end
