(* ===== verification/Coord_State.thy ===== *)
theory Coord_State
  imports Go_List Hs_Prelude
begin

text \<open>
  The coordinator's view of traces and triggers (\<^verbatim>\<open>pkg/coordinator/coordinator.go\<close>): data and
  operations.  Traces and triggers refer to each other by pointers; a pointer is an address into
  one of two heaps.  A \<^verbatim>\<open>map[string]struct{}\<close> is a map to \<open>unit\<close>.
\<close>

record CoordTriggerID =
  ct_queue_id :: int
  ct_base_trace_id :: u64

record CoordTrigger =
  cg_id :: CoordTriggerID
  cg_trace_ids :: "u64 list"

record FinishedTrigger =
  fin_queue_id :: int
  fin_total_agents :: int
  fin_dissemination_time :: duration

type_synonym addrs = "(string, unit) gomap"

record coord_tracestate =
  ctr_id :: u64
  ctr_known_at :: addrs
  ctr_triggers :: "(CoordTriggerID, nat) gomap"
  ctr_created :: time
  ctr_last_modified :: time
  ctr_last_breadcrumb :: time
  ctr_lru_entry :: nat

record coord_triggerstate =
  ctg_id :: CoordTriggerID
  ctg_known_at :: addrs
  ctg_traces :: "(u64, nat) gomap"
  ctg_created :: time
  ctg_last_modified :: time
  ctg_last_breadcrumb :: time
  ctg_lru_entry :: nat

record Coordinator =
  co_now :: time
  co_traces :: "(u64, nat) gomap"
  co_triggers :: "(CoordTriggerID, nat) gomap"
  co_trigger_lru :: "nat golist"
  co_trace_lru :: "nat golist"
  hp_traces :: "nat \<Rightarrow> coord_tracestate"
  hp_triggers :: "nat \<Rightarrow> coord_triggerstate"
  hp_next_trace :: nat
  hp_next_trigger :: nat

definition upd_ctrace :: "nat \<Rightarrow> (coord_tracestate \<Rightarrow> coord_tracestate) \<Rightarrow> Coordinator \<Rightarrow> Coordinator" where
  "upd_ctrace a g c = c\<lparr>hp_traces := (hp_traces c)(a := g (hp_traces c a))\<rparr>"

definition upd_ctrigger :: "nat \<Rightarrow> (coord_triggerstate \<Rightarrow> coord_triggerstate) \<Rightarrow> Coordinator \<Rightarrow> Coordinator" where
  "upd_ctrigger f g c = c\<lparr>hp_triggers := (hp_triggers c)(f := g (hp_triggers c f))\<rparr>"

lemmas cupd_defs = upd_ctrace_def upd_ctrigger_def

text \<open>\<^verbatim>\<open>Init\<close>; the zero time is 0 and the initial contents of the heaps are never read.\<close>

definition Coordinator_Init :: "time \<Rightarrow> Coordinator" where
  "Coordinator_Init now =
     \<lparr>co_now = now, co_traces = [], co_triggers = [], co_trigger_lru = list_New, co_trace_lru = list_New,
      hp_traces = (\<lambda>_. \<lparr>ctr_id = 0, ctr_known_at = [], ctr_triggers = [], ctr_created = 0, ctr_last_modified = 0,
        ctr_last_breadcrumb = 0, ctr_lru_entry = 0\<rparr>),
      hp_triggers = (\<lambda>_. \<lparr>ctg_id = \<lparr>ct_queue_id = 0, ct_base_trace_id = 0\<rparr>, ctg_known_at = [], ctg_traces = [],
        ctg_created = 0, ctg_last_modified = 0, ctg_last_breadcrumb = 0, ctg_lru_entry = 0\<rparr>),
      hp_next_trace = 0, hp_next_trigger = 0\<rparr>"

definition triggerstate_Trigger :: "coord_triggerstate \<Rightarrow> CoordTrigger" where
  "triggerstate_Trigger ts = \<lparr>cg_id = ctg_id ts, cg_trace_ids = map fst (ctg_traces ts)\<rparr>"

definition getTrigger :: "CoordTriggerID \<Rightarrow> Coordinator \<Rightarrow> nat \<times> Coordinator" where
  "getTrigger i c =
     (case mget (co_triggers c) i of
        Some f \<Rightarrow> (f, c)
      | None \<Rightarrow>
          (let f = hp_next_trigger c;
               (entry, lru) = list_PushFront f (co_trigger_lru c);
               trigger = \<lparr>ctg_id = i, ctg_known_at = [], ctg_traces = [], ctg_created = co_now c,
                 ctg_last_modified = co_now c, ctg_last_breadcrumb = 0, ctg_lru_entry = entry\<rparr>
           in (f, c\<lparr>hp_next_trigger := Suc f, hp_triggers := (hp_triggers c)(f := trigger),
                   co_trigger_lru := lru, co_triggers := mput i f (co_triggers c)\<rparr>)))"

definition getTrace :: "u64 \<Rightarrow> Coordinator \<Rightarrow> nat \<times> Coordinator" where
  "getTrace i c =
     (case mget (co_traces c) i of
        Some a \<Rightarrow> (a, c)
      | None \<Rightarrow>
          (let a = hp_next_trace c;
               (entry, lru) = list_PushFront a (co_trace_lru c);
               trace = \<lparr>ctr_id = i, ctr_known_at = [], ctr_triggers = [], ctr_created = co_now c,
                 ctr_last_modified = co_now c, ctr_last_breadcrumb = 0, ctr_lru_entry = entry\<rparr>
           in (a, c\<lparr>hp_next_trace := Suc a, hp_traces := (hp_traces c)(a := trace),
                   co_trace_lru := lru, co_traces := mput i a (co_traces c)\<rparr>)))"

section \<open>Expiration\<close>

definition expire_trigger :: "nat \<Rightarrow> Coordinator \<Rightarrow> FinishedTrigger \<times> Coordinator" where
  "expire_trigger f c =
     (let trigger = hp_triggers c f;
          c1 = fold (\<lambda>(_, a). upd_ctrace a (\<lambda>t. t\<lparr>ctr_triggers := mdel (ctg_id trigger) (ctr_triggers t)\<rparr>))
                 (ctg_traces trigger) c;
          c2 = c1\<lparr>co_triggers := mdel (ctg_id trigger) (co_triggers c1),
                  co_trigger_lru := list_Remove (ctg_lru_entry trigger) (co_trigger_lru c1)\<rparr>
      in (\<lparr>fin_queue_id = ct_queue_id (ctg_id trigger), fin_total_agents = int (length (ctg_known_at trigger)),
           fin_dissemination_time = ctg_last_modified trigger - ctg_created trigger\<rparr>, c2))"

partial_function (option) trigger_expiration_loop ::
    "time \<Rightarrow> FinishedTrigger list \<Rightarrow> Coordinator \<Rightarrow> (FinishedTrigger list \<times> Coordinator) option" where
  "trigger_expiration_loop cutoff finished c =
     (case list_Back (co_trigger_lru c) of
        None \<Rightarrow> Some (finished, c)
      | Some (_, f) \<Rightarrow>
          if cutoff < ctg_last_modified (hp_triggers c f) then Some (finished, c)
          else
            (let r = expire_trigger f c
             in trigger_expiration_loop cutoff (finished @ [fst r]) (snd r)))"

declare trigger_expiration_loop.simps [code]

definition checkTriggerExpiration :: "time \<Rightarrow> Coordinator \<Rightarrow> (FinishedTrigger list \<times> Coordinator) option" where
  "checkTriggerExpiration cutoff c = trigger_expiration_loop cutoff [] c"

definition expire_trace :: "nat \<Rightarrow> Coordinator \<Rightarrow> Coordinator" where
  "expire_trace a c =
     (let trace = hp_traces c a;
          c1 = fold (\<lambda>(_, f). upd_ctrigger f (\<lambda>g. g\<lparr>ctg_traces := mdel (ctr_id trace) (ctg_traces g)\<rparr>))
                 (ctr_triggers trace) c
      in c1\<lparr>co_traces := mdel (ctr_id trace) (co_traces c1),
            co_trace_lru := list_Remove (ctr_lru_entry trace) (co_trace_lru c1)\<rparr>)"

partial_function (option) checkTraceExpiration :: "time \<Rightarrow> Coordinator \<Rightarrow> Coordinator option" where
  "checkTraceExpiration cutoff c =
     (case list_Back (co_trace_lru c) of
        None \<Rightarrow> Some c
      | Some (_, a) \<Rightarrow>
          if cutoff < ctr_last_modified (hp_traces c a) then Some c
          else checkTraceExpiration cutoff (expire_trace a c))"

declare checkTraceExpiration.simps [code]

section \<open>Triggers and breadcrumbs\<close>

definition touch_trigger :: "nat \<Rightarrow> Coordinator \<Rightarrow> Coordinator" where
  "touch_trigger f c =
     upd_ctrigger f (\<lambda>g. g\<lparr>ctg_last_modified := co_now c\<rparr>)
       (c\<lparr>co_trigger_lru := list_MoveToFront (ctg_lru_entry (hp_triggers c f)) (co_trigger_lru c)\<rparr>)"

definition touch_trace :: "nat \<Rightarrow> Coordinator \<Rightarrow> Coordinator" where
  "touch_trace a c =
     upd_ctrace a (\<lambda>t. t\<lparr>ctr_last_modified := co_now c\<rparr>)
       (c\<lparr>co_trace_lru := list_MoveToFront (ctr_lru_entry (hp_traces c a)) (co_trace_lru c)\<rparr>)"

definition know_all :: "addrs \<Rightarrow> addrs \<Rightarrow> addrs" where
  "know_all new known = fold (\<lambda>(addr, _). mput addr ()) new known"

text \<open>The body of the loop of \<^verbatim>\<open>AddTrigger\<close> over the trace ids.\<close>

definition link_trace :: "string \<Rightarrow> nat \<Rightarrow> u64 \<Rightarrow> bool \<times> Coordinator \<Rightarrow> bool \<times> Coordinator" where
  "link_trace src f trace_id = (\<lambda>(needs_rebroadcasting, c).
     if mget (ctg_traces (hp_triggers c f)) trace_id \<noteq> None then (needs_rebroadcasting, c)
     else
       (let (a, c1) = getTrace trace_id c;
            c2 = upd_ctrigger f (\<lambda>g. g\<lparr>ctg_traces := mput trace_id a (ctg_traces g)\<rparr>) c1;
            c3 = upd_ctrace a (\<lambda>t. t\<lparr>ctr_triggers := mput (ctg_id (hp_triggers c2 f)) f (ctr_triggers t)\<rparr>) c2;
            c4 = upd_ctrigger f (\<lambda>g. g\<lparr>ctg_known_at := know_all (ctr_known_at (hp_traces c3 a)) (ctg_known_at g)\<rparr>) c3;
            c5 = upd_ctrace a (\<lambda>t. t\<lparr>ctr_known_at := mput src () (ctr_known_at t)\<rparr>) c4
        in (True, touch_trace a c5)))"

definition AddTrigger :: "string \<Rightarrow> CoordTrigger \<Rightarrow> Coordinator \<Rightarrow> string list \<times> Coordinator" where
  "AddTrigger src t c =
     (let (f, c1) = getTrigger (cg_id t) c;
          c2 = touch_trigger f (upd_ctrigger f (\<lambda>g. g\<lparr>ctg_known_at := mput src () (ctg_known_at g)\<rparr>) c1);
          (needs_rebroadcasting, c3) = fold (link_trace src f) (cg_trace_ids t) (False, c2);
          send_to = (if needs_rebroadcasting
                     then filter (\<lambda>addr. addr \<noteq> src) (map fst (ctg_known_at (hp_triggers c3 f))) else [])
      in (send_to, c3))"

text \<open>The loops of \<^verbatim>\<open>AddBreadcrumb\<close>: over the triggers of the trace for one address, and over the
  addresses.\<close>

definition disseminate_trigger :: "string \<Rightarrow> nat \<Rightarrow> CoordTrigger list \<times> Coordinator \<Rightarrow> CoordTrigger list \<times> Coordinator" where
  "disseminate_trigger addr f = (\<lambda>(out, c).
     if mget (ctg_known_at (hp_triggers c f)) addr \<noteq> None then (out, c)
     else
       (out @ [triggerstate_Trigger (hp_triggers c f)],
        upd_ctrigger f (\<lambda>g. g\<lparr>ctg_known_at := mput addr () (ctg_known_at g), ctg_last_breadcrumb := co_now c\<rparr>) c))"

type_synonym dissemination = "(string, CoordTrigger list) gomap"

definition disseminate_addr :: "nat \<Rightarrow> string \<Rightarrow> dissemination \<times> Coordinator \<Rightarrow> dissemination \<times> Coordinator" where
  "disseminate_addr a addr = (\<lambda>(to_disseminate, c).
     if mget (ctr_known_at (hp_traces c a)) addr \<noteq> None then (to_disseminate, c)
     else
       (let (triggers, c1) = fold (\<lambda>(_, f). disseminate_trigger addr f) (ctr_triggers (hp_traces c a)) ([], c)
        in (if length triggers > 0 then mput addr triggers to_disseminate else to_disseminate,
            upd_ctrace a (\<lambda>t. t\<lparr>ctr_known_at := mput addr () (ctr_known_at t), ctr_last_breadcrumb := co_now c1\<rparr>) c1)))"

definition AddBreadcrumb :: "string \<Rightarrow> u64 \<Rightarrow> string list \<Rightarrow> Coordinator \<Rightarrow> dissemination \<times> Coordinator" where
  "AddBreadcrumb src trace_id addrs c =
     (let (a, c1) = getTrace trace_id c;
          (to_disseminate, c2) = fold (disseminate_addr a) (addrs @ [src]) ([], c1);
          c3 = fold (\<lambda>(_, f). touch_trigger f) (ctr_triggers (hp_traces c2 a)) c2
      in (to_disseminate, touch_trace a c3))"

end
