(* ===== verification/Coord_Correct.thy ===== *)
theory Coord_Correct
  imports Coord_State
begin

text \<open>
  The coordinator keeps its invariant, and its operations implement an abstract description in
  which a trigger is a set of trace ids and a set of agents, and a trace a set of agents.
\<close>

section \<open>Registries with a least-recently-used list\<close>

text \<open>Both traces and triggers are registered by id and listed by the time of their last change.\<close>

definition registry_ok ::
    "('k, nat) gomap \<Rightarrow> nat golist \<Rightarrow> (nat \<Rightarrow> 'k) \<Rightarrow> (nat \<Rightarrow> nat) \<Rightarrow> (nat \<Rightarrow> time) \<Rightarrow> nat \<Rightarrow> time \<Rightarrow> bool" where
  "registry_ok m l key entry stamp nxt now \<longleftrightarrow> mok m \<and> list_wf l \<and>
     (\<forall>k a. mget m k = Some a \<longrightarrow> key a = k \<and> a < nxt \<and> stamp a \<le> now) \<and>
     (\<forall>e a. (e, a) \<in> set (elems l) \<longleftrightarrow> mget m (key a) = Some a \<and> entry a = e) \<and>
     lru_sorted (\<lambda>(e, a). stamp a) (elems l)"

lemma registryD:
  assumes "registry_ok m l key entry stamp nxt now"
  shows "mok m" "list_wf l" "mget m k = Some a \<Longrightarrow> key a = k" "mget m k = Some a \<Longrightarrow> a < nxt"
    "mget m k = Some a \<Longrightarrow> stamp a \<le> now"
    "(e, a) \<in> set (elems l) \<longleftrightarrow> mget m (key a) = Some a \<and> entry a = e" "lru_sorted (\<lambda>(e, a). stamp a) (elems l)"
  using assms by (auto simp: registry_ok_def)

lemma registry_inj:
  "registry_ok m l key entry stamp nxt now \<Longrightarrow> mget m k = Some a \<Longrightarrow> mget m k' = Some a \<Longrightarrow> k' = k"
  using registryD(3) by metis

lemma registry_cong:
  assumes r: "registry_ok m l key entry stamp nxt now" and "now \<le> now'"
    and same: "\<And>k a. mget m k = Some a \<Longrightarrow> key' a = key a \<and> entry' a = entry a \<and> stamp' a = stamp a"
    and new: "\<And>a. mget m (key' a) = Some a \<Longrightarrow> key' a = key a"
  shows "registry_ok m l key' entry' stamp' nxt now'"
proof -
  note d = registryD [OF r]
  have "(e, a) \<in> set (elems l) \<longleftrightarrow> mget m (key' a) = Some a \<and> entry' a = e" for e a
    using d(6) [of e a] same [of "key a" a] same [of "key' a" a] new [of a] by metis
  moreover have "lru_sorted (\<lambda>(e, a). stamp' a) (elems l)"
    by (rule lru_sorted_cong [OF d(7)]) (use d(6) same in auto)
  moreover have "key' a = k \<and> a < nxt \<and> stamp' a \<le> now'" if "mget m k = Some a" for k a
    using d(3-5) [OF that] same [OF that] assms(2) by auto
  ultimately show ?thesis unfolding registry_ok_def using d(1,2) by blast
qed

lemma registry_new:
  assumes r: "registry_ok m l key entry stamp nxt now" and "mget m k = None"
    and a: "key' nxt = k" "entry' nxt = fst (list_PushFront nxt l)" "stamp' nxt = now"
    and same: "\<And>b. b \<noteq> nxt \<Longrightarrow> key' b = key b \<and> entry' b = entry b \<and> stamp' b = stamp b"
  shows "registry_ok (mput k nxt m) (snd (list_PushFront nxt l)) key' entry' stamp' (Suc nxt) now"
proof -
  note d = registryD [OF r]
  let ?l = "snd (list_PushFront nxt l)"
  have old: "b \<noteq> nxt" if "mget m k' = Some b" for k' b using d(4) [OF that] by simp
  have mem: "b \<noteq> nxt" if "(e, b) \<in> set (elems l)" for e b using d(6) that old by blast
  have "(e, b) \<in> set (elems ?l) \<longleftrightarrow> mget (mput k nxt m) (key' b) = Some b \<and> entry' b = e" for e b
  proof (cases "b = nxt")
    case True
    then show ?thesis using a mem by (auto simp: lst.push_front_set [OF d(2)] mget_mput)
  next
    case False
    moreover have "key b = k \<Longrightarrow> mget m (key b) \<noteq> Some b" using assms(2) by auto
    ultimately show ?thesis using d(6) [of e b] same [of b] by (auto simp: lst.push_front_set [OF d(2)] mget_mput)
  qed
  moreover have "lru_sorted (\<lambda>(e, a). stamp' a) (elems ?l)"
    by (rule lst.lru_push [OF d(2,7)]) (use mem same d(5,6) a(3) in fastforce)
  moreover have "key' b = k' \<and> b < Suc nxt \<and> stamp' b \<le> now" if "mget (mput k nxt m) k' = Some b" for k' b
  proof (cases "b = nxt")
    case True
    with that old show ?thesis using a by (auto simp: mget_mput split: if_splits)
  next
    case False
    with that have "mget m k' = Some b" by (auto simp: mget_mput split: if_splits)
    then show ?thesis using d(3-5) same [OF False] by (simp add: less_SucI)
  qed
  ultimately show ?thesis unfolding registry_ok_def using d(1) lst.push_front_wf [OF d(2)] by auto
qed

lemma registry_touch:
  assumes r: "registry_ok m l key entry stamp nxt now" and a: "mget m k = Some a"
    and same: "\<And>b. b \<noteq> a \<Longrightarrow> key' b = key b \<and> entry' b = entry b \<and> stamp' b = stamp b"
    and at: "key' a = key a" "entry' a = entry a" "stamp' a = now"
  shows "registry_ok m (list_MoveToFront (entry a) l) key' entry' stamp' nxt now"
proof -
  note d = registryD [OF r]
  have k: "key a = k" using d(3) a by simp
  have mem: "(entry a, a) \<in> set (elems l)" using d(6) a k by simp
  have ke: "key' b = key b \<and> entry' b = entry b" for b using same [of b] at by (cases "b = a") auto
  have "(e, b) \<in> set (elems (list_MoveToFront (entry a) l)) \<longleftrightarrow> mget m (key' b) = Some b \<and> entry' b = e" for e b
    using d(6) [of e b] ke [of b] by (simp add: lst.move_set [OF d(2) mem])
  moreover have "lru_sorted (\<lambda>(e, a). stamp' a) (elems (list_MoveToFront (entry a) l))"
  proof (rule lst.lru_move [OF d(2,7) mem])
    fix q assume q: "q \<in> set (elems l)" "fst q \<noteq> entry a"
    obtain e b where qb: "q = (e, b)" by (cases q)
    with q d(6) have "b \<noteq> a" "mget m (key b) = Some b" by auto
    then show "(case q of (e, a) \<Rightarrow> stamp' a) = (case q of (e, a) \<Rightarrow> stamp a) \<and>
        (case q of (e, a) \<Rightarrow> stamp a) \<le> (case (entry a, a) of (e, a) \<Rightarrow> stamp' a)"
      using same [of b] d(5) at(3) by (simp add: qb)
  qed
  moreover have "key' b = k' \<and> b < nxt \<and> stamp' b \<le> now" if "mget m k' = Some b" for k' b
    using d(3-5) [OF that] same [of b] at ke [of b] by (cases "b = a") auto
  ultimately show ?thesis unfolding registry_ok_def using d(1) lst.move_wf [OF d(2)] by blast
qed

lemma registry_drop:
  assumes r: "registry_ok m l key entry stamp nxt now" and a: "mget m k = Some a"
  shows "registry_ok (mdel k m) (list_Remove (entry a) l) key entry stamp nxt now"
proof -
  note d = registryD [OF r]
  have k: "key a = k" using d(3) a by simp
  have mem: "(entry a, a) \<in> set (elems l)" using d(6) a k by simp
  have "(e, b) \<in> set (elems (list_Remove (entry a) l)) \<longleftrightarrow> mget (mdel k m) (key b) = Some b \<and> entry b = e" for e b
  proof -
    have "e = entry a \<Longrightarrow> (e, b) \<in> set (elems l) \<Longrightarrow> b = a" using lst.handle_value_unique [OF d(2) mem] by blast
    moreover have "key b = k \<Longrightarrow> mget m (key b) = Some b \<Longrightarrow> b = a" using a by simp
    ultimately show ?thesis using d(6) [of e b] k by (auto simp: lst.remove_set [OF d(2)] mget_mdel)
  qed
  moreover have "key b = k' \<and> b < nxt \<and> stamp b \<le> now" if "mget (mdel k m) k' = Some b" for k' b
    using that d(3-5) [of k' b] by (auto simp: mget_mdel split: if_splits)
  ultimately show ?thesis unfolding registry_ok_def
    using d(1,2,7) lst.remove_wf [OF d(2)] lst.lru_remove [OF d(2,7)] by auto
qed

section \<open>The invariant\<close>

abbreviation trace_reg :: "Coordinator \<Rightarrow> bool" where
  "trace_reg c \<equiv> registry_ok (co_traces c) (co_trace_lru c) (\<lambda>a. ctr_id (hp_traces c a))
     (\<lambda>a. ctr_lru_entry (hp_traces c a)) (\<lambda>a. ctr_last_modified (hp_traces c a)) (hp_next_trace c) (co_now c)"

abbreviation trigger_reg :: "Coordinator \<Rightarrow> bool" where
  "trigger_reg c \<equiv> registry_ok (co_triggers c) (co_trigger_lru c) (\<lambda>f. ctg_id (hp_triggers c f))
     (\<lambda>f. ctg_lru_entry (hp_triggers c f)) (\<lambda>f. ctg_last_modified (hp_triggers c f)) (hp_next_trigger c) (co_now c)"

text \<open>Traces and triggers refer to each other symmetrically, and only to registered ones.\<close>

definition trace_links :: "Coordinator \<Rightarrow> bool" where
  "trace_links c \<longleftrightarrow> (\<forall>i a. mget (co_traces c) i = Some a \<longrightarrow>
     mok (ctr_triggers (hp_traces c a)) \<and> mok (ctr_known_at (hp_traces c a)) \<and>
     (\<forall>tid f. mget (ctr_triggers (hp_traces c a)) tid = Some f \<longleftrightarrow>
        mget (co_triggers c) tid = Some f \<and> mget (ctg_traces (hp_triggers c f)) i = Some a))"

definition trigger_links :: "Coordinator \<Rightarrow> bool" where
  "trigger_links c \<longleftrightarrow> (\<forall>tid f. mget (co_triggers c) tid = Some f \<longrightarrow>
     mok (ctg_traces (hp_triggers c f)) \<and> mok (ctg_known_at (hp_triggers c f)) \<and>
     (\<forall>i a. mget (ctg_traces (hp_triggers c f)) i = Some a \<longrightarrow> mget (co_traces c) i = Some a))"

definition co_inv :: "Coordinator \<Rightarrow> bool" where
  "co_inv c \<longleftrightarrow> trace_reg c \<and> trigger_reg c \<and> trace_links c \<and> trigger_links c"

lemma co_invD:
  assumes "co_inv c"
  shows "trace_reg c" "trigger_reg c" "trace_links c" "trigger_links c"
  using assms by (simp_all add: co_inv_def)

lemma trace_linksD:
  assumes "trace_links c" "mget (co_traces c) i = Some a"
  shows "mok (ctr_triggers (hp_traces c a))" "mok (ctr_known_at (hp_traces c a))"
    "mget (ctr_triggers (hp_traces c a)) tid = Some f \<longleftrightarrow>
      mget (co_triggers c) tid = Some f \<and> mget (ctg_traces (hp_triggers c f)) i = Some a"
  using assms by (simp_all add: trace_links_def)

lemma trigger_linksD:
  assumes "trigger_links c" "mget (co_triggers c) tid = Some f"
  shows "mok (ctg_traces (hp_triggers c f))" "mok (ctg_known_at (hp_triggers c f))"
    "mget (ctg_traces (hp_triggers c f)) i = Some a \<Longrightarrow> mget (co_traces c) i = Some a"
  using assms by (simp_all add: trigger_links_def)

lemma co_inv_Init: "co_inv (Coordinator_Init now)"
  by (simp add: co_inv_def Coordinator_Init_def registry_ok_def trace_links_def trigger_links_def)

text \<open>The clock of the coordinator moves forward.\<close>

lemma co_inv_now: "co_inv c \<Longrightarrow> co_now c \<le> now \<Longrightarrow> co_inv (c\<lparr>co_now := now\<rparr>)"
  by (auto simp: co_inv_def trace_links_def trigger_links_def elim: registry_cong)

section \<open>The abstract view\<close>

definition trace_known :: "Coordinator \<Rightarrow> u64 \<Rightarrow> string set" where
  "trace_known c i = (case mget (co_traces c) i of None \<Rightarrow> {} | Some a \<Rightarrow> fst ` set (ctr_known_at (hp_traces c a)))"

definition trigger_known :: "Coordinator \<Rightarrow> CoordTriggerID \<Rightarrow> string set" where
  "trigger_known c t = (case mget (co_triggers c) t of None \<Rightarrow> {} | Some f \<Rightarrow> fst ` set (ctg_known_at (hp_triggers c f)))"

definition trigger_traces :: "Coordinator \<Rightarrow> CoordTriggerID \<Rightarrow> u64 set" where
  "trigger_traces c t = (case mget (co_triggers c) t of None \<Rightarrow> {} | Some f \<Rightarrow> fst ` set (ctg_traces (hp_triggers c f)))"

lemmas view_defs = trace_known_def trigger_known_def trigger_traces_def

lemma trigger_view:
  assumes "mget (co_triggers c) t = Some f"
  shows "trigger_known c t = fst ` set (ctg_known_at (hp_triggers c f))"
    "trigger_traces c t = fst ` set (ctg_traces (hp_triggers c f))"
  using assms by (simp_all add: view_defs)

lemma trace_view: "mget (co_traces c) i = Some a \<Longrightarrow> trace_known c i = fst ` set (ctr_known_at (hp_traces c a))"
  by (simp add: view_defs)

lemma mget_dom: "mget m k \<noteq> None \<longleftrightarrow> k \<in> fst ` set m"
  by (induction m) auto

lemma dom_mdel: "fst ` set (mdel k m) = fst ` set m - {k}"
  by (metis delete_keys set_map set_removeAll)

lemma know_all_dom: "fst ` set (know_all new known) = fst ` set new \<union> fst ` set known"
proof (induction new arbitrary: known)
  case Nil
  then show ?case by (simp add: know_all_def)
next
  case (Cons p new)
  have "know_all (p # new) known = know_all new (mput (fst p) () known)"
    by (simp add: know_all_def split_beta)
  then show ?case using Cons.IH [of "mput (fst p) () known"] by (simp only: dom_mput) auto
qed

lemma know_all_mok: "mok known \<Longrightarrow> mok (know_all new known)"
  unfolding know_all_def by (induction new arbitrary: known) auto

lemma get_triggers_mem: "mok m \<Longrightarrow> (k, v) \<in> set m \<Longrightarrow> mget m k = Some v"
  by (simp add: mget_set)

section \<open>Looking up and creating\<close>

lemma getTrigger_known: "mget (co_triggers c) i = Some f \<Longrightarrow> getTrigger i c = (f, c)"
  by (simp add: getTrigger_def)

lemma getTrace_known: "mget (co_traces c) i = Some a \<Longrightarrow> getTrace i c = (a, c)"
  by (simp add: getTrace_def)

text \<open>A look-up registers the trigger or the trace and leaves the abstract view as it is.\<close>

definition coord_same :: "Coordinator \<Rightarrow> Coordinator \<Rightarrow> bool" where
  "coord_same c c' \<longleftrightarrow> trigger_known c' = trigger_known c \<and> trigger_traces c' = trigger_traces c \<and>
     trace_known c' = trace_known c \<and> co_now c' = co_now c"

lemma getTrigger_ok:
  assumes inv: "co_inv c" and get: "getTrigger i c = (f, c')"
  shows "co_inv c'" "mget (co_triggers c') i = Some f" "coord_same c c'" "co_traces c' = co_traces c"
proof -
  have all: "co_inv c' \<and> mget (co_triggers c') i = Some f \<and> coord_same c c' \<and> co_traces c' = co_traces c"
  proof (cases "mget (co_triggers c) i")
    case (Some g)
    with get inv show ?thesis by (auto simp: getTrigger_known coord_same_def)
  next
    case None
    note d = co_invD [OF inv] and r = registryD [OF co_invD(2) [OF inv]]
    let ?n = "hp_next_trigger c"
    have old: "g \<noteq> ?n" if "mget (co_triggers c) t = Some g" for t g using r(4) [OF that] by simp
    have eq: "f = ?n" "c' = c\<lparr>hp_next_trigger := Suc ?n, hp_triggers := (hp_triggers c)(?n := hp_triggers c' ?n),
         co_trigger_lru := snd (list_PushFront ?n (co_trigger_lru c)), co_triggers := mput i ?n (co_triggers c)\<rparr>"
      "hp_triggers c' ?n = \<lparr>ctg_id = i, ctg_known_at = [], ctg_traces = [], ctg_created = co_now c,
         ctg_last_modified = co_now c, ctg_last_breadcrumb = 0, ctg_lru_entry = fst (list_PushFront ?n (co_trigger_lru c))\<rparr>"
      using get None by (auto simp: getTrigger_def Let_def split_beta)
    define h where "h = hp_triggers c' ?n"
    have h: "ctg_id h = i" "ctg_known_at h = []" "ctg_traces h = []" "ctg_last_modified h = co_now c"
      "ctg_lru_entry h = fst (list_PushFront ?n (co_trigger_lru c))" using eq(3) by (simp_all add: h_def)
    define s where "s = (hp_triggers c)(?n := h)"
    have s: "s ?n = h" "\<And>g. g \<noteq> ?n \<Longrightarrow> s g = hp_triggers c g" by (simp_all add: s_def)
    have c': "co_now c' = co_now c" "co_traces c' = co_traces c" "co_trace_lru c' = co_trace_lru c"
      "hp_traces c' = hp_traces c" "hp_next_trace c' = hp_next_trace c" "hp_triggers c' = s"
      "co_triggers c' = mput i ?n (co_triggers c)" "hp_next_trigger c' = Suc ?n"
      "co_trigger_lru c' = snd (list_PushFront ?n (co_trigger_lru c))"
      by (subst eq(2), simp add: s_def h_def)+
    have "trigger_reg c'" unfolding c'
      by (rule registry_new [OF d(2) None]) (simp_all add: s h)
    moreover have "trace_reg c'" using d(1) by (simp add: c')
    moreover have "trace_links c'"
      using d(3) old None unfolding trace_links_def c' by (auto simp: mget_mput s h)
    moreover have "trigger_links c'"
      using d(4) old unfolding trigger_links_def c' by (auto simp: mget_mput s h)
    moreover have "coord_same c c'"
      using None old by (auto simp: coord_same_def view_defs c' mget_mput fun_eq_iff s h split: option.split)
    ultimately show ?thesis using eq(1) by (simp add: co_inv_def c' mget_mput)
  qed
  then show "co_inv c'" "mget (co_triggers c') i = Some f" "coord_same c c'" "co_traces c' = co_traces c" by simp_all
qed

lemma getTrace_ok:
  assumes inv: "co_inv c" and get: "getTrace i c = (a, c')"
  shows "co_inv c'" "mget (co_traces c') i = Some a" "coord_same c c'" "co_triggers c' = co_triggers c"
proof -
  have all: "co_inv c' \<and> mget (co_traces c') i = Some a \<and> coord_same c c' \<and> co_triggers c' = co_triggers c"
  proof (cases "mget (co_traces c) i")
    case (Some g)
    with get inv show ?thesis by (auto simp: getTrace_known coord_same_def)
  next
    case None
    note d = co_invD [OF inv] and r = registryD [OF co_invD(1) [OF inv]]
    let ?n = "hp_next_trace c"
    have old: "g \<noteq> ?n" if "mget (co_traces c) t = Some g" for t g using r(4) [OF that] by simp
    have fresh: "mget (ctg_traces (hp_triggers c g)) i = None" if "mget (co_triggers c) t = Some g" for t g
      using trigger_linksD(3) [OF d(4) that] None by (cases "mget (ctg_traces (hp_triggers c g)) i") auto
    have eq: "a = ?n" "c' = c\<lparr>hp_next_trace := Suc ?n, hp_traces := (hp_traces c)(?n := hp_traces c' ?n),
         co_trace_lru := snd (list_PushFront ?n (co_trace_lru c)), co_traces := mput i ?n (co_traces c)\<rparr>"
      "hp_traces c' ?n = \<lparr>ctr_id = i, ctr_known_at = [], ctr_triggers = [], ctr_created = co_now c,
         ctr_last_modified = co_now c, ctr_last_breadcrumb = 0, ctr_lru_entry = fst (list_PushFront ?n (co_trace_lru c))\<rparr>"
      using get None by (auto simp: getTrace_def Let_def split_beta)
    define h where "h = hp_traces c' ?n"
    have h: "ctr_id h = i" "ctr_known_at h = []" "ctr_triggers h = []" "ctr_last_modified h = co_now c"
      "ctr_lru_entry h = fst (list_PushFront ?n (co_trace_lru c))" using eq(3) by (simp_all add: h_def)
    define s where "s = (hp_traces c)(?n := h)"
    have s: "s ?n = h" "\<And>g. g \<noteq> ?n \<Longrightarrow> s g = hp_traces c g" by (simp_all add: s_def)
    have c': "co_now c' = co_now c" "co_triggers c' = co_triggers c" "co_trigger_lru c' = co_trigger_lru c"
      "hp_triggers c' = hp_triggers c" "hp_next_trigger c' = hp_next_trigger c" "hp_traces c' = s"
      "co_traces c' = mput i ?n (co_traces c)" "hp_next_trace c' = Suc ?n"
      "co_trace_lru c' = snd (list_PushFront ?n (co_trace_lru c))"
      by (subst eq(2), simp add: s_def h_def)+
    have "trace_reg c'" unfolding c'
      by (rule registry_new [OF d(1) None]) (simp_all add: s h)
    moreover have "trigger_reg c'" using d(2) by (simp add: c')
    moreover have "trace_links c'"
      unfolding trace_links_def c'
    proof (intro allI impI)
      fix j b assume b: "mget (mput i ?n (co_traces c)) j = Some b"
      show "mok (ctr_triggers (s b)) \<and> mok (ctr_known_at (s b)) \<and>
        (\<forall>tid f. mget (ctr_triggers (s b)) tid = Some f \<longleftrightarrow>
          mget (co_triggers c) tid = Some f \<and> mget (ctg_traces (hp_triggers c f)) j = Some b)"
      proof (cases "j = i")
        case True
        with b have "b = ?n" by (simp add: mget_mput)
        with True show ?thesis using fresh by (auto simp: s h)
      next
        case False
        with b have b': "mget (co_traces c) j = Some b" by (simp add: mget_mput)
        with old have "s b = hp_traces c b" by (blast intro: s)
        then show ?thesis using trace_linksD [OF d(3) b'] by simp
      qed
    qed
    moreover have "trigger_links c'"
      using d(4) old fresh unfolding trigger_links_def c' by (fastforce simp: mget_mput)
    moreover have "coord_same c c'"
      using None old by (auto simp: coord_same_def view_defs c' mget_mput fun_eq_iff s h split: option.split)
    ultimately show ?thesis using eq(1) by (simp add: co_inv_def c' mget_mput)
  qed
  then show "co_inv c'" "mget (co_traces c') i = Some a" "coord_same c c'" "co_triggers c' = co_triggers c" by simp_all
qed

section \<open>Updates of single traces and triggers\<close>

text \<open>What an update may change of a trigger without touching its registration and its traces.\<close>

definition trigger_frame :: "coord_triggerstate \<Rightarrow> coord_triggerstate \<Rightarrow> bool" where
  "trigger_frame x y \<longleftrightarrow> ctg_id y = ctg_id x \<and> ctg_traces y = ctg_traces x \<and>
     ctg_lru_entry y = ctg_lru_entry x \<and> ctg_last_modified y = ctg_last_modified x"

definition trace_frame :: "coord_tracestate \<Rightarrow> coord_tracestate \<Rightarrow> bool" where
  "trace_frame x y \<longleftrightarrow> ctr_id y = ctr_id x \<and> ctr_triggers y = ctr_triggers x \<and>
     ctr_lru_entry y = ctr_lru_entry x \<and> ctr_last_modified y = ctr_last_modified x"

lemma upd_ctrigger_fields [simp]:
  "co_now (upd_ctrigger f g c) = co_now c" "co_traces (upd_ctrigger f g c) = co_traces c"
  "co_triggers (upd_ctrigger f g c) = co_triggers c" "co_trigger_lru (upd_ctrigger f g c) = co_trigger_lru c"
  "co_trace_lru (upd_ctrigger f g c) = co_trace_lru c" "hp_traces (upd_ctrigger f g c) = hp_traces c"
  "hp_triggers (upd_ctrigger f g c) = (hp_triggers c)(f := g (hp_triggers c f))"
  "hp_next_trace (upd_ctrigger f g c) = hp_next_trace c" "hp_next_trigger (upd_ctrigger f g c) = hp_next_trigger c"
  by (simp_all add: upd_ctrigger_def)

lemma upd_ctrace_fields [simp]:
  "co_now (upd_ctrace f g c) = co_now c" "co_traces (upd_ctrace f g c) = co_traces c"
  "co_triggers (upd_ctrace f g c) = co_triggers c" "co_trigger_lru (upd_ctrace f g c) = co_trigger_lru c"
  "co_trace_lru (upd_ctrace f g c) = co_trace_lru c" "hp_triggers (upd_ctrace f g c) = hp_triggers c"
  "hp_traces (upd_ctrace f g c) = (hp_traces c)(f := g (hp_traces c f))"
  "hp_next_trace (upd_ctrace f g c) = hp_next_trace c" "hp_next_trigger (upd_ctrace f g c) = hp_next_trigger c"
  by (simp_all add: upd_ctrace_def)

lemma upd_known_trigger:
  assumes inv: "co_inv c" and f: "mget (co_triggers c) t = Some f"
    and g: "trigger_frame (hp_triggers c f) (g (hp_triggers c f))" "mok (ctg_known_at (g (hp_triggers c f)))"
  shows "co_inv (upd_ctrigger f g c)"
    "trigger_known (upd_ctrigger f g c) = (trigger_known c)(t := fst ` set (ctg_known_at (g (hp_triggers c f))))"
    "trigger_traces (upd_ctrigger f g c) = trigger_traces c" "trace_known (upd_ctrigger f g c) = trace_known c"
proof -
  note d = co_invD [OF inv] and fr = g(1) [unfolded trigger_frame_def]
  let ?c = "upd_ctrigger f g c"
  have tr: "ctg_traces (hp_triggers ?c h) = ctg_traces (hp_triggers c h)" for h using fr by simp
  have inj: "mget (co_triggers c) t' = Some f \<Longrightarrow> t' = t" for t' using registry_inj [OF d(2) f] by blast
  have "trigger_reg ?c" using d(2) fr by (auto elim!: registry_cong)
  moreover have "trace_reg ?c" using d(1) by simp
  moreover have "trace_links ?c" using d(3) fr by (simp add: trace_links_def)
  moreover have "trigger_links ?c" using d(4) fr g(2) by (simp add: trigger_links_def)
  ultimately show "co_inv ?c" by (simp add: co_inv_def)
  show "trigger_known ?c = (trigger_known c)(t := fst ` set (ctg_known_at (g (hp_triggers c f))))"
    using f by (auto simp: view_defs fun_eq_iff split: option.split dest: inj)
  show "trigger_traces ?c = trigger_traces c" using tr by (auto simp: view_defs fun_eq_iff split: option.split)
  show "trace_known ?c = trace_known c" by (simp add: view_defs fun_eq_iff split: option.split)
qed

lemma upd_known_trace:
  assumes inv: "co_inv c" and a: "mget (co_traces c) i = Some a"
    and g: "trace_frame (hp_traces c a) (g (hp_traces c a))" "mok (ctr_known_at (g (hp_traces c a)))"
  shows "co_inv (upd_ctrace a g c)"
    "trace_known (upd_ctrace a g c) = (trace_known c)(i := fst ` set (ctr_known_at (g (hp_traces c a))))"
    "trigger_traces (upd_ctrace a g c) = trigger_traces c" "trigger_known (upd_ctrace a g c) = trigger_known c"
proof -
  note d = co_invD [OF inv] and fr = g(1) [unfolded trace_frame_def]
  let ?c = "upd_ctrace a g c"
  have inj: "mget (co_traces c) i' = Some a \<Longrightarrow> i' = i" for i' using registry_inj [OF d(1) a] by blast
  have "trace_reg ?c" using d(1) fr by (auto elim!: registry_cong)
  moreover have "trigger_reg ?c" using d(2) by simp
  moreover have "trace_links ?c" using d(3) fr g(2) by (simp add: trace_links_def)
  moreover have "trigger_links ?c" using d(4) by (simp add: trigger_links_def)
  ultimately show "co_inv ?c" by (simp add: co_inv_def)
  show "trace_known ?c = (trace_known c)(i := fst ` set (ctr_known_at (g (hp_traces c a))))"
    using a by (auto simp: view_defs fun_eq_iff split: option.split dest: inj)
  show "trigger_traces ?c = trigger_traces c" "trigger_known ?c = trigger_known c"
    by (simp_all add: view_defs fun_eq_iff split: option.split)
qed

text \<open>Recording a use.\<close>

lemma touch_trigger_ok:
  assumes inv: "co_inv c" and f: "mget (co_triggers c) t = Some f"
  shows "co_inv (touch_trigger f c)" "coord_same c (touch_trigger f c)"
    "co_triggers (touch_trigger f c) = co_triggers c" "co_traces (touch_trigger f c) = co_traces c"
    "hp_traces (touch_trigger f c) = hp_traces c"
    "ctg_last_modified (hp_triggers (touch_trigger f c) f) = co_now c"
proof -
  note d = co_invD [OF inv]
  let ?c = "touch_trigger f c"
  have "trigger_reg ?c" using registry_touch [OF d(2) f] by (simp add: touch_trigger_def)
  moreover have "trace_reg ?c" using d(1) by (simp add: touch_trigger_def)
  moreover have "trace_links ?c" "trigger_links ?c"
    using d(3,4) by (simp_all add: trace_links_def trigger_links_def touch_trigger_def)
  ultimately show "co_inv ?c" by (simp add: co_inv_def)
  show "coord_same c ?c"
    by (auto simp: coord_same_def view_defs touch_trigger_def fun_eq_iff split: option.split)
qed (simp_all add: touch_trigger_def)

lemma touch_trace_ok:
  assumes inv: "co_inv c" and a: "mget (co_traces c) i = Some a"
  shows "co_inv (touch_trace a c)" "coord_same c (touch_trace a c)"
    "co_triggers (touch_trace a c) = co_triggers c" "co_traces (touch_trace a c) = co_traces c"
    "hp_triggers (touch_trace a c) = hp_triggers c"
    "ctr_last_modified (hp_traces (touch_trace a c) a) = co_now c"
proof -
  note d = co_invD [OF inv]
  let ?c = "touch_trace a c"
  have "trace_reg ?c" using registry_touch [OF d(1) a] by (simp add: touch_trace_def)
  moreover have "trigger_reg ?c" using d(2) by (simp add: touch_trace_def)
  moreover have "trace_links ?c" "trigger_links ?c"
    using d(3,4) by (simp_all add: trace_links_def trigger_links_def touch_trace_def)
  ultimately show "co_inv ?c" by (simp add: co_inv_def)
  show "coord_same c ?c"
    by (auto simp: coord_same_def view_defs touch_trace_def fun_eq_iff split: option.split)
qed (simp_all add: touch_trace_def)

text \<open>Linking a registered trigger and a registered trace in both directions.\<close>

lemma link_ok:
  assumes inv: "co_inv c" and f: "mget (co_triggers c) t = Some f" and a: "mget (co_traces c) i = Some a"
  defines "c' \<equiv> upd_ctrace a (\<lambda>x. x\<lparr>ctr_triggers := mput t f (ctr_triggers x)\<rparr>)
                  (upd_ctrigger f (\<lambda>g. g\<lparr>ctg_traces := mput i a (ctg_traces g)\<rparr>) c)"
  shows "co_inv c'" "trigger_traces c' = (trigger_traces c)(t := insert i (trigger_traces c t))"
    "trigger_known c' = trigger_known c" "trace_known c' = trace_known c"
proof -
  note d = co_invD [OF inv]
  have injf: "mget (co_triggers c) t' = Some f \<longleftrightarrow> t' = t" for t' using registry_inj [OF d(2) f] f by blast
  have inja: "mget (co_traces c) i' = Some a \<longleftrightarrow> i' = i" for i' using registry_inj [OF d(1) a] a by blast
  have "trigger_reg c'" unfolding c'_def using d(2) by (auto elim!: registry_cong)
  moreover have "trace_reg c'" unfolding c'_def using d(1) by (auto elim!: registry_cong)
  moreover have "trace_links c'"
  proof (unfold trace_links_def, intro allI impI)
    fix j b assume "mget (co_traces c') j = Some b"
    then have b: "mget (co_traces c) j = Some b" by (simp add: c'_def)
    note l = trace_linksD [OF d(3) b]
    have ai: "b = a \<longleftrightarrow> j = i" using b a inja [of j] inja [of i] by auto
    have "mget (ctr_triggers (hp_traces c' b)) t' = Some g \<longleftrightarrow>
        mget (co_triggers c') t' = Some g \<and> mget (ctg_traces (hp_triggers c' g)) j = Some b" for t' g
      using l(3) [of t' g] f injf [of t'] ai a by (auto simp: c'_def mget_mput)
    moreover have "mok (ctr_triggers (hp_traces c' b))" "mok (ctr_known_at (hp_traces c' b))"
      using l(1,2) by (auto simp: c'_def)
    ultimately show "mok (ctr_triggers (hp_traces c' b)) \<and> mok (ctr_known_at (hp_traces c' b)) \<and>
        (\<forall>t' g. mget (ctr_triggers (hp_traces c' b)) t' = Some g \<longleftrightarrow>
          mget (co_triggers c') t' = Some g \<and> mget (ctg_traces (hp_triggers c' g)) j = Some b)"
      by blast
  qed
  moreover have "trigger_links c'"
    using d(4) a by (auto simp: trigger_links_def c'_def mget_mput)
  ultimately show "co_inv c'" by (simp add: co_inv_def)
  show "trigger_traces c' = (trigger_traces c)(t := insert i (trigger_traces c t))"
    using f by (auto simp: view_defs fun_eq_iff c'_def dom_mput split: option.split dest: injf [THEN iffD1])
  show "trigger_known c' = trigger_known c" "trace_known c' = trace_known c"
    by (auto simp: view_defs fun_eq_iff c'_def split: option.split)
qed

section \<open>The loop of AddTrigger\<close>

lemma link_trace_known:
  "mget (co_triggers c) t = Some f \<Longrightarrow> i \<in> trigger_traces c t \<Longrightarrow> link_trace src f i (b, c) = (b, c)"
  using mget_dom [of "ctg_traces (hp_triggers c f)" i] by (simp add: link_trace_def view_defs)

lemma link_trace_new:
  assumes inv: "co_inv c" and f: "mget (co_triggers c) t = Some f" and i: "i \<notin> trigger_traces c t"
    and step: "link_trace src f i (b, c) = (b', c')"
  shows "b'" "co_inv c'" "mget (co_triggers c') t = Some f" "co_now c' = co_now c"
    "trigger_traces c' = (trigger_traces c)(t := insert i (trigger_traces c t))"
    "trigger_known c' = (trigger_known c)(t := trigger_known c t \<union> trace_known c i)"
    "trace_known c' = (trace_known c)(i := insert src (trace_known c i))"
proof -
  obtain a c1 where get: "getTrace i c = (a, c1)" by (cases "getTrace i c")
  note g = getTrace_ok [OF inv get]
  have f1: "mget (co_triggers c1) t = Some f" using f g(4) by simp
  have idf: "ctg_id (hp_triggers c1 f) = t" using registryD(3) [OF co_invD(2) [OF g(1)] f1] .
  define c3 where "c3 = upd_ctrace a (\<lambda>x. x\<lparr>ctr_triggers := mput t f (ctr_triggers x)\<rparr>)
    (upd_ctrigger f (\<lambda>g. g\<lparr>ctg_traces := mput i a (ctg_traces g)\<rparr>) c1)"
  define c4 where "c4 = upd_ctrigger f
    (\<lambda>g. g\<lparr>ctg_known_at := know_all (ctr_known_at (hp_traces c3 a)) (ctg_known_at g)\<rparr>) c3"
  define c5 where "c5 = upd_ctrace a (\<lambda>x. x\<lparr>ctr_known_at := mput src () (ctr_known_at x)\<rparr>) c4"
  have res: "b' = True" "c' = touch_trace a c5"
    using step i f idf mget_dom [of "ctg_traces (hp_triggers c f)" i]
    by (auto simp: link_trace_def get Let_def c3_def c4_def c5_def view_defs)
  note l = link_ok [OF g(1) f1 g(2), folded c3_def]
  have f3: "mget (co_triggers c3) t = Some f" "mget (co_traces c3) i = Some a" "co_now c3 = co_now c1"
    using f1 g(2) by (simp_all add: c3_def)
  have kt: "fst ` set (ctg_known_at (hp_triggers c3 f)) = trigger_known c t"
    "fst ` set (ctr_known_at (hp_traces c3 a)) = trace_known c i"
    using trigger_view(1) [OF f3(1)] trace_view [OF f3(2)] l(3,4) g(3) by (simp_all add: coord_same_def)
  note u = upd_known_trigger [OF l(1) f3(1),
      where g = "\<lambda>g. g\<lparr>ctg_known_at := know_all (ctr_known_at (hp_traces c3 a)) (ctg_known_at g)\<rparr>", folded c4_def,
      unfolded trigger_frame_def, simplified, OF know_all_mok [OF trigger_linksD(2) [OF co_invD(4) [OF l(1)] f3(1)]]]
  have f4: "mget (co_triggers c4) t = Some f" "mget (co_traces c4) i = Some a" "hp_traces c4 = hp_traces c3" "co_now c4 = co_now c3"
    using f3 by (simp_all add: c4_def)
  note v = upd_known_trace [OF u(1) f4(2), where g = "\<lambda>x. x\<lparr>ctr_known_at := mput src () (ctr_known_at x)\<rparr>", folded c5_def,
      unfolded trace_frame_def, simplified, OF mok_mput [OF trace_linksD(2) [OF co_invD(3) [OF u(1)] f4(2)]]]
  have f5: "mget (co_triggers c5) t = Some f" "mget (co_traces c5) i = Some a" "co_now c5 = co_now c4"
    using f4 by (simp_all add: c5_def)
  note w = touch_trace_ok [OF v(1) f5(2), folded res(2)]
  show "b'" "co_inv c'" "mget (co_triggers c') t = Some f" "co_now c' = co_now c"
    using res(1) w(1,2,3) f5(1,3) f4(4) f3(3) g(3) by (simp_all add: coord_same_def)
  show "trigger_traces c' = (trigger_traces c)(t := insert i (trigger_traces c t))"
    using w(2) v(3) u(3) l(2) g(3) by (simp add: coord_same_def)
  show "trigger_known c' = (trigger_known c)(t := trigger_known c t \<union> trace_known c i)"
    using w(2) v(4) u(2) l(3) g(3) kt by (simp add: coord_same_def know_all_dom Un_commute)
  show "trace_known c' = (trace_known c)(i := insert src (trace_known c i))"
    using w(2) v(2) u(4) l(4) g(3) kt f4(3) by (simp add: coord_same_def dom_mput)
qed

lemma link_all:
  assumes inv: "co_inv c" and f: "mget (co_triggers c) t = Some f"
    and run: "fold (link_trace src f) ids (b, c) = (b', c')"
  shows "co_inv c' \<and> mget (co_triggers c') t = Some f \<and> co_now c' = co_now c \<and>
    (b' \<longleftrightarrow> b \<or> \<not> set ids \<subseteq> trigger_traces c t) \<and>
    trigger_traces c' = (trigger_traces c)(t := trigger_traces c t \<union> set ids) \<and>
    trigger_known c' = (trigger_known c)(t := trigger_known c t \<union> (\<Union>i \<in> set ids - trigger_traces c t. trace_known c i)) \<and>
    trace_known c' = (\<lambda>i. if i \<in> set ids - trigger_traces c t then insert src (trace_known c i) else trace_known c i)"
  using assms
proof (induction ids arbitrary: b c)
  case Nil
  then show ?case by simp
next
  case (Cons i ids)
  show ?case
  proof (cases "i \<in> trigger_traces c t")
    case True
    then have "insert i (set ids) - trigger_traces c t = set ids - trigger_traces c t" by blast
    moreover from True have "insert i (trigger_traces c t \<union> set ids) = trigger_traces c t \<union> set ids" by blast
    ultimately show ?thesis
      using Cons.IH [of c b] Cons.prems link_trace_known [OF Cons.prems(2) True] True by simp
  next
    case False
    obtain b1 c1 where s: "link_trace src f i (b, c) = (b1, c1)" by (cases "link_trace src f i (b, c)")
    note n = link_trace_new [OF Cons.prems(1,2) False s]
    let ?T = "trigger_traces c t"
    from Cons.prems(3) have run: "fold (link_trace src f) ids (b1, c1) = (b', c')" by (simp add: s)
    note ih = Cons.IH [OF n(2,3) run]
    have "(\<Union>j \<in> set ids - insert i ?T. trace_known c1 j) = (\<Union>j \<in> set ids - insert i ?T. trace_known c j)"
      using n(7) by auto
    then have "trigger_known c1 t \<union> (\<Union>j \<in> set ids - insert i ?T. trace_known c1 j) =
        trigger_known c t \<union> (\<Union>j \<in> set (i # ids) - ?T. trace_known c j)"
      using False n(6) by auto
    moreover have "(if j \<in> set ids - insert i ?T then insert src (trace_known c1 j) else trace_known c1 j) =
        (if j \<in> set (i # ids) - ?T then insert src (trace_known c j) else trace_known c j)" for j
      using False n(7) by simp
    ultimately show ?thesis using ih n(1,4,5,6) False by (auto cong: if_cong)
  qed
qed

lemma AddTrigger_ok:
  assumes inv: "co_inv c" and run: "AddTrigger src g c = (out, c')"
  defines "t \<equiv> cg_id g" and "new \<equiv> set (cg_trace_ids g) - trigger_traces c (cg_id g)"
  shows "co_inv c'" "co_now c' = co_now c"
    "trigger_traces c' = (trigger_traces c)(t := trigger_traces c t \<union> set (cg_trace_ids g))"
    "trigger_known c' = (trigger_known c)(t := insert src (trigger_known c t) \<union> (\<Union>i \<in> new. trace_known c i))"
    "trace_known c' = (\<lambda>i. if i \<in> new then insert src (trace_known c i) else trace_known c i)"
    "set out = (if new = {} then {} else trigger_known c' t - {src})" "distinct out"
proof -
  obtain f c1 where get: "getTrigger t c = (f, c1)" by (cases "getTrigger t c")
  note o = getTrigger_ok [OF inv get]
  define c2 where "c2 = upd_ctrigger f (\<lambda>g. g\<lparr>ctg_known_at := mput src () (ctg_known_at g)\<rparr>) c1"
  note u = upd_known_trigger [OF o(1,2), where g = "\<lambda>g. g\<lparr>ctg_known_at := mput src () (ctg_known_at g)\<rparr>", folded c2_def,
      unfolded trigger_frame_def, simplified, OF mok_mput [OF trigger_linksD(2) [OF co_invD(4) [OF o(1)] o(2)]]]
  have f2: "mget (co_triggers c2) t = Some f" "co_now c2 = co_now c1" using o(2) by (simp_all add: c2_def)
  note w = touch_trigger_ok [OF u(1) f2(1)]
  obtain b c3 where fo: "fold (link_trace src f) (cg_trace_ids g) (False, touch_trigger f c2) = (b, c3)"
    by (cases "fold (link_trace src f) (cg_trace_ids g) (False, touch_trigger f c2)")
  have out: "c' = c3" "out = (if b then filter (\<lambda>addr. addr \<noteq> src) (map fst (ctg_known_at (hp_triggers c3 f))) else [])"
    using run get fo by (auto simp: AddTrigger_def t_def c2_def)
  have f3: "mget (co_triggers (touch_trigger f c2)) t = Some f" using f2 w(3) by simp
  note l = link_all [OF w(1) f3 fo]
  have k2: "trigger_known c2 = (trigger_known c)(t := insert src (trigger_known c t))"
    using u(2) o(3) trigger_view(1) [OF o(2)] by (simp add: coord_same_def dom_mput)
  have view: "trigger_traces (touch_trigger f c2) = trigger_traces c" "trace_known (touch_trigger f c2) = trace_known c"
    "trigger_known (touch_trigger f c2) = (trigger_known c)(t := insert src (trigger_known c t))" "co_now (touch_trigger f c2) = co_now c"
    using w(2) u(3,4) o(3) k2 f2(2) by (simp_all add: coord_same_def)
  show "co_inv c'" "co_now c' = co_now c"
    "trigger_traces c' = (trigger_traces c)(t := trigger_traces c t \<union> set (cg_trace_ids g))"
    "trace_known c' = (\<lambda>i. if i \<in> new then insert src (trace_known c i) else trace_known c i)"
    using l [unfolded view] by (simp_all add: out(1) new_def t_def)
  show "trigger_known c' = (trigger_known c)(t := insert src (trigger_known c t) \<union> (\<Union>i \<in> new. trace_known c i))"
    using l view by (simp add: out(1) new_def t_def)
  have "mget (co_triggers c3) t = Some f" "b \<longleftrightarrow> new \<noteq> {}" using l view by (auto simp: new_def t_def)
  then show "set out = (if new = {} then {} else trigger_known c' t - {src})"
    using trigger_view(1) [of c3 t f] by (auto simp: out)
  have "mok (ctg_known_at (hp_triggers c3 f))" using l trigger_linksD(2) [OF co_invD(4)] by blast
  then show "distinct out" by (simp add: out mok_def distinct_filter)
qed

section \<open>The loops of AddBreadcrumb\<close>

text \<open>What a list of triggers to send says, irrespective of the order.\<close>

definition says :: "CoordTrigger list \<Rightarrow> (CoordTriggerID \<times> u64 set) set" where
  "says ts = (\<lambda>t. (cg_id t, set (cg_trace_ids t))) ` set ts"

definition dissem_at :: "dissemination \<Rightarrow> string \<Rightarrow> (CoordTriggerID \<times> u64 set) set" where
  "dissem_at m addr = (case mget m addr of None \<Rightarrow> {} | Some ts \<Rightarrow> says ts)"

lemma says_append: "says (xs @ ys) = says xs \<union> says ys"
  by (auto simp: says_def)

lemma says_trigger:
  assumes "co_inv c" and "mget (co_triggers c) t = Some f"
  shows "says [triggerstate_Trigger (hp_triggers c f)] = {(t, trigger_traces c t)}"
  using registryD(3) [OF co_invD(2) [OF assms(1)] assms(2)]
  by (simp add: says_def triggerstate_Trigger_def trigger_view(2) [OF assms(2)])

lemma disseminate_one:
  assumes inv: "co_inv c" and f: "mget (co_triggers c) t = Some f"
    and run: "disseminate_trigger addr f (out, c) = (out', c')"
  shows "co_inv c'" "co_now c' = co_now c" "co_triggers c' = co_triggers c" "co_traces c' = co_traces c" "hp_traces c' = hp_traces c"
    "trigger_traces c' = trigger_traces c" "trace_known c' = trace_known c"
    "trigger_known c' = (trigger_known c)(t := insert addr (trigger_known c t))"
    "says out' = says out \<union> (if addr \<in> trigger_known c t then {} else {(t, trigger_traces c t)})"
proof -
  let ?g = "\<lambda>g. g\<lparr>ctg_known_at := mput addr () (ctg_known_at g), ctg_last_breadcrumb := co_now c\<rparr>"
  note u = upd_known_trigger [OF inv f, where g = ?g,
      unfolded trigger_frame_def, simplified, OF mok_mput [OF trigger_linksD(2) [OF co_invD(4) [OF inv] f]]]
  have dom: "mget (ctg_known_at (hp_triggers c f)) addr \<noteq> None \<longleftrightarrow> addr \<in> trigger_known c t"
    unfolding trigger_view(1) [OF f] by (rule mget_dom)
  have all: "co_inv c' \<and> co_now c' = co_now c \<and> co_triggers c' = co_triggers c \<and> co_traces c' = co_traces c \<and> hp_traces c' = hp_traces c \<and>
    trigger_traces c' = trigger_traces c \<and> trace_known c' = trace_known c \<and>
    trigger_known c' = (trigger_known c)(t := insert addr (trigger_known c t)) \<and>
    says out' = says out \<union> (if addr \<in> trigger_known c t then {} else {(t, trigger_traces c t)})"
  proof (cases "addr \<in> trigger_known c t")
    case True
    then have "out' = out" "c' = c" using run dom by (simp_all add: disseminate_trigger_def)
    with True inv show ?thesis by (simp add: insert_absorb)
  next
    case False
    then have "out' = out @ [triggerstate_Trigger (hp_triggers c f)]" "c' = upd_ctrigger f ?g c"
      using run dom by (simp_all add: disseminate_trigger_def)
    then show ?thesis using u False trigger_view(1) [OF f] by (simp add: says_append says_trigger [OF inv f] dom_mput)
  qed
  then show "co_inv c'" "co_now c' = co_now c" "co_triggers c' = co_triggers c" "co_traces c' = co_traces c" "hp_traces c' = hp_traces c"
    "trigger_traces c' = trigger_traces c" "trace_known c' = trace_known c"
    "trigger_known c' = (trigger_known c)(t := insert addr (trigger_known c t))"
    "says out' = says out \<union> (if addr \<in> trigger_known c t then {} else {(t, trigger_traces c t)})" by simp_all
qed

lemma disseminate_triggers:
  assumes "co_inv c" and "\<And>t f. (t, f) \<in> set xs \<Longrightarrow> mget (co_triggers c) t = Some f" and "distinct (map fst xs)"
    and "fold (\<lambda>(_, f). disseminate_trigger addr f) xs (out, c) = (out', c')"
  shows "co_inv c' \<and> co_now c' = co_now c \<and> co_triggers c' = co_triggers c \<and> co_traces c' = co_traces c \<and> hp_traces c' = hp_traces c \<and>
    trigger_traces c' = trigger_traces c \<and> trace_known c' = trace_known c \<and>
    trigger_known c' = (\<lambda>t. if t \<in> fst ` set xs then insert addr (trigger_known c t) else trigger_known c t) \<and>
    says out' = says out \<union> {(t, trigger_traces c t) | t. t \<in> fst ` set xs \<and> addr \<notin> trigger_known c t}"
  using assms
proof (induction xs arbitrary: out c)
  case Nil
  then show ?case by simp
next
  case (Cons x xs)
  obtain t f where x: "x = (t, f)" by (cases x)
  obtain out1 c1 where s: "disseminate_trigger addr f (out, c) = (out1, c1)" by (cases "disseminate_trigger addr f (out, c)")
  have f: "mget (co_triggers c) t = Some f" using Cons.prems(2) by (simp add: x)
  note o = disseminate_one [OF Cons.prems(1) f s]
  have t: "t \<notin> fst ` set xs" using Cons.prems(3) by (simp add: x)
  have "fold (\<lambda>(_, f). disseminate_trigger addr f) xs (out1, c1) = (out', c')" using Cons.prems(4) by (simp add: x s)
  from Cons.IH [OF o(1) _ _ this] Cons.prems(2,3) o(3)
  have ih: "co_inv c' \<and> co_now c' = co_now c1 \<and> co_triggers c' = co_triggers c1 \<and> co_traces c' = co_traces c1 \<and> hp_traces c' = hp_traces c1 \<and>
    trigger_traces c' = trigger_traces c1 \<and> trace_known c' = trace_known c1 \<and>
    trigger_known c' = (\<lambda>t. if t \<in> fst ` set xs then insert addr (trigger_known c1 t) else trigger_known c1 t) \<and>
    says out' = says out1 \<union> {(t, trigger_traces c1 t) | t. t \<in> fst ` set xs \<and> addr \<notin> trigger_known c1 t}" by simp
  have "trigger_known c' u = (if u \<in> fst ` set (x # xs) then insert addr (trigger_known c u) else trigger_known c u)" for u
    using ih o(8) t by (auto simp: x)
  moreover have "says out' = says out \<union> {(t, trigger_traces c t) | t. t \<in> fst ` set (x # xs) \<and> addr \<notin> trigger_known c t}"
    using ih o(6,8,9) t by (auto simp: x)
  ultimately show ?case using ih o by (simp add: fun_eq_iff)
qed

text \<open>The triggers of a trace, seen from the triggers.\<close>

lemma triggers_of_trace:
  assumes inv: "co_inv c" and a: "mget (co_traces c) i = Some a"
  shows "fst ` set (ctr_triggers (hp_traces c a)) = {t. i \<in> trigger_traces c t}"
proof -
  note d = co_invD [OF inv] and l = trace_linksD [OF co_invD(3) [OF inv] a]
  have "t \<in> fst ` set (ctr_triggers (hp_traces c a)) \<longleftrightarrow> i \<in> trigger_traces c t" for t
  proof
    assume "t \<in> fst ` set (ctr_triggers (hp_traces c a))"
    then obtain f where "mget (ctr_triggers (hp_traces c a)) t = Some f" by (auto simp flip: mget_dom)
    then have f: "mget (co_triggers c) t = Some f" and "mget (ctg_traces (hp_triggers c f)) i = Some a" using l(3) by auto
    then have "i \<in> fst ` set (ctg_traces (hp_triggers c f))" by (simp flip: mget_dom)
    then show "i \<in> trigger_traces c t" by (simp add: trigger_view(2) [OF f])
  next
    assume i: "i \<in> trigger_traces c t"
    then obtain f where f: "mget (co_triggers c) t = Some f" by (auto simp: trigger_traces_def split: option.splits)
    with i have "mget (ctg_traces (hp_triggers c f)) i \<noteq> None" unfolding mget_dom trigger_view(2) [OF f] by simp
    then obtain b where b: "mget (ctg_traces (hp_triggers c f)) i = Some b" by auto
    with trigger_linksD(3) [OF d(4) f this] a have "b = a" by simp
    with f b l(3) have "mget (ctr_triggers (hp_traces c a)) t = Some f" by blast
    then show "t \<in> fst ` set (ctr_triggers (hp_traces c a))" by (simp flip: mget_dom)
  qed
  then show ?thesis by blast
qed

lemma trace_triggers_entries:
  assumes inv: "co_inv c" and a: "mget (co_traces c) i = Some a"
  shows "distinct (map fst (ctr_triggers (hp_traces c a)))"
    "(t, f) \<in> set (ctr_triggers (hp_traces c a)) \<Longrightarrow> mget (co_triggers c) t = Some f"
  using trace_linksD [OF co_invD(3) [OF inv] a] by (auto simp: mok_def dest: get_triggers_mem [unfolded mok_def])

lemma disseminate_addr_known:
  "mget (co_traces c) i = Some a \<Longrightarrow> addr \<in> trace_known c i \<Longrightarrow> disseminate_addr a addr (m, c) = (m, c)"
  using mget_dom [of "ctr_known_at (hp_traces c a)" addr] by (simp add: disseminate_addr_def trace_view)

lemma disseminate_addr_new:
  assumes inv: "co_inv c" and a: "mget (co_traces c) i = Some a" and addr: "addr \<notin> trace_known c i"
    and m: "mget m addr = None" and run: "disseminate_addr a addr (m, c) = (m', c')"
  shows "co_inv c'" "co_now c' = co_now c" "mget (co_traces c') i = Some a" "trigger_traces c' = trigger_traces c"
    "trace_known c' = (trace_known c)(i := insert addr (trace_known c i))"
    "trigger_known c' = (\<lambda>t. if i \<in> trigger_traces c t then insert addr (trigger_known c t) else trigger_known c t)"
    "dissem_at m' = (dissem_at m)(addr := {(t, trigger_traces c t) | t. i \<in> trigger_traces c t \<and> addr \<notin> trigger_known c t})"
    "fst ` set m' \<subseteq> insert addr (fst ` set m)"
proof -
  obtain ts c1 where fo: "fold (\<lambda>(_, f). disseminate_trigger addr f) (ctr_triggers (hp_traces c a)) ([], c) = (ts, c1)"
    by (cases "fold (\<lambda>(_, f). disseminate_trigger addr f) (ctr_triggers (hp_traces c a)) ([], c)")
  note l = disseminate_triggers [OF inv trace_triggers_entries(2) [OF inv a] trace_triggers_entries(1) [OF inv a] fo,
      unfolded triggers_of_trace [OF inv a] mem_Collect_eq]
  have a1: "mget (co_traces c1) i = Some a" and inv1: "co_inv c1" and h1: "hp_traces c1 = hp_traces c" using a l by simp_all
  let ?g = "\<lambda>t. t\<lparr>ctr_known_at := mput addr () (ctr_known_at t), ctr_last_breadcrumb := co_now c1\<rparr>"
  have "mget (ctr_known_at (hp_traces c a)) addr = None"
    using addr unfolding trace_view [OF a] by (simp add: mget_None_keys)
  then have res: "m' = (if length ts > 0 then mput addr ts m else m)" "c' = upd_ctrace a ?g c1"
    using run fo by (simp_all add: disseminate_addr_def)
  note u = upd_known_trace [OF inv1 a1, where g = ?g, folded res(2),
      unfolded trace_frame_def, simplified, OF mok_mput [OF trace_linksD(2) [OF co_invD(3) [OF inv1] a1]]]
  show "co_inv c'" "co_now c' = co_now c" "mget (co_traces c') i = Some a" "trigger_traces c' = trigger_traces c"
    "trigger_known c' = (\<lambda>t. if i \<in> trigger_traces c t then insert addr (trigger_known c t) else trigger_known c t)"
    using u l a1 by (simp_all add: res(2))
  show "trace_known c' = (trace_known c)(i := insert addr (trace_known c i))"
    using u(2) l h1 by (simp add: dom_mput trace_view [OF a])
  show "dissem_at m' = (dissem_at m)(addr := {(t, trigger_traces c t) | t. i \<in> trigger_traces c t \<and> addr \<notin> trigger_known c t})"
    using l m by (auto simp: res(1) dissem_at_def fun_eq_iff mget_mput says_def)
  show "fst ` set m' \<subseteq> insert addr (fst ` set m)"
    by (auto simp: res(1) dom_mput)
qed

lemma disseminate_all:
  assumes "co_inv c" and "mget (co_traces c) i = Some a" and "fst ` set m \<subseteq> trace_known c i"
    and "fold (disseminate_addr a) addrs (m, c) = (m', c')"
  shows "co_inv c' \<and> co_now c' = co_now c \<and> mget (co_traces c') i = Some a \<and> trigger_traces c' = trigger_traces c \<and>
    trace_known c' = (trace_known c)(i := trace_known c i \<union> set addrs) \<and>
    trigger_known c' = (\<lambda>t. if i \<in> trigger_traces c t then trigger_known c t \<union> (set addrs - trace_known c i) else trigger_known c t) \<and>
    dissem_at m' = (\<lambda>addr. if addr \<in> set addrs - trace_known c i
      then {(t, trigger_traces c t) | t. i \<in> trigger_traces c t \<and> addr \<notin> trigger_known c t} else dissem_at m addr)"
  using assms
proof (induction addrs arbitrary: m c)
  case Nil
  then show ?case by (simp cong: if_cong)
next
  case (Cons addr addrs)
  show ?case
  proof (cases "addr \<in> trace_known c i")
    case True
    then have "insert addr (set addrs) - trace_known c i = set addrs - trace_known c i"
      "insert addr (trace_known c i \<union> set addrs) = trace_known c i \<union> set addrs" by blast+
    then show ?thesis
      using Cons.IH [of c m] Cons.prems disseminate_addr_known [OF Cons.prems(2) True] True by (auto simp: fun_eq_iff)
  next
    case False
    obtain m1 c1 where s: "disseminate_addr a addr (m, c) = (m1, c1)" by (cases "disseminate_addr a addr (m, c)")
    have "mget m addr = None" using False Cons.prems(3) mget_dom [of m addr] by auto
    note n = disseminate_addr_new [OF Cons.prems(1,2) False this s]
    have k1: "fst ` set m1 \<subseteq> trace_known c1 i" using n(5,8) Cons.prems(3) by auto
    have "fold (disseminate_addr a) addrs (m1, c1) = (m', c')" using Cons.prems(4) by (simp add: s)
    note ih = Cons.IH [OF n(1,3) k1 this]
    have "trigger_known c' t = (if i \<in> trigger_traces c t then trigger_known c t \<union> (set (addr # addrs) - trace_known c i)
        else trigger_known c t)" for t
      using ih n(4,5,6) False by auto
    moreover have "dissem_at m' x = (if x \<in> set (addr # addrs) - trace_known c i
        then {(t, trigger_traces c t) | t. i \<in> trigger_traces c t \<and> x \<notin> trigger_known c t} else dissem_at m x)" for x
    proof (cases "x = addr")
      case True
      then show ?thesis using ih n(4,5,7) False by simp
    next
      case False
      then have "x \<in> trigger_known c1 t \<longleftrightarrow> x \<in> trigger_known c t" for t using n(6) by simp
      with False show ?thesis using ih n(4,5,7) by simp
    qed
    moreover have "trace_known c' = (trace_known c)(i := trace_known c i \<union> set (addr # addrs))"
      using ih n(5) by (simp add: fun_eq_iff)
    ultimately show ?thesis using ih n(2,4) by (simp add: fun_eq_iff)
  qed
qed

lemma touch_triggers_ok:
  assumes "co_inv c" and "\<And>t f. (t, f) \<in> set xs \<Longrightarrow> mget (co_triggers c) t = Some f"
  shows "co_inv (fold (\<lambda>(_, f). touch_trigger f) xs c)" "coord_same c (fold (\<lambda>(_, f). touch_trigger f) xs c)"
    "co_traces (fold (\<lambda>(_, f). touch_trigger f) xs c) = co_traces c"
proof -
  have "co_inv (fold (\<lambda>(_, f). touch_trigger f) xs c) \<and> coord_same c (fold (\<lambda>(_, f). touch_trigger f) xs c) \<and>
      co_traces (fold (\<lambda>(_, f). touch_trigger f) xs c) = co_traces c"
    using assms
  proof (induction xs arbitrary: c)
    case Nil
    then show ?case by (simp add: coord_same_def)
  next
    case (Cons x xs)
    obtain t f where x: "x = (t, f)" by (cases x)
    have "mget (co_triggers c) t = Some f" using Cons.prems(2) by (simp add: x)
    note o = touch_trigger_ok [OF Cons.prems(1) this]
    have "mget (co_triggers (touch_trigger f c)) u = Some g" if "(u, g) \<in> set xs" for u g
      using Cons.prems(2) [of u g] that o(3) by simp
    from Cons.IH [OF o(1) this] o(2,4) show ?case by (simp add: x coord_same_def)
  qed
  then show "co_inv (fold (\<lambda>(_, f). touch_trigger f) xs c)" "coord_same c (fold (\<lambda>(_, f). touch_trigger f) xs c)"
    "co_traces (fold (\<lambda>(_, f). touch_trigger f) xs c) = co_traces c" by simp_all
qed

lemma AddBreadcrumb_ok:
  assumes inv: "co_inv c" and run: "AddBreadcrumb src i addrs c = (out, c')"
  defines "new \<equiv> insert src (set addrs) - trace_known c i"
  shows "co_inv c'" "co_now c' = co_now c" "trigger_traces c' = trigger_traces c"
    "trace_known c' = (trace_known c)(i := insert src (set addrs \<union> trace_known c i))"
    "trigger_known c' = (\<lambda>t. if i \<in> trigger_traces c t then trigger_known c t \<union> new else trigger_known c t)"
    "dissem_at out = (\<lambda>addr. if addr \<in> new
       then {(t, trigger_traces c t) | t. i \<in> trigger_traces c t \<and> addr \<notin> trigger_known c t} else {})"
proof -
  obtain a c1 where get: "getTrace i c = (a, c1)" by (cases "getTrace i c")
  note g = getTrace_ok [OF inv get]
  obtain m c2 where fo: "fold (disseminate_addr a) (addrs @ [src]) ([], c1) = (m, c2)"
    by (cases "fold (disseminate_addr a) (addrs @ [src]) ([], c1)")
  have "fst ` set ([] :: dissemination) \<subseteq> trace_known c1 i" by simp
  note l = disseminate_all [OF g(1,2) this fo]
  from l have inv2: "co_inv c2" and a2: "mget (co_traces c2) i = Some a" by simp_all
  define c3 where "c3 = fold (\<lambda>(_, f). touch_trigger f) (ctr_triggers (hp_traces c2 a)) c2"
  have "mget (co_triggers c2) t = Some f" if "(t, f) \<in> set (ctr_triggers (hp_traces c2 a))" for t f
    using trace_triggers_entries(2) [OF inv2 a2 that] .
  note t = touch_triggers_ok [OF inv2 this, of "ctr_triggers (hp_traces c2 a)", simplified, folded c3_def]
  have a3: "mget (co_traces c3) i = Some a" using a2 t(3) by simp
  have res: "out = m" "c' = touch_trace a c3"
    using run get fo by (simp_all add: AddBreadcrumb_def c3_def)
  note w = touch_trace_ok [OF t(1) a3, folded res(2)]
  have same: "trigger_traces c1 = trigger_traces c" "trace_known c1 = trace_known c" "trigger_known c1 = trigger_known c"
    "trigger_traces c' = trigger_traces c2" "trace_known c' = trace_known c2" "trigger_known c' = trigger_known c2"
    "co_now c1 = co_now c" "co_now c' = co_now c2"
    using g(3) w(2) t(2) by (simp_all add: coord_same_def)
  have new: "set (addrs @ [src]) - trace_known c i = new" by (simp add: new_def)
  have un: "trace_known c i \<union> set (addrs @ [src]) = insert src (set addrs \<union> trace_known c i)" by auto
  show "co_inv c'" by (rule w(1))
  show "co_now c' = co_now c" "trigger_traces c' = trigger_traces c"
    using l same by simp_all
  show "trace_known c' = (trace_known c)(i := insert src (set addrs \<union> trace_known c i))"
    using l unfolding same un by simp
  show "trigger_known c' = (\<lambda>t. if i \<in> trigger_traces c t then trigger_known c t \<union> new else trigger_known c t)"
    using l unfolding same new by simp
  show "dissem_at out = (\<lambda>addr. if addr \<in> new
      then {(t, trigger_traces c t) | t. i \<in> trigger_traces c t \<and> addr \<notin> trigger_known c t} else {})"
    using l unfolding same new res(1) by (simp add: dissem_at_def cong: if_cong)
qed

section \<open>Expiration\<close>

lemma unlink_traces_fold:
  fixes xs :: "(u64 \<times> nat) list"
  shows "fold (\<lambda>(_, b). upd_ctrace b (\<lambda>x. x\<lparr>ctr_triggers := mdel t (ctr_triggers x)\<rparr>)) xs c = c\<lparr>hp_traces := (\<lambda>b. if b \<in> snd ` set xs
    then (hp_traces c b)\<lparr>ctr_triggers := mdel t (ctr_triggers (hp_traces c b))\<rparr> else hp_traces c b)\<rparr>"
proof (induction xs arbitrary: c)
  case Nil
  then show ?case by simp
next
  case (Cons x xs)
  obtain k b where x: "x = (k, b)" by (cases x)
  show ?case unfolding fold_Cons x prod.case o_apply
    by (subst Cons.IH) (auto simp: upd_ctrace_def fun_eq_iff delete_idem)
qed

lemma unlink_triggers_fold:
  fixes xs :: "(CoordTriggerID \<times> nat) list"
  shows "fold (\<lambda>(_, b). upd_ctrigger b (\<lambda>x. x\<lparr>ctg_traces := mdel i (ctg_traces x)\<rparr>)) xs c = c\<lparr>hp_triggers := (\<lambda>b. if b \<in> snd ` set xs
    then (hp_triggers c b)\<lparr>ctg_traces := mdel i (ctg_traces (hp_triggers c b))\<rparr> else hp_triggers c b)\<rparr>"
proof (induction xs arbitrary: c)
  case Nil
  then show ?case by simp
next
  case (Cons x xs)
  obtain k b where x: "x = (k, b)" by (cases x)
  show ?case unfolding fold_Cons x prod.case o_apply
    by (subst Cons.IH) (auto simp: upd_ctrigger_def fun_eq_iff delete_idem)
qed

definition finished_of :: "coord_triggerstate \<Rightarrow> FinishedTrigger" where
  "finished_of g = \<lparr>fin_queue_id = ct_queue_id (ctg_id g), fin_total_agents = int (length (ctg_known_at g)),
     fin_dissemination_time = ctg_last_modified g - ctg_created g\<rparr>"

lemma expire_trigger_ok:
  assumes inv: "co_inv c" and f: "mget (co_triggers c) t = Some f"
  shows "co_inv (snd (expire_trigger f c))" "fst (expire_trigger f c) = finished_of (hp_triggers c f)"
    "co_triggers (snd (expire_trigger f c)) = mdel t (co_triggers c)"
    "co_trigger_lru (snd (expire_trigger f c)) = list_Remove (ctg_lru_entry (hp_triggers c f)) (co_trigger_lru c)"
    "hp_triggers (snd (expire_trigger f c)) = hp_triggers c" "co_now (snd (expire_trigger f c)) = co_now c"
    "trace_known (snd (expire_trigger f c)) = trace_known c"
proof -
  note d = co_invD [OF inv] and tl = trigger_linksD [OF co_invD(4) [OF inv] f]
  define s where "s = (\<lambda>b. if b \<in> snd ` set (ctg_traces (hp_triggers c f))
    then (hp_traces c b)\<lparr>ctr_triggers := mdel t (ctr_triggers (hp_traces c b))\<rparr> else hp_traces c b)"
  have idf: "ctg_id (hp_triggers c f) = t" using registryD(3) [OF d(2) f] .
  let ?c = "snd (expire_trigger f c)"
  have e: "?c = c\<lparr>hp_traces := s, co_triggers := mdel t (co_triggers c),
      co_trigger_lru := list_Remove (ctg_lru_entry (hp_triggers c f)) (co_trigger_lru c)\<rparr>"
    by (simp add: expire_trigger_def Let_def idf unlink_traces_fold s_def cong: if_cong)
  have fr: "ctr_id (s b) = ctr_id (hp_traces c b)" "ctr_lru_entry (s b) = ctr_lru_entry (hp_traces c b)"
    "ctr_last_modified (s b) = ctr_last_modified (hp_traces c b)" "ctr_known_at (s b) = ctr_known_at (hp_traces c b)" for b
    by (simp_all add: s_def)
  have trig: "mok (ctr_triggers (s b)) \<and> mget (ctr_triggers (s b)) = (mget (ctr_triggers (hp_traces c b)))(t := None)"
    if b: "mget (co_traces c) j = Some b" for j b
  proof (cases "b \<in> snd ` set (ctg_traces (hp_triggers c f))")
    case True
    then show ?thesis using trace_linksD(1) [OF d(3) b] by (simp add: s_def mget_mdel)
  next
    case False
    have "mget (ctr_triggers (hp_traces c b)) t = None"
    proof (rule ccontr)
      assume "mget (ctr_triggers (hp_traces c b)) t \<noteq> None"
      then obtain g where "mget (ctr_triggers (hp_traces c b)) t = Some g" by auto
      with trace_linksD(3) [OF d(3) b] f have "mget (ctg_traces (hp_triggers c f)) j = Some b" by auto
      with False show False by (force dest: map_of_SomeD)
    qed
    with False show ?thesis using trace_linksD(1) [OF d(3) b] by (auto simp: s_def fun_eq_iff)
  qed
  have "trigger_reg ?c" using registry_drop [OF d(2) f] by (simp add: e)
  moreover have "trace_reg ?c" using d(1) by (simp add: e fr)
  moreover have "trace_links ?c"
    unfolding trace_links_def using trace_linksD [OF d(3)] trig by (auto simp: e fr mget_mdel)
  moreover have "trigger_links ?c"
    unfolding trigger_links_def using trigger_linksD [OF d(4)] by (auto simp: e mget_mdel split: if_splits)
  ultimately show "co_inv ?c" by (simp add: co_inv_def)
  show "fst (expire_trigger f c) = finished_of (hp_triggers c f)"
    by (simp add: expire_trigger_def Let_def finished_of_def)
  show "co_triggers ?c = mdel t (co_triggers c)"
    "co_trigger_lru ?c = list_Remove (ctg_lru_entry (hp_triggers c f)) (co_trigger_lru c)"
    "hp_triggers ?c = hp_triggers c" "co_now ?c = co_now c" by (simp_all add: e)
  show "trace_known ?c = trace_known c" by (simp add: view_defs fun_eq_iff e fr split: option.split)
qed

lemma expire_trace_ok:
  assumes inv: "co_inv c" and a: "mget (co_traces c) i = Some a"
  shows "co_inv (expire_trace a c)" "co_traces (expire_trace a c) = mdel i (co_traces c)"
    "co_trace_lru (expire_trace a c) = list_Remove (ctr_lru_entry (hp_traces c a)) (co_trace_lru c)"
    "hp_traces (expire_trace a c) = hp_traces c" "co_now (expire_trace a c) = co_now c"
    "trigger_known (expire_trace a c) = trigger_known c"
    "trigger_traces (expire_trace a c) = (\<lambda>t. trigger_traces c t - {i})"
    "co_triggers (expire_trace a c) = co_triggers c"
proof -
  note d = co_invD [OF inv] and tl = trace_linksD [OF co_invD(3) [OF inv] a]
  define s where "s = (\<lambda>b. if b \<in> snd ` set (ctr_triggers (hp_traces c a))
    then (hp_triggers c b)\<lparr>ctg_traces := mdel i (ctg_traces (hp_triggers c b))\<rparr> else hp_triggers c b)"
  have ida: "ctr_id (hp_traces c a) = i" using registryD(3) [OF d(1) a] .
  let ?c = "expire_trace a c"
  have e: "?c = c\<lparr>hp_triggers := s, co_traces := mdel i (co_traces c),
      co_trace_lru := list_Remove (ctr_lru_entry (hp_traces c a)) (co_trace_lru c)\<rparr>"
    by (simp add: expire_trace_def Let_def ida unlink_triggers_fold s_def cong: if_cong)
  have fr: "ctg_id (s b) = ctg_id (hp_triggers c b)" "ctg_lru_entry (s b) = ctg_lru_entry (hp_triggers c b)"
    "ctg_last_modified (s b) = ctg_last_modified (hp_triggers c b)" "ctg_known_at (s b) = ctg_known_at (hp_triggers c b)" for b
    by (simp_all add: s_def)
  have trac: "mok (ctg_traces (s g)) \<and> mget (ctg_traces (s g)) = (mget (ctg_traces (hp_triggers c g)))(i := None) \<and>
      fst ` set (ctg_traces (s g)) = fst ` set (ctg_traces (hp_triggers c g)) - {i}"
    if g: "mget (co_triggers c) t = Some g" for t g
  proof (cases "g \<in> snd ` set (ctr_triggers (hp_traces c a))")
    case True
    then show ?thesis using trigger_linksD(1) [OF d(4) g] by (simp add: s_def mget_mdel dom_mdel)
  next
    case False
    have none: "mget (ctg_traces (hp_triggers c g)) i = None"
    proof (rule ccontr)
      assume "mget (ctg_traces (hp_triggers c g)) i \<noteq> None"
      then obtain b where "mget (ctg_traces (hp_triggers c g)) i = Some b" by auto
      with trigger_linksD(3) [OF d(4) g this] a have "mget (ctg_traces (hp_triggers c g)) i = Some a" by simp
      with tl(3) g have "mget (ctr_triggers (hp_traces c a)) t = Some g" by blast
      with False show False by (force dest: map_of_SomeD)
    qed
    then have "i \<notin> fst ` set (ctg_traces (hp_triggers c g))" by (simp add: mget_None_keys)
    with none False show ?thesis using trigger_linksD(1) [OF d(4) g] by (auto simp: s_def fun_eq_iff)
  qed
  have "trace_reg ?c" using registry_drop [OF d(1) a] by (simp add: e)
  moreover have "trigger_reg ?c" using d(2) by (simp add: e fr)
  moreover have "trace_links ?c"
    unfolding trace_links_def using trace_linksD [OF d(3)] trac
    by (auto simp: e mget_mdel split: if_splits)
  moreover have "trigger_links ?c"
    unfolding trigger_links_def using trigger_linksD [OF d(4)] trac by (auto simp: e fr mget_mdel)
  ultimately show "co_inv ?c" by (simp add: co_inv_def)
  show "co_traces ?c = mdel i (co_traces c)"
    "co_trace_lru ?c = list_Remove (ctr_lru_entry (hp_traces c a)) (co_trace_lru c)"
    "hp_traces ?c = hp_traces c" "co_now ?c = co_now c" "co_triggers ?c = co_triggers c" by (simp_all add: e)
  show "trigger_known ?c = trigger_known c" by (simp add: view_defs fun_eq_iff e fr split: option.split)
  show "trigger_traces ?c = (\<lambda>t. trigger_traces c t - {i})"
    using trac by (auto simp: view_defs fun_eq_iff e split: option.splits)
qed

lemma triggers_registered:
  assumes inv: "co_inv c" and i: "i \<in> trigger_traces c t"
  shows "mget (co_traces c) i \<noteq> None"
proof -
  from i obtain f where f: "mget (co_triggers c) t = Some f" by (auto simp: trigger_traces_def split: option.splits)
  with i have "mget (ctg_traces (hp_triggers c f)) i \<noteq> None" unfolding mget_dom trigger_view(2) [OF f] by simp
  with trigger_linksD(3) [OF co_invD(4) [OF inv] f] show ?thesis by auto
qed

end
