(* ===== verification/Coord_Refine.thy ===== *)
theory Coord_Refine
  imports Coord_Correct
begin

text \<open>
  What the coordinator promises: an abstract coordinator that keeps for each trigger a set of
  traces and a set of agents and for each trace a set of agents, and the theorems that the
  operations of \<^verbatim>\<open>pkg/coordinator/coordinator.go\<close> implement it; expiration removes exactly what
  has not been used since the cutoff.
\<close>

section \<open>The abstract coordinator\<close>

record coord_spec =
  sp_traces :: "CoordTriggerID \<Rightarrow> u64 set"
  sp_trigger_known :: "CoordTriggerID \<Rightarrow> string set"
  sp_trace_known :: "u64 \<Rightarrow> string set"

definition coord_abs :: "Coordinator \<Rightarrow> coord_spec" where
  "coord_abs c = \<lparr>sp_traces = trigger_traces c, sp_trigger_known = trigger_known c, sp_trace_known = trace_known c\<rparr>"

definition spec_AddTrigger :: "string \<Rightarrow> CoordTriggerID \<Rightarrow> u64 set \<Rightarrow> coord_spec \<Rightarrow> string set \<times> coord_spec" where
  "spec_AddTrigger src t ids s =
     (let new = ids - sp_traces s t;
          known = insert src (sp_trigger_known s t) \<union> (\<Union>i \<in> new. sp_trace_known s i)
      in (if new = {} then {} else known - {src},
          \<lparr>sp_traces = (sp_traces s)(t := sp_traces s t \<union> ids), sp_trigger_known = (sp_trigger_known s)(t := known),
           sp_trace_known = (\<lambda>i. if i \<in> new then insert src (sp_trace_known s i) else sp_trace_known s i)\<rparr>))"

definition spec_AddBreadcrumb ::
    "string \<Rightarrow> u64 \<Rightarrow> string set \<Rightarrow> coord_spec \<Rightarrow> (string \<Rightarrow> (CoordTriggerID \<times> u64 set) set) \<times> coord_spec" where
  "spec_AddBreadcrumb src i addrs s =
     (let new = insert src addrs - sp_trace_known s i
      in (\<lambda>addr. if addr \<in> new
            then {(t, sp_traces s t) | t. i \<in> sp_traces s t \<and> addr \<notin> sp_trigger_known s t} else {},
          s\<lparr>sp_trace_known := (sp_trace_known s)(i := insert src (addrs \<union> sp_trace_known s i)),
            sp_trigger_known := (\<lambda>t. if i \<in> sp_traces s t then sp_trigger_known s t \<union> new else sp_trigger_known s t)\<rparr>))"

section \<open>Expiration\<close>

definition keep :: "(nat \<Rightarrow> bool) \<Rightarrow> ('k \<Rightarrow> nat option) \<Rightarrow> 'k \<Rightarrow> nat option" where
  "keep P m k = (case m k of None \<Rightarrow> None | Some a \<Rightarrow> if P a then Some a else None)"

lemma keep_all: "(\<And>k a. m k = Some a \<Longrightarrow> P a) \<Longrightarrow> keep P m = m"
  by (auto simp: keep_def fun_eq_iff split: option.split)

lemma keep_drop: "m k = Some a \<Longrightarrow> \<not> P a \<Longrightarrow> keep P (m(k := None)) = keep P m"
  by (auto simp: keep_def fun_eq_iff)

text \<open>The least recently used entry is the one to look at; if it stays, they all stay.\<close>

lemma registry_back:
  assumes r: "registry_ok m l key entry stamp nxt now" and ps: "elems l = ps @ [(e, a)]"
  shows "mget m (key a) = Some a" "entry a = e"
    "cutoff < stamp a \<Longrightarrow> mget m k = Some b \<Longrightarrow> cutoff < stamp b"
    "cutoff < stamp a \<Longrightarrow> filter (\<lambda>(e, b). stamp b \<le> cutoff) (elems l) = []"
proof -
  note d = registryD [OF r]
  have "(e, a) \<in> set (elems l)" by (simp add: ps)
  with d(6) show a: "mget m (key a) = Some a" "entry a = e" by blast+
  have min: "stamp a \<le> stamp b" if "(e', b) \<in> set (elems l)" for e' b
    using lru_sorted_last_le [OF d(7) that] by (simp add: ps)
  show "cutoff < stamp b" if "cutoff < stamp a" "mget m k = Some b"
    using min [of "entry b" b] d(3) [OF that(2)] d(6) that by simp
  show "filter (\<lambda>(e, b). stamp b \<le> cutoff) (elems l) = []" if "cutoff < stamp a"
    using min that unfolding filter_empty_conv by fastforce
qed

lemma trigger_expiration_loop_ok:
  assumes "co_inv c"
  shows "\<exists>c'. trigger_expiration_loop cutoff fin c =
      Some (fin @ map (\<lambda>(e, f). finished_of (hp_triggers c f))
        (rev (filter (\<lambda>(e, f). ctg_last_modified (hp_triggers c f) \<le> cutoff) (elems (co_trigger_lru c)))), c') \<and>
    co_inv c' \<and> co_now c' = co_now c \<and> hp_triggers c' = hp_triggers c \<and> trace_known c' = trace_known c \<and>
    mget (co_triggers c') = keep (\<lambda>f. cutoff < ctg_last_modified (hp_triggers c f)) (mget (co_triggers c))"
  using assms
proof (induction "length (elems (co_trigger_lru c))" arbitrary: c fin)
  case 0
  then have "mget (co_triggers c) t = None" for t
    using registryD(3,6) [OF co_invD(2) [OF 0(2)]] by (cases "mget (co_triggers c) t") force+
  with 0 show ?case
    by (subst trigger_expiration_loop.simps) (simp add: list_Back_def keep_def fun_eq_iff)
next
  case (Suc n)
  then obtain ps e f where ps: "elems (co_trigger_lru c) = ps @ [(e, f)]"
    by (metis append_butlast_last_id length_0_conv nat.distinct(1) surj_pair)
  note r = co_invD(2) [OF Suc.prems] and b = registry_back [OF co_invD(2) [OF Suc.prems] ps]
  have bk: "list_Back (co_trigger_lru c) = Some (e, f)" by (simp add: list_Back_def ps)
  show ?case
  proof (cases "cutoff < ctg_last_modified (hp_triggers c f)")
    case True
    have "keep (\<lambda>f. cutoff < ctg_last_modified (hp_triggers c f)) (mget (co_triggers c)) = mget (co_triggers c)"
      by (rule keep_all) (rule b(3) [OF True])
    with True Suc.prems b(4) [OF True] show ?thesis
      by (subst trigger_expiration_loop.simps) (simp add: bk)
  next
    case False
    let ?c = "snd (expire_trigger f c)"
    note x = expire_trigger_ok [OF Suc.prems b(1)]
    have el: "elems (co_trigger_lru ?c) = ps"
      using lst.remove_last [OF registryD(2) [OF r] ps] x(4) b(2) by simp
    have "trigger_expiration_loop cutoff fin c =
        trigger_expiration_loop cutoff (fin @ [finished_of (hp_triggers c f)]) ?c"
      using False x(2) by (subst trigger_expiration_loop.simps) (simp add: bk Let_def)
    moreover have "n = length (elems (co_trigger_lru ?c))" using el Suc.hyps(2) ps by simp
    from Suc.hyps(1) [OF this x(1), of "fin @ [finished_of (hp_triggers c f)]"]
    have "\<exists>c'. trigger_expiration_loop cutoff (fin @ [finished_of (hp_triggers c f)]) ?c =
      Some (fin @ [finished_of (hp_triggers c f)] @ map (\<lambda>(e, f). finished_of (hp_triggers c f))
        (rev (filter (\<lambda>(e, f). ctg_last_modified (hp_triggers c f) \<le> cutoff) ps)), c') \<and>
      co_inv c' \<and> co_now c' = co_now c \<and> hp_triggers c' = hp_triggers c \<and> trace_known c' = trace_known c \<and>
      mget (co_triggers c') = keep (\<lambda>f. cutoff < ctg_last_modified (hp_triggers c f)) (mget (co_triggers ?c))"
      unfolding x(5,6,7) el by simp
    moreover have "keep (\<lambda>f. cutoff < ctg_last_modified (hp_triggers c f)) (mget (co_triggers ?c)) =
        keep (\<lambda>f. cutoff < ctg_last_modified (hp_triggers c f)) (mget (co_triggers c))"
      using keep_drop [where m = "mget (co_triggers c)", OF b(1)] False by (simp add: x(3) mget_mdel)
    ultimately show ?thesis using False by (simp add: ps)
  qed
qed

lemma checkTraceExpiration_ok:
  assumes "co_inv c"
  shows "\<exists>c'. checkTraceExpiration cutoff c = Some c' \<and> co_inv c' \<and> co_now c' = co_now c \<and>
    hp_traces c' = hp_traces c \<and> trigger_known c' = trigger_known c \<and> co_triggers c' = co_triggers c \<and>
    mget (co_traces c') = keep (\<lambda>a. cutoff < ctr_last_modified (hp_traces c a)) (mget (co_traces c)) \<and>
    (\<forall>t. trigger_traces c' t = {i \<in> trigger_traces c t. mget (co_traces c') i \<noteq> None})"
  using assms
proof (induction "length (elems (co_trace_lru c))" arbitrary: c)
  case 0
  then have none: "mget (co_traces c) t = None" for t
    using registryD(3,6) [OF co_invD(1) [OF 0(2)]] by (cases "mget (co_traces c) t") force+
  have "trigger_traces c t = {}" for t
    using triggers_registered [OF 0(2)] none by auto
  with 0 none show ?case
    by (subst checkTraceExpiration.simps) (simp add: list_Back_def keep_def fun_eq_iff)
next
  case (Suc n)
  then obtain ps e a where ps: "elems (co_trace_lru c) = ps @ [(e, a)]"
    by (metis append_butlast_last_id length_0_conv nat.distinct(1) surj_pair)
  note r = co_invD(1) [OF Suc.prems] and b = registry_back [OF co_invD(1) [OF Suc.prems] ps]
  have bk: "list_Back (co_trace_lru c) = Some (e, a)" by (simp add: list_Back_def ps)
  let ?P = "\<lambda>a. cutoff < ctr_last_modified (hp_traces c a)"
  show ?case
  proof (cases "cutoff < ctr_last_modified (hp_traces c a)")
    case True
    have "keep ?P (mget (co_traces c)) = mget (co_traces c)" by (rule keep_all) (rule b(3) [OF True])
    moreover have "trigger_traces c t = {i \<in> trigger_traces c t. mget (co_traces c) i \<noteq> None}" for t
      using triggers_registered [OF Suc.prems] by blast
    ultimately show ?thesis using True Suc.prems
      by (subst checkTraceExpiration.simps) (simp add: bk)
  next
    case False
    let ?c = "expire_trace a c" and ?i = "ctr_id (hp_traces c a)"
    note x = expire_trace_ok [OF Suc.prems b(1)]
    have el: "elems (co_trace_lru ?c) = ps"
      using lst.remove_last [OF registryD(2) [OF r] ps] x(3) b(2) by simp
    have step: "checkTraceExpiration cutoff c = checkTraceExpiration cutoff ?c"
      using False by (subst checkTraceExpiration.simps) (simp add: bk)
    have keep: "keep ?P (mget (co_traces ?c)) = keep ?P (mget (co_traces c))"
      using keep_drop [where m = "mget (co_traces c)", OF b(1)] False by (simp add: x(2) mget_mdel)
    have "n = length (elems (co_trace_lru ?c))" using el Suc.hyps(2) ps by simp
    from Suc.hyps(1) [OF this x(1)] obtain c' where c': "checkTraceExpiration cutoff ?c = Some c'" "co_inv c'"
      "co_now c' = co_now ?c" "hp_traces c' = hp_traces ?c" "trigger_known c' = trigger_known ?c" "co_triggers c' = co_triggers ?c"
      "mget (co_traces c') = keep (\<lambda>a. cutoff < ctr_last_modified (hp_traces ?c a)) (mget (co_traces ?c))"
      "\<And>t. trigger_traces c' t = {i \<in> trigger_traces ?c t. mget (co_traces c') i \<noteq> None}" by blast
    have "mget (co_traces c') ?i = None" using c'(7) by (simp add: keep_def x(2) mget_mdel)
    then have tt: "trigger_traces c' t = {i \<in> trigger_traces c t. mget (co_traces c') i \<noteq> None}" for t
      unfolding c'(8) x(7) by auto
    have "mget (co_traces c') = keep ?P (mget (co_traces c))" unfolding c'(7) x(4) by (rule keep)
    with tt step c'(1-6) x(4,5,6,8) show ?thesis by (intro exI [of _ c']) simp
  qed
qed

section \<open>Properties\<close>

text \<open>C6: \<^verbatim>\<open>AddTrigger\<close> implements the abstract coordinator: the traces of the trigger grow by the
  named ones, the trigger becomes known at the sender and wherever a newly attached trace is known,
  the newly attached traces become known at the sender, and the trigger is forwarded to every other
  agent that knows it exactly if its set of traces grew.  The invariant is kept.\<close>

theorem AddTrigger_refines:
  assumes "co_inv c" and "AddTrigger src g c = (out, c')"
  shows "co_inv c' \<and> (set out, coord_abs c') = spec_AddTrigger src (cg_id g) (set (cg_trace_ids g)) (coord_abs c)"
  using AddTrigger_ok [OF assms] by (simp add: spec_AddTrigger_def coord_abs_def Let_def cong: if_cong)

text \<open>C7: \<^verbatim>\<open>AddBreadcrumb\<close> implements the abstract coordinator: each address at which the trace was
  not known yet, the sender included, is sent exactly those triggers of the trace it does not know,
  each with all its traces, and knows them afterwards; the trace becomes known at all the addresses.
  The invariant is kept.\<close>

theorem AddBreadcrumb_refines:
  assumes "co_inv c" and "AddBreadcrumb src i addrs c = (out, c')"
  shows "co_inv c' \<and> (dissem_at out, coord_abs c') = spec_AddBreadcrumb src i (set addrs) (coord_abs c)"
  using AddBreadcrumb_ok [OF assms] by (simp add: spec_AddBreadcrumb_def coord_abs_def Let_def cong: if_cong)

text \<open>C32: Expiring triggers returns, removes exactly the triggers not modified since the cutoff,
  with their links, reports each of them once, the least recently used first, and keeps the
  invariant.\<close>

theorem triggers_expire_exactly:
  assumes "co_inv c"
  shows "\<exists>c'. checkTriggerExpiration cutoff c =
      Some (map (\<lambda>(e, f). finished_of (hp_triggers c f))
        (rev (filter (\<lambda>(e, f). ctg_last_modified (hp_triggers c f) \<le> cutoff) (elems (co_trigger_lru c)))), c') \<and>
    co_inv c' \<and> trace_known c' = trace_known c \<and>
    (\<forall>t. mget (co_triggers c') t \<noteq> None \<longleftrightarrow>
       (\<exists>f. mget (co_triggers c) t = Some f \<and> cutoff < ctg_last_modified (hp_triggers c f))) \<and>
    (\<forall>t. trigger_traces c' t = (if mget (co_triggers c') t = None then {} else trigger_traces c t)) \<and>
    (\<forall>t. trigger_known c' t = (if mget (co_triggers c') t = None then {} else trigger_known c t))"
proof -
  obtain c' where c': "trigger_expiration_loop cutoff [] c =
      Some (map (\<lambda>(e, f). finished_of (hp_triggers c f))
        (rev (filter (\<lambda>(e, f). ctg_last_modified (hp_triggers c f) \<le> cutoff) (elems (co_trigger_lru c)))), c')"
    "co_inv c'" "hp_triggers c' = hp_triggers c" "trace_known c' = trace_known c"
    "mget (co_triggers c') = keep (\<lambda>f. cutoff < ctg_last_modified (hp_triggers c f)) (mget (co_triggers c))"
    using trigger_expiration_loop_ok [OF assms, of cutoff "[]"] by auto
  have "mget (co_triggers c') t \<noteq> None \<longleftrightarrow>
       (\<exists>f. mget (co_triggers c) t = Some f \<and> cutoff < ctg_last_modified (hp_triggers c f))" for t
    by (simp add: c'(5) keep_def split: option.split)
  moreover have "trigger_traces c' t = (if mget (co_triggers c') t = None then {} else trigger_traces c t)"
    "trigger_known c' t = (if mget (co_triggers c') t = None then {} else trigger_known c t)" for t
    by (simp_all add: view_defs c'(3,5) keep_def split: option.split)
  ultimately show ?thesis using c' by (simp add: checkTriggerExpiration_def)
qed

text \<open>Expiring traces returns, removes exactly the traces not modified since the cutoff from the
  coordinator and from all their triggers, forgets no trigger, and keeps the invariant.\<close>

theorem traces_expire_exactly:
  assumes "co_inv c"
  shows "\<exists>c'. checkTraceExpiration cutoff c = Some c' \<and> co_inv c' \<and> co_triggers c' = co_triggers c \<and>
    trigger_known c' = trigger_known c \<and>
    (\<forall>i. mget (co_traces c') i \<noteq> None \<longleftrightarrow>
       (\<exists>a. mget (co_traces c) i = Some a \<and> cutoff < ctr_last_modified (hp_traces c a))) \<and>
    (\<forall>i. trace_known c' i = (if mget (co_traces c') i = None then {} else trace_known c i)) \<and>
    (\<forall>t. trigger_traces c' t = {i \<in> trigger_traces c t. mget (co_traces c') i \<noteq> None})"
proof -
  obtain c' where c': "checkTraceExpiration cutoff c = Some c'" "co_inv c'" "hp_traces c' = hp_traces c"
    "trigger_known c' = trigger_known c" "co_triggers c' = co_triggers c"
    "mget (co_traces c') = keep (\<lambda>a. cutoff < ctr_last_modified (hp_traces c a)) (mget (co_traces c))"
    "\<And>t. trigger_traces c' t = {i \<in> trigger_traces c t. mget (co_traces c') i \<noteq> None}"
    using checkTraceExpiration_ok [OF assms, of cutoff] by blast
  have "mget (co_traces c') i \<noteq> None \<longleftrightarrow>
       (\<exists>a. mget (co_traces c) i = Some a \<and> cutoff < ctr_last_modified (hp_traces c a))" for i
    by (simp add: c'(6) keep_def split: option.split)
  moreover have "trace_known c' i = (if mget (co_traces c') i = None then {} else trace_known c i)" for i
    by (simp add: view_defs c'(3,6) keep_def split: option.split)
  ultimately show ?thesis using c' by simp
qed

section \<open>Witnesses\<close>

definition demo_trigger :: "int \<Rightarrow> u64 list \<Rightarrow> CoordTrigger" where
  "demo_trigger q ids = \<lparr>cg_id = \<lparr>ct_queue_id = q, ct_base_trace_id = 1\<rparr>, cg_trace_ids = ids\<rparr>"

text \<open>Agent A fires a trigger for trace 1; agent B learns of it by a breadcrumb.\<close>

definition demo_co :: Coordinator where
  "demo_co = snd (AddTrigger ''A'' (demo_trigger 1 [1]) (Coordinator_Init 5))"

lemmas coord_ops = AddTrigger_def AddBreadcrumb_def getTrigger_def getTrace_def touch_trigger_def touch_trace_def
  link_trace_def disseminate_addr_def disseminate_trigger_def know_all_def triggerstate_Trigger_def cupd_defs Coordinator_Init_def
  list_New_def list_PushFront_def list_MoveToFront_def demo_trigger_def Let_def

lemma demo_co_inv: "co_inv demo_co"
  unfolding demo_co_def using AddTrigger_ok(1) [OF co_inv_Init, of "''A''" "demo_trigger 1 [1]" 5]
  by (metis prod.collapse)

theorem AddTrigger_refines_witness:
  "AddTrigger ''C'' (demo_trigger 1 [2]) demo_co = ([''A''], snd (AddTrigger ''C'' (demo_trigger 1 [2]) demo_co)) \<and>
   ({''A''}, coord_abs (snd (AddTrigger ''C'' (demo_trigger 1 [2]) demo_co))) =
     spec_AddTrigger ''C'' (cg_id (demo_trigger 1 [2])) {2} (coord_abs demo_co)"
proof -
  have e: "AddTrigger ''C'' (demo_trigger 1 [2]) demo_co = ([''A''], snd (AddTrigger ''C'' (demo_trigger 1 [2]) demo_co))"
    by (rule prod_eqI) (simp_all add: demo_co_def coord_ops)
  show ?thesis using AddTrigger_refines [OF demo_co_inv e] e by (simp add: demo_trigger_def)
qed

theorem AddBreadcrumb_refines_witness:
  "AddBreadcrumb ''A'' 1 [''B''] demo_co = ([(''B'', [demo_trigger 1 [1]])], snd (AddBreadcrumb ''A'' 1 [''B''] demo_co)) \<and>
   (dissem_at [(''B'', [demo_trigger 1 [1]])], coord_abs (snd (AddBreadcrumb ''A'' 1 [''B''] demo_co))) =
     spec_AddBreadcrumb ''A'' 1 {''B''} (coord_abs demo_co)"
proof -
  have e: "AddBreadcrumb ''A'' 1 [''B''] demo_co = ([(''B'', [demo_trigger 1 [1]])], snd (AddBreadcrumb ''A'' 1 [''B''] demo_co))"
    by (rule prod_eqI) (simp_all add: demo_co_def coord_ops)
  show ?thesis using AddBreadcrumb_refines [OF demo_co_inv e] e by simp
qed

theorem triggers_expire_exactly_witness:
  "map_option fst (checkTriggerExpiration 5 demo_co) =
     Some [\<lparr>fin_queue_id = 1, fin_total_agents = 1, fin_dissemination_time = 0\<rparr>] \<and>
   (\<exists>c'. checkTriggerExpiration 5 demo_co =
      Some (map (\<lambda>(e, f). finished_of (hp_triggers demo_co f))
        (rev (filter (\<lambda>(e, f). ctg_last_modified (hp_triggers demo_co f) \<le> 5) (elems (co_trigger_lru demo_co)))), c') \<and> co_inv c')"
proof
  show "map_option fst (checkTriggerExpiration 5 demo_co) =
     Some [\<lparr>fin_queue_id = 1, fin_total_agents = 1, fin_dissemination_time = 0\<rparr>]"
    unfolding checkTriggerExpiration_def
    by (subst trigger_expiration_loop.simps, simp add: demo_co_def coord_ops list_Back_def expire_trigger_def list_Remove_def,
        subst trigger_expiration_loop.simps, simp add: list_Back_def)
qed (use triggers_expire_exactly [OF demo_co_inv, of 5] in blast)

theorem traces_expire_exactly_witness:
  "map_option co_traces (checkTraceExpiration 5 demo_co) = Some [] \<and>
   (\<exists>c'. checkTraceExpiration 5 demo_co = Some c' \<and> co_inv c' \<and> co_triggers c' = co_triggers demo_co)"
proof
  show "map_option co_traces (checkTraceExpiration 5 demo_co) = Some []"
    by (subst checkTraceExpiration.simps, simp add: demo_co_def coord_ops list_Back_def expire_trace_def list_Remove_def,
        subst checkTraceExpiration.simps, simp add: list_Back_def)
qed (use traces_expire_exactly [OF demo_co_inv, of 5] in blast)

section \<open>Triggers that are not disseminated\<close>


end
