(* ===== verification/Coord_Server.thy ===== *)
theory Coord_Server
  imports Messages Go_Chan Coord_Refine
begin

text \<open>
  The coordinator's server (\<^verbatim>\<open>pkg/coordinator/server.go\<close>, and the channel of
  \<^verbatim>\<open>pkg/coordinator/logger.go\<close>): the requests of the agents, the main goroutine that processes
  them, and the queues of triggers to be sent to agents.  Each reading of the clock is an argument.
  An \<^verbatim>\<open>Agent\<close> is only reached through the map of the server, so the map holds the records
  themselves.
\<close>

section \<open>State\<close>

record ServerAgent =
  sa_addr :: string
  sa_id_to_addr :: "(32 word, string) gomap"
  sa_outgoing_triggers :: "CoordTrigger list chan"
  sa_dropped_triggers :: int
  sa_last_warn :: time

record CsvLogger =
  lg_Finished :: "FinishedTrigger list chan"
  lg_dropped_finished :: int

record CoordinatorServer =
  sv_timeout :: duration
  sv_c :: Coordinator
  sv_agents :: "(string, ServerAgent) gomap"
  sv_incoming_triggers :: "TriggerRequest chan"
  sv_incoming_breadcrumbs :: "BreadcrumbsRequest chan"
  sv_dropped_incoming_triggers :: u64
  sv_dropped_incoming_breadcrumbs :: u64
  sv_last_trigger_warning :: time
  sv_last_breadcrumb_warning :: time
  sv_logger :: "CsvLogger option"

definition second :: duration where
  "second = 1000000000"

definition NewCsvLogger :: CsvLogger where
  "NewCsvLogger = \<lparr>lg_Finished = chan_make 1000, lg_dropped_finished = 0\<rparr>"

definition server_Init :: "time \<Rightarrow> bool \<Rightarrow> CoordinatorServer" where
  "server_Init now logging =
     \<lparr>sv_timeout = - 60 * second, sv_c = Coordinator_Init now, sv_agents = [],
      sv_incoming_triggers = chan_make 10000, sv_incoming_breadcrumbs = chan_make 10000,
      sv_dropped_incoming_triggers = 0, sv_dropped_incoming_breadcrumbs = 0,
      sv_last_trigger_warning = now, sv_last_breadcrumb_warning = now,
      sv_logger = (if logging then Some NewCsvLogger else None)\<rparr>"

definition Agent_Init :: "time \<Rightarrow> string \<Rightarrow> ServerAgent" where
  "Agent_Init now addr = \<lparr>sa_addr = addr, sa_id_to_addr = [], sa_outgoing_triggers = chan_make 10000,
     sa_dropped_triggers = 0, sa_last_warn = now\<rparr>"

text \<open>\<^verbatim>\<open>GetAgent\<close> also starts the goroutine that sends the queued triggers to a new agent.\<close>

definition GetAgent :: "time \<Rightarrow> string \<Rightarrow> CoordinatorServer \<Rightarrow> ServerAgent \<times> CoordinatorServer" where
  "GetAgent now addr s =
     (case mget (sv_agents s) addr of
        Some a \<Rightarrow> (a, s)
      | None \<Rightarrow> (let a = Agent_Init now addr in (a, s\<lparr>sv_agents := mput addr a (sv_agents s)\<rparr>)))"

definition SendTriggers :: "time \<Rightarrow> CoordTrigger list \<Rightarrow> ServerAgent \<Rightarrow> ServerAgent" where
  "SendTriggers now triggers a =
     (if chan_full (sa_outgoing_triggers a)
      then (let a1 = a\<lparr>sa_dropped_triggers := sa_dropped_triggers a + int (length triggers)\<rparr>
            in if sa_last_warn a1 + second < now then a1\<lparr>sa_dropped_triggers := 0, sa_last_warn := now\<rparr> else a1)
      else a\<lparr>sa_outgoing_triggers := chan_send triggers (sa_outgoing_triggers a)\<rparr>)"

text \<open>The statement \<^verbatim>\<open>cs.GetAgent(addr).SendTriggers(triggers)\<close>.\<close>

definition send_to_agent :: "time \<Rightarrow> string \<Rightarrow> CoordTrigger list \<Rightarrow> CoordinatorServer \<Rightarrow> CoordinatorServer" where
  "send_to_agent now addr triggers s =
     (case GetAgent now addr s of (a, s1) \<Rightarrow>
        s1\<lparr>sv_agents := mput addr (SendTriggers now triggers a) (sv_agents s1)\<rparr>)"

definition log_finished :: "FinishedTrigger list \<Rightarrow> CsvLogger \<Rightarrow> CsvLogger" where
  "log_finished finished l =
     (if chan_full (lg_Finished l) then l\<lparr>lg_dropped_finished := lg_dropped_finished l + int (length finished)\<rparr>
      else l\<lparr>lg_Finished := chan_send finished (lg_Finished l)\<rparr>)"

definition checkExpirations :: "time \<Rightarrow> CoordinatorServer \<Rightarrow> CoordinatorServer option" where
  "checkExpirations now s =
     (case checkTraceExpiration (now + sv_timeout s) ((sv_c s)\<lparr>co_now := now\<rparr>) of
        None \<Rightarrow> None
      | Some c1 \<Rightarrow>
          (case checkTriggerExpiration (now + sv_timeout s) c1 of
             None \<Rightarrow> None
           | Some (finished, c2) \<Rightarrow>
               Some (s\<lparr>sv_c := c2,
                       sv_logger := (case sv_logger s of
                           None \<Rightarrow> None
                         | Some l \<Rightarrow> Some (if length finished > 0 then log_finished finished l else l))\<rparr>)))"

section \<open>Requests\<close>

type_synonym to_forward = "(string, CoordTrigger list) gomap"

text \<open>\<^verbatim>\<open>m[k] = append(m[k], vs...)\<close>\<close>

definition mappends :: "'k \<Rightarrow> 'v list \<Rightarrow> ('k, 'v list) gomap \<Rightarrow> ('k, 'v list) gomap" where
  "mappends k vs m = mput k (case mget m k of None \<Rightarrow> vs | Some us \<Rightarrow> us @ vs) m"

definition request_trigger :: "pb_Trigger \<Rightarrow> CoordTrigger" where
  "request_trigger t = \<lparr>cg_id = \<lparr>ct_queue_id = go_int (QueueId t), ct_base_trace_id = BaseTraceId t\<rparr>, cg_trace_ids = TraceIds t\<rparr>"

definition process_trigger :: "string \<Rightarrow> pb_Trigger \<Rightarrow> to_forward \<times> Coordinator \<Rightarrow> to_forward \<times> Coordinator" where
  "process_trigger src t = (\<lambda>(fwd, c).
     let trigger = request_trigger t; (forwarding_addrs, c1) = AddTrigger src trigger c
     in (fold (\<lambda>addr. mappends addr [trigger]) forwarding_addrs fwd, c1))"

text \<open>The clock is read at the start, for the warnings of each agent, and for the expiration.\<close>

definition do_forward :: "(string \<Rightarrow> time) \<Rightarrow> to_forward \<Rightarrow> CoordinatorServer \<Rightarrow> CoordinatorServer" where
  "do_forward clock fwd = fold (\<lambda>(addr, triggers). send_to_agent (clock addr) addr triggers) fwd"

text \<open>The value sent to the waiting RPC handler: nil, or the error.\<close>

datatype reply = Reply_ok | Unmapped_addr_id "32 word" string

definition processTriggersRequest ::
    "time \<Rightarrow> (string \<Rightarrow> time) \<Rightarrow> time \<Rightarrow> TriggerRequest \<Rightarrow> CoordinatorServer \<Rightarrow> (reply \<times> CoordinatorServer) option" where
  "processTriggersRequest now clock now' req s =
     (let (fwd, c) = fold (process_trigger (tr_Src req)) (tr_Triggers req) ([], (sv_c s)\<lparr>co_now := now\<rparr>);
          s1 = do_forward clock fwd (s\<lparr>sv_c := c\<rparr>)
      in map_option (Pair Reply_ok) (checkExpirations now' s1))"

definition register_address :: "BreadcrumbAddress \<Rightarrow> (32 word, string) gomap \<Rightarrow> (32 word, string) gomap" where
  "register_address a = mput (ba_Id a) (ba_Addr a)"

definition unravel_addr ::
    "(32 word, string) gomap \<Rightarrow> string \<Rightarrow> u64 \<Rightarrow> 32 word \<Rightarrow> (u64, string list) gomap \<Rightarrow> reply + (u64, string list) gomap" where
  "unravel_addr tbl src trace_id addr_id breadcrumbs =
     (case mget tbl addr_id of
        Some addr \<Rightarrow> Inr (mappends trace_id [addr] breadcrumbs)
      | None \<Rightarrow> Inl (Unmapped_addr_id addr_id src))"

definition unravel ::
    "(32 word, string) gomap \<Rightarrow> string \<Rightarrow> Breadcrumbs list \<Rightarrow> (u64, string list) gomap \<Rightarrow> reply + (u64, string list) gomap" where
  "unravel tbl src = rfold (\<lambda>b. rfold (unravel_addr tbl src (bs_TraceId b)) (bs_Addrs b))"

definition process_breadcrumb :: "string \<Rightarrow> u64 \<times> string list \<Rightarrow> to_forward \<times> Coordinator \<Rightarrow> to_forward \<times> Coordinator" where
  "process_breadcrumb src = (\<lambda>(trace_id, addrs) (fwd, c).
     let (to_forward, c1) = AddBreadcrumb src trace_id addrs c
     in (fold (\<lambda>(addr, triggers). if length triggers > 0 then mappends addr triggers else id) to_forward fwd, c1))"

definition processBreadcrumbRequest ::
    "time \<Rightarrow> (string \<Rightarrow> time) \<Rightarrow> time \<Rightarrow> BreadcrumbsRequest \<Rightarrow> CoordinatorServer \<Rightarrow> (reply \<times> CoordinatorServer) option" where
  "processBreadcrumbRequest now clock now' req s =
     (let s1 = s\<lparr>sv_c := (sv_c s)\<lparr>co_now := now\<rparr>\<rparr>;
          (origin, s2) = GetAgent (clock (br_Src req)) (br_Src req) s1;
          tbl = fold register_address (br_Addresses req) (sa_id_to_addr origin);
          s3 = s2\<lparr>sv_agents := mput (br_Src req) (origin\<lparr>sa_id_to_addr := tbl\<rparr>) (sv_agents s2)\<rparr>
      in case unravel tbl (br_Src req) (br_Breadcrumbs req) [] of
           Inl e \<Rightarrow> Some (e, s3)
         | Inr breadcrumbs \<Rightarrow>
             (let (fwd, c) = fold (process_breadcrumb (br_Src req)) breadcrumbs ([], sv_c s3);
                  s4 = do_forward clock fwd (s3\<lparr>sv_c := c\<rparr>)
              in map_option (Pair Reply_ok) (checkExpirations now' s4)))"

text \<open>One turn of \<^verbatim>\<open>runCoordinator\<close>, by the branch its \<^verbatim>\<open>select\<close> takes.\<close>

datatype server_event =
    Shutdown time
  | Triggers_in time "string \<Rightarrow> time" time TriggerRequest
  | Breadcrumbs_in time "string \<Rightarrow> time" time BreadcrumbsRequest

fun runCoordinator_turn :: "server_event \<Rightarrow> CoordinatorServer \<Rightarrow> CoordinatorServer option" where
  "runCoordinator_turn (Shutdown now) s =
     (case sv_logger s of
        None \<Rightarrow> Some s
      | Some l \<Rightarrow> map_option (\<lambda>(finished, c). s\<lparr>sv_c := c, sv_logger := Some (log_finished finished l)\<rparr>)
          (checkTriggerExpiration (now + second) (sv_c s)))"
| "runCoordinator_turn (Triggers_in now clock now' req) s =
     map_option snd (processTriggersRequest now clock now' req (s\<lparr>sv_incoming_triggers := chan_receive (sv_incoming_triggers s)\<rparr>))"
| "runCoordinator_turn (Breadcrumbs_in now clock now' req) s =
     map_option snd (processBreadcrumbRequest now clock now' req (s\<lparr>sv_incoming_breadcrumbs := chan_receive (sv_incoming_breadcrumbs s)\<rparr>))"

section \<open>The RPC handlers\<close>

text \<open>
  A handler puts the request into its channel, or counts it as dropped if the channel is full.  It
  then warns at most once a second; \<open>locked\<close> tells whether it obtained the mutex that guards the
  warning.  The answer is empty in each case, with the error the main goroutine reports.
\<close>

definition LocalTrigger :: "bool \<Rightarrow> time \<Rightarrow> time \<Rightarrow> TriggerRequest \<Rightarrow> CoordinatorServer \<Rightarrow> CoordinatorServer" where
  "LocalTrigger locked now now' req s =
     (if chan_full (sv_incoming_triggers s)
      then (let s1 = s\<lparr>sv_dropped_incoming_triggers := sv_dropped_incoming_triggers s + of_nat (length (tr_Triggers req))\<rparr>
            in if locked \<and> sv_last_trigger_warning s1 + second < now
               then (let dropped = sv_dropped_incoming_triggers s1
                     in s1\<lparr>sv_dropped_incoming_triggers := sv_dropped_incoming_triggers s1 + (- dropped),
                           sv_last_trigger_warning := now'\<rparr>)
               else s1)
      else s\<lparr>sv_incoming_triggers := chan_send req (sv_incoming_triggers s)\<rparr>)"

definition server_Breadcrumbs :: "bool \<Rightarrow> time \<Rightarrow> time \<Rightarrow> BreadcrumbsRequest \<Rightarrow> CoordinatorServer \<Rightarrow> CoordinatorServer" where
  "server_Breadcrumbs locked now now' req s =
     (if chan_full (sv_incoming_breadcrumbs s)
      then (let s1 = s\<lparr>sv_dropped_incoming_breadcrumbs := sv_dropped_incoming_breadcrumbs s + of_nat (length (br_Breadcrumbs req))\<rparr>
            in if locked \<and> sv_last_breadcrumb_warning s1 + second < now
               then (let dropped = sv_dropped_incoming_breadcrumbs s1
                     in s1\<lparr>sv_dropped_incoming_breadcrumbs := sv_dropped_incoming_breadcrumbs s1 + (- dropped),
                           sv_last_breadcrumb_warning := now'\<rparr>)
               else s1)
      else s\<lparr>sv_incoming_breadcrumbs := chan_send req (sv_incoming_breadcrumbs s)\<rparr>)"

section \<open>Sending triggers to an agent\<close>

definition remote_request :: "CoordTrigger list \<Rightarrow> TriggerRequest" where
  "remote_request triggers =
     \<lparr>tr_Src = '''',
      tr_Triggers = map (\<lambda>t. \<lparr>QueueId = go_int32 (ct_queue_id (cg_id t)), BaseTraceId = ct_base_trace_id (cg_id t),
        TraceIds = cg_trace_ids t\<rparr>) triggers\<rparr>"

definition doSend :: "(TriggerRequest \<Rightarrow> 'w \<Rightarrow> bool \<times> 'w) \<Rightarrow> CoordTrigger list \<Rightarrow> 'w \<Rightarrow> bool \<times> 'w" where
  "doSend rpc triggers w = rpc (remote_request triggers) w"

definition server_ReportTriggers ::
    "(TriggerRequest \<Rightarrow> 'w \<Rightarrow> bool \<times> 'w) \<Rightarrow> CoordTrigger list selection list \<Rightarrow> 'w \<Rightarrow> outcome \<times> 'w" where
  "server_ReportTriggers rpc = report_loop (\<lambda>triggers. if length triggers > 0 then triggers else []) (doSend rpc)"

end
