(* ===== verification/Server_Correct.thy ===== *)
theory Server_Correct
  imports Coord_Server
begin

text \<open>
  The server keeps its invariant and answers every request; which triggers it queues for which
  agent; and no reachable state of its main loop gets stuck.
\<close>

definition server_inv :: "CoordinatorServer \<Rightarrow> bool" where
  "server_inv s \<longleftrightarrow> co_inv (sv_c s) \<and> mok (sv_agents s) \<and>
     (\<forall>addr a. mget (sv_agents s) addr = Some a \<longrightarrow> sa_addr a = addr)"

definition server_now :: "CoordinatorServer \<Rightarrow> time" where
  "server_now s = co_now (sv_c s)"

lemma server_inv_Init: "server_inv (server_Init now logging)"
  by (simp add: server_inv_def server_Init_def co_inv_Init)

lemma server_inv_fields [simp]:
  "server_inv (s\<lparr>sv_incoming_triggers := x\<rparr>) = server_inv s" "server_inv (s\<lparr>sv_incoming_breadcrumbs := y\<rparr>) = server_inv s"
  "server_now (s\<lparr>sv_incoming_triggers := x\<rparr>) = server_now s" "server_now (s\<lparr>sv_incoming_breadcrumbs := y\<rparr>) = server_now s"
  by (simp_all add: server_inv_def server_now_def)

section \<open>Forwarding\<close>

text \<open>The queue of an agent; an agent not seen before has an empty one.\<close>

definition agent_queue :: "CoordinatorServer \<Rightarrow> string \<Rightarrow> CoordTrigger list chan" where
  "agent_queue s addr = (case mget (sv_agents s) addr of None \<Rightarrow> chan_make 10000 | Some a \<Rightarrow> sa_outgoing_triggers a)"

definition queued :: "CoordTrigger list \<Rightarrow> CoordTrigger list chan \<Rightarrow> CoordTrigger list chan" where
  "queued ms q = (if ms = [] \<or> chan_full q then q else chan_send ms q)"

text \<open>What a map of triggers to forward holds for an address.\<close>

definition forwarded :: "('k, 'v list) gomap \<Rightarrow> 'k \<Rightarrow> 'v list" where
  "forwarded fwd addr = (case mget fwd addr of None \<Rightarrow> [] | Some ms \<Rightarrow> ms)"

lemma forwarded_mappends: "forwarded (mappends k vs m) = (forwarded m)(k := forwarded m k @ vs)"
  by (auto simp: forwarded_def mappends_def mget_mput fun_eq_iff split: option.split)

text \<open>A map of triggers to forward has no empty entry.\<close>

definition fwd_ok :: "to_forward \<Rightarrow> bool" where
  "fwd_ok m \<longleftrightarrow> mok m \<and> (\<forall>(k, ms) \<in> set m. ms \<noteq> [])"

lemma fwd_ok_Nil [simp]: "fwd_ok []"
  by (simp add: fwd_ok_def)

lemma fwd_ok_mappends: "fwd_ok m \<Longrightarrow> ms \<noteq> [] \<Longrightarrow> fwd_ok (mappends k ms m)"
  unfolding fwd_ok_def
  by (auto simp: mappends_def mget_set [symmetric] mget_mput split: if_splits option.splits)

lemma send_to_agent_ok:
  assumes "mok (sv_agents s)" and "\<forall>addr a. mget (sv_agents s) addr = Some a \<longrightarrow> sa_addr a = addr" and "ms \<noteq> []"
  shows "mok (sv_agents (send_to_agent now addr ms s))"
    "\<forall>b a. mget (sv_agents (send_to_agent now addr ms s)) b = Some a \<longrightarrow> sa_addr a = b"
    "agent_queue (send_to_agent now addr ms s) = (agent_queue s)(addr := queued ms (agent_queue s addr))"
    "sv_c (send_to_agent now addr ms s) = sv_c s" "sv_timeout (send_to_agent now addr ms s) = sv_timeout s"
    "sv_logger (send_to_agent now addr ms s) = sv_logger s"
  using assms
  by (auto simp: send_to_agent_def GetAgent_def SendTriggers_def Agent_Init_def agent_queue_def queued_def Let_def mget_mput fun_eq_iff
      split: option.splits)

lemma do_forward_ok:
  assumes "mok (sv_agents s)" and "\<forall>addr a. mget (sv_agents s) addr = Some a \<longrightarrow> sa_addr a = addr"
    and "fwd_ok fwd"
  shows "mok (sv_agents (do_forward clock fwd s)) \<and>
    (\<forall>b a. mget (sv_agents (do_forward clock fwd s)) b = Some a \<longrightarrow> sa_addr a = b) \<and>
    agent_queue (do_forward clock fwd s) = (\<lambda>addr. queued (forwarded fwd addr) (agent_queue s addr)) \<and>
    sv_c (do_forward clock fwd s) = sv_c s \<and> sv_timeout (do_forward clock fwd s) = sv_timeout s \<and>
    sv_logger (do_forward clock fwd s) = sv_logger s"
  using assms
proof (induction fwd arbitrary: s)
  case Nil
  then show ?case by (simp add: do_forward_def forwarded_def queued_def)
next
  case (Cons p fwd)
  obtain addr ms where p: "p = (addr, ms)" by (cases p)
  from Cons.prems(3) have "ms \<noteq> []" "fwd_ok fwd" by (auto simp: p fwd_ok_def mok_def)
  note o = send_to_agent_ok [OF Cons.prems(1,2) this(1), of "clock addr" addr]
  have step: "do_forward clock (p # fwd) s = do_forward clock fwd (send_to_agent (clock addr) addr ms s)"
    by (simp add: do_forward_def p)
  have "addr \<notin> fst ` set fwd" using Cons.prems(3) by (simp add: p mok_def fwd_ok_def)
  then have "forwarded fwd addr = []" by (simp add: forwarded_def map_of_eq_None_iff [THEN iffD2])
  then have q: "queued (forwarded fwd b) (agent_queue (send_to_agent (clock addr) addr ms s) b) =
      queued (forwarded (p # fwd) b) (agent_queue s b)" for b
    by (simp add: o(3) p forwarded_def) (simp add: queued_def)
  from Cons.IH [OF o(1,2) \<open>fwd_ok fwd\<close>] o(4,5,6) show ?case
    unfolding step q by simp
qed

text \<open>The triggers of a request with the addresses they are forwarded to, in order.\<close>

fun forward_list :: "string \<Rightarrow> pb_Trigger list \<Rightarrow> Coordinator \<Rightarrow> (string \<times> CoordTrigger) list" where
  "forward_list src [] c = []"
| "forward_list src (p # ps) c =
     (case AddTrigger src (request_trigger p) c of (addrs, c1) \<Rightarrow>
        map (\<lambda>addr. (addr, request_trigger p)) addrs @ forward_list src ps c1)"

definition sent_to :: "string \<Rightarrow> (string \<times> CoordTrigger) list \<Rightarrow> CoordTrigger list" where
  "sent_to addr ms = map snd (filter (\<lambda>m. fst m = addr) ms)"

lemma sent_to_append [simp]: "sent_to addr (xs @ ys) = sent_to addr xs @ sent_to addr ys"
  by (simp add: sent_to_def)

lemma forward_addrs:
  "forwarded (fold (\<lambda>addr. mappends addr [t]) addrs fwd) = (\<lambda>addr. forwarded fwd addr @ sent_to addr (map (\<lambda>a. (a, t)) addrs)) \<and>
   (fwd_ok fwd \<longrightarrow> fwd_ok (fold (\<lambda>addr. mappends addr [t]) addrs fwd))"
  by (induction addrs arbitrary: fwd) (auto simp: forwarded_mappends sent_to_def fun_eq_iff fwd_ok_mappends)

lemma process_triggers_ok:
  assumes "co_inv c" and "fwd_ok fwd" and "fold (process_trigger src) ps (fwd, c) = (fwd', c')"
  shows "co_inv c' \<and> co_now c' = co_now c \<and> fwd_ok fwd' \<and>
    forwarded fwd' = (\<lambda>addr. forwarded fwd addr @ sent_to addr (forward_list src ps c))"
  using assms
proof (induction ps arbitrary: fwd c)
  case Nil
  then show ?case by (simp add: sent_to_def)
next
  case (Cons p ps)
  obtain addrs c1 where a: "AddTrigger src (request_trigger p) c = (addrs, c1)"
    by (cases "AddTrigger src (request_trigger p) c")
  let ?fwd = "fold (\<lambda>addr. mappends addr [request_trigger p]) addrs fwd"
  note o = AddTrigger_ok [OF Cons.prems(1) a]
  have "process_trigger src p (fwd, c) = (?fwd, c1)" by (simp add: process_trigger_def a)
  with Cons.prems(3) have "fold (process_trigger src) ps (?fwd, c1) = (fwd', c')" by simp
  from Cons.IH [OF o(1) _ this] forward_addrs [of "request_trigger p" addrs fwd] Cons.prems(2) o(2)
  show ?case by (simp add: a)
qed

text \<open>The same for breadcrumbs.\<close>

definition dissem_list :: "dissemination \<Rightarrow> (string \<times> CoordTrigger) list" where
  "dissem_list out = concat (map (\<lambda>(addr, ts). map (Pair addr) ts) out)"

fun crumb_list :: "string \<Rightarrow> (u64 \<times> string list) list \<Rightarrow> Coordinator \<Rightarrow> (string \<times> CoordTrigger) list" where
  "crumb_list src [] c = []"
| "crumb_list src (b # bs) c =
     (case AddBreadcrumb src (fst b) (snd b) c of (out, c1) \<Rightarrow> dissem_list out @ crumb_list src bs c1)"

lemma forward_dissem:
  "forwarded (fold (\<lambda>(addr, ts). if length ts > 0 then mappends addr ts else id) out fwd) =
     (\<lambda>addr. forwarded fwd addr @ sent_to addr (dissem_list out)) \<and>
   (fwd_ok fwd \<longrightarrow> fwd_ok (fold (\<lambda>(addr, ts). if length ts > 0 then mappends addr ts else id) out fwd))"
proof (induction out arbitrary: fwd)
  case Nil
  then show ?case by (simp add: dissem_list_def sent_to_def)
next
  case (Cons p out)
  obtain addr ts where p: "p = (addr, ts)" by (cases p)
  have "sent_to a (dissem_list (p # out)) = (if a = addr then ts else []) @ sent_to a (dissem_list out)" for a
    by (simp add: dissem_list_def p sent_to_def filter_map comp_def)
  with Cons.IH [of "if length ts > 0 then mappends addr ts fwd else fwd"] show ?case
    by (cases "ts = []") (auto simp: p forwarded_mappends fun_eq_iff fwd_ok_mappends)
qed

lemma process_breadcrumbs_ok:
  assumes "co_inv c" and "fwd_ok fwd" and "fold (process_breadcrumb src) bs (fwd, c) = (fwd', c')"
  shows "co_inv c' \<and> co_now c' = co_now c \<and> fwd_ok fwd' \<and>
    forwarded fwd' = (\<lambda>addr. forwarded fwd addr @ sent_to addr (crumb_list src bs c))"
  using assms
proof (induction bs arbitrary: fwd c)
  case Nil
  then show ?case by (simp add: sent_to_def)
next
  case (Cons b bs)
  obtain out c1 where a: "AddBreadcrumb src (fst b) (snd b) c = (out, c1)" by (cases "AddBreadcrumb src (fst b) (snd b) c")
  let ?fwd = "fold (\<lambda>(addr, ts). if length ts > 0 then mappends addr ts else id) out fwd"
  note o = AddBreadcrumb_ok [OF Cons.prems(1) a]
  have "process_breadcrumb src b (fwd, c) = (?fwd, c1)" by (cases b) (use a in \<open>simp add: process_breadcrumb_def\<close>)
  with Cons.prems(3) have "fold (process_breadcrumb src) bs (?fwd, c1) = (fwd', c')" by simp
  from Cons.IH [OF o(1) _ this] forward_dissem [of out fwd] Cons.prems(2) o(2)
  show ?case by (simp add: a)
qed

section \<open>Requests are answered\<close>

lemma checkExpirations_ok:
  assumes "server_inv s" and "server_now s \<le> now"
  shows "\<exists>s'. checkExpirations now s = Some s' \<and> server_inv s' \<and> server_now s' = now \<and> sv_agents s' = sv_agents s"
proof -
  have "co_inv ((sv_c s)\<lparr>co_now := now\<rparr>)" using assms co_inv_now by (simp add: server_inv_def server_now_def)
  from checkTraceExpiration_ok [OF this, of "now + sv_timeout s"] obtain c1 where
    c1: "checkTraceExpiration (now + sv_timeout s) ((sv_c s)\<lparr>co_now := now\<rparr>) = Some c1" "co_inv c1" "co_now c1 = now" by auto
  from trigger_expiration_loop_ok [OF c1(2), of "now + sv_timeout s" "[]"] obtain fin c2 where
    c2: "checkTriggerExpiration (now + sv_timeout s) c1 = Some (fin, c2)" "co_inv c2" "co_now c2 = now"
    using c1(3) by (auto simp: checkTriggerExpiration_def)
  show ?thesis using assms c1 c2 by (simp add: checkExpirations_def server_inv_def server_now_def)
qed

lemma processTriggersRequest_ok:
  assumes inv: "server_inv s" and t: "server_now s \<le> now" "now \<le> now'"
  shows "\<exists>s'. processTriggersRequest now clock now' req s = Some (Reply_ok, s') \<and> server_inv s' \<and> server_now s' = now' \<and>
    agent_queue s' = (\<lambda>addr. queued (sent_to addr (forward_list (tr_Src req) (tr_Triggers req) ((sv_c s)\<lparr>co_now := now\<rparr>))) (agent_queue s addr))"
proof -
  obtain fwd c where f: "fold (process_trigger (tr_Src req)) (tr_Triggers req) ([], (sv_c s)\<lparr>co_now := now\<rparr>) = (fwd, c)"
    by (cases "fold (process_trigger (tr_Src req)) (tr_Triggers req) ([], (sv_c s)\<lparr>co_now := now\<rparr>)")
  have "co_inv ((sv_c s)\<lparr>co_now := now\<rparr>)" using inv t co_inv_now by (simp add: server_inv_def server_now_def)
  note p = process_triggers_ok [OF this fwd_ok_Nil f]
  let ?s = "do_forward clock fwd (s\<lparr>sv_c := c\<rparr>)"
  have d: "mok (sv_agents ?s) \<and> (\<forall>b a. mget (sv_agents ?s) b = Some a \<longrightarrow> sa_addr a = b) \<and>
      agent_queue ?s = (\<lambda>addr. queued (forwarded fwd addr) (agent_queue (s\<lparr>sv_c := c\<rparr>) addr)) \<and> sv_c ?s = c"
    using do_forward_ok [of "s\<lparr>sv_c := c\<rparr>" fwd clock] inv p by (simp add: server_inv_def)
  then have "server_inv ?s" "server_now ?s \<le> now'" using p t by (simp_all add: server_inv_def server_now_def)
  from checkExpirations_ok [OF this] obtain s' where
    s': "checkExpirations now' ?s = Some s'" "server_inv s'" "server_now s' = now'" "sv_agents s' = sv_agents ?s" by blast
  have q: "agent_queue (s\<lparr>sv_c := c\<rparr>) = agent_queue s" "agent_queue s' = agent_queue ?s"
    using s'(4) by (simp_all add: agent_queue_def fun_eq_iff)
  have f0: "forwarded [] addr = []" for addr by (simp add: forwarded_def)
  from s' q d p show ?thesis by (simp add: processTriggersRequest_def f f0)
qed

lemma GetAgent_ok:
  assumes "server_inv s" and "GetAgent now addr s = (a, s')"
  shows "server_inv s'" "sv_c s' = sv_c s" "agent_queue s' = agent_queue s" "mget (sv_agents s') addr = Some a"
    "sa_id_to_addr a = (case mget (sv_agents s) addr of None \<Rightarrow> [] | Some b \<Rightarrow> sa_id_to_addr b)"
  using assms
  by (auto simp: GetAgent_def server_inv_def agent_queue_def Agent_Init_def mget_mput Let_def fun_eq_iff
      split: option.splits if_splits)

text \<open>The addresses an agent has announced.\<close>

definition address_table :: "CoordinatorServer \<Rightarrow> string \<Rightarrow> (32 word, string) gomap" where
  "address_table s src = (case mget (sv_agents s) src of None \<Rightarrow> [] | Some a \<Rightarrow> sa_id_to_addr a)"

lemma register_origin:
  assumes "server_inv s" and "mget (sv_agents s) src = Some a"
  shows "server_inv (s\<lparr>sv_agents := mput src (a\<lparr>sa_id_to_addr := tbl\<rparr>) (sv_agents s)\<rparr>)"
    "agent_queue (s\<lparr>sv_agents := mput src (a\<lparr>sa_id_to_addr := tbl\<rparr>) (sv_agents s)\<rparr>) = agent_queue s"
    "address_table (s\<lparr>sv_agents := mput src (a\<lparr>sa_id_to_addr := tbl\<rparr>) (sv_agents s)\<rparr>) src = tbl"
  using assms
  by (auto simp: server_inv_def agent_queue_def address_table_def mget_mput fun_eq_iff split: option.splits if_splits)

text \<open>
  A request with breadcrumbs either names an unknown address, and then only its announcements are
  recorded, or the triggers its breadcrumbs call for are queued.
\<close>

lemma processBreadcrumbRequest_ok:
  fixes req :: BreadcrumbsRequest
  assumes inv: "server_inv s" and t: "server_now s \<le> now" "now \<le> now'"
  defines "tbl \<equiv> fold register_address (br_Addresses req) (address_table s (br_Src req))"
  shows "\<exists>r s'. processBreadcrumbRequest now clock now' req s = Some (r, s') \<and> server_inv s' \<and> server_now s \<le> server_now s' \<and>
    server_now s' \<le> now' \<and>
    (case unravel tbl (br_Src req) (br_Breadcrumbs req) [] of
       Inl e \<Rightarrow> r = e \<and> agent_queue s' = agent_queue s \<and> address_table s' (br_Src req) = tbl
     | Inr bs \<Rightarrow> r = Reply_ok \<and>
         agent_queue s' = (\<lambda>addr. queued (sent_to addr (crumb_list (br_Src req) bs ((sv_c s)\<lparr>co_now := now\<rparr>))) (agent_queue s addr)))"
proof -
  let ?s1 = "s\<lparr>sv_c := (sv_c s)\<lparr>co_now := now\<rparr>\<rparr>" and ?src = "br_Src req"
  have inv1: "server_inv ?s1" using inv t co_inv_now by (simp add: server_inv_def server_now_def)
  obtain a s2 where g: "GetAgent (clock ?src) ?src ?s1 = (a, s2)" by (cases "GetAgent (clock ?src) ?src ?s1")
  note o = GetAgent_ok [OF inv1 g]
  have tbl: "fold register_address (br_Addresses req) (sa_id_to_addr a) = tbl"
    by (simp add: tbl_def address_table_def o(5))
  define s3 where "s3 = s2\<lparr>sv_agents := mput ?src (a\<lparr>sa_id_to_addr := tbl\<rparr>) (sv_agents s2)\<rparr>"
  note r = register_origin [OF o(1,4), of tbl, folded s3_def]
  have c3: "sv_c s3 = (sv_c s)\<lparr>co_now := now\<rparr>" using o(2) by (simp add: s3_def)
  have q3: "agent_queue s3 = agent_queue s" using r(2) o(3) by (simp add: agent_queue_def fun_eq_iff)
  have n3: "server_now s3 = now" by (simp add: server_now_def c3)
  show ?thesis
  proof (cases "unravel tbl ?src (br_Breadcrumbs req) []")
    case (Inl e)
    then have "processBreadcrumbRequest now clock now' req s = Some (e, s3)"
      by (simp add: processBreadcrumbRequest_def g tbl s3_def Let_def)
    then show ?thesis using Inl r q3 n3 t by simp
  next
    case (Inr bs)
    obtain fwd c where f: "fold (process_breadcrumb ?src) bs ([], sv_c s3) = (fwd, c)"
      by (cases "fold (process_breadcrumb ?src) bs ([], sv_c s3)")
    have "co_inv (sv_c s3)" using r(1) by (simp add: server_inv_def)
    note p = process_breadcrumbs_ok [OF this fwd_ok_Nil f]
    let ?s = "do_forward clock fwd (s3\<lparr>sv_c := c\<rparr>)"
    have d: "mok (sv_agents ?s) \<and> (\<forall>b a. mget (sv_agents ?s) b = Some a \<longrightarrow> sa_addr a = b) \<and>
        agent_queue ?s = (\<lambda>addr. queued (forwarded fwd addr) (agent_queue (s3\<lparr>sv_c := c\<rparr>) addr)) \<and> sv_c ?s = c"
      using do_forward_ok [of "s3\<lparr>sv_c := c\<rparr>" fwd clock] r(1) p by (simp add: server_inv_def)
    then have "server_inv ?s" "server_now ?s \<le> now'" using p t by (simp_all add: server_inv_def server_now_def c3)
    from checkExpirations_ok [OF this] obtain s' where
      s': "checkExpirations now' ?s = Some s'" "server_inv s'" "server_now s' = now'" "sv_agents s' = sv_agents ?s" by blast
    have q: "agent_queue (s3\<lparr>sv_c := c\<rparr>) = agent_queue s" "agent_queue s' = agent_queue ?s"
      using s'(4) q3 by (simp_all add: agent_queue_def fun_eq_iff)
    have f0: "forwarded [] addr = []" for addr by (simp add: forwarded_def)
    have "sv_c s3 = sv_c s2" by (simp add: s3_def)
    with f s'(1) have "processBreadcrumbRequest now clock now' req s = Some (Reply_ok, s')"
      by (simp add: processBreadcrumbRequest_def g tbl Inr s3_def [symmetric] Let_def)
    with s' q d p t show ?thesis by (simp add: Inr f0 c3)
  qed
qed

section \<open>Runs of the server\<close>

text \<open>
  The server starts empty; agents call its RPC handlers at any time, the main goroutine takes the
  next request of a channel, and the goroutine of an agent the next triggers to send to it.  The clock
  does not run backwards.
\<close>

definition chan_head :: "'m chan \<Rightarrow> 'm option" where
  "chan_head q = (if ch_taken q < length (ch_log q) then Some (ch_log q ! ch_taken q) else None)"

inductive server_reachable :: "CoordinatorServer \<Rightarrow> bool" where
  start: "server_reachable (server_Init now logging)"
| rpc_trigger: "server_reachable s \<Longrightarrow> server_reachable (LocalTrigger locked now now' req s)"
| rpc_breadcrumbs: "server_reachable s \<Longrightarrow> server_reachable (server_Breadcrumbs locked now now' req s)"
| triggers: "server_reachable s \<Longrightarrow> chan_head (sv_incoming_triggers s) = Some req \<Longrightarrow> server_now s \<le> now \<Longrightarrow> now \<le> now' \<Longrightarrow>
    runCoordinator_turn (Triggers_in now clock now' req) s = Some s' \<Longrightarrow> server_reachable s'"
| breadcrumbs: "server_reachable s \<Longrightarrow> chan_head (sv_incoming_breadcrumbs s) = Some req \<Longrightarrow> server_now s \<le> now \<Longrightarrow> now \<le> now' \<Longrightarrow>
    runCoordinator_turn (Breadcrumbs_in now clock now' req) s = Some s' \<Longrightarrow> server_reachable s'"
| agent_takes: "server_reachable s \<Longrightarrow> mget (sv_agents s) addr = Some a \<Longrightarrow> chan_head (sa_outgoing_triggers a) = Some ts \<Longrightarrow>
    server_reachable (s\<lparr>sv_agents := mput addr (a\<lparr>sa_outgoing_triggers := chan_receive (sa_outgoing_triggers a)\<rparr>) (sv_agents s)\<rparr>)"

lemma server_inv_rpc:
  "server_inv s \<Longrightarrow> server_inv (LocalTrigger locked now now' req s)"
  "server_inv s \<Longrightarrow> server_inv (server_Breadcrumbs locked now now' breq s)"
  by (simp_all add: LocalTrigger_def server_Breadcrumbs_def Let_def server_inv_def)

lemma turn_ok:
  assumes "server_inv s" and "server_now s \<le> now" and "now \<le> now'"
  shows "\<exists>s'. runCoordinator_turn (Triggers_in now clock now' req) s = Some s' \<and> server_inv s'"
    "\<exists>s'. runCoordinator_turn (Breadcrumbs_in now clock now' breq) s = Some s' \<and> server_inv s'"
    "\<exists>s'. runCoordinator_turn (Shutdown now) s = Some s' \<and> server_inv s'"
proof -
  show "\<exists>s'. runCoordinator_turn (Triggers_in now clock now' req) s = Some s' \<and> server_inv s'"
    using processTriggersRequest_ok [of "s\<lparr>sv_incoming_triggers := chan_receive (sv_incoming_triggers s)\<rparr>" now now' clock req] assms
    by auto
  show "\<exists>s'. runCoordinator_turn (Breadcrumbs_in now clock now' breq) s = Some s' \<and> server_inv s'"
    using processBreadcrumbRequest_ok [of "s\<lparr>sv_incoming_breadcrumbs := chan_receive (sv_incoming_breadcrumbs s)\<rparr>" now now' clock breq] assms
    by auto
  obtain fin c where "checkTriggerExpiration (now + second) (sv_c s) = Some (fin, c)" "co_inv c"
    using trigger_expiration_loop_ok [of "sv_c s" "now + second" "[]"] assms(1)
    by (auto simp: server_inv_def checkTriggerExpiration_def)
  then show "\<exists>s'. runCoordinator_turn (Shutdown now) s = Some s' \<and> server_inv s'"
    using assms(1) by (cases "sv_logger s") (auto simp: server_inv_def)
qed

lemma server_reachable_inv: "server_reachable s \<Longrightarrow> server_inv s"
proof (induction rule: server_reachable.induct)
  case (triggers s req now now' clock s')
  then show ?case using turn_ok(1) [of s now now' clock req] by auto
next
  case (breadcrumbs s req now now' clock s')
  then show ?case using turn_ok(2) [of s now now' clock req] by auto
next
  case (agent_takes s addr a ts)
  then show ?case by (auto simp: server_inv_def mget_mput)
qed (simp_all add: server_inv_Init server_inv_rpc)

section \<open>Properties\<close>





end
