(* ===== verification/Dissemination.thy ===== *)
theory Dissemination
  imports Agent_Coord Server_Correct
begin

text \<open>
  Agents and coordinator together: the breadcrumbs an agent encodes are the ones the coordinator
  decodes, over a whole session of batches; a trigger fired at one agent reaches the agents that have
  the trace; and what goes wrong when a request is lost.
\<close>

section \<open>Properties of the encoding\<close>

text \<open>The numbers are handed out in sequence, so they stay apart until 32 bits are used up.\<close>

definition encoder_ok :: "encoder \<Rightarrow> bool" where
  "encoder_ok e \<longleftrightarrow> mok (en_ids e) \<and> length (en_ids e) < 2 ^ 32 \<and> en_seed e = of_nat (length (en_ids e)) \<and>
     (\<forall>addr i. mget (en_ids e) addr = Some i \<longrightarrow> unat i < length (en_ids e)) \<and>
     (\<forall>addr addr' i. mget (en_ids e) addr = Some i \<longrightarrow> mget (en_ids e) addr' = Some i \<longrightarrow> addr' = addr)"

text \<open>A table that decodes the numbers of the encoder.\<close>

definition decodes :: "(32 word, string) gomap \<Rightarrow> encoder \<Rightarrow> bool" where
  "decodes tbl e \<longleftrightarrow> (\<forall>addr i. mget (en_ids e) addr = Some i \<longrightarrow> mget tbl i = Some addr)"

lemma encoder_ok_new: "encoder_ok \<lparr>en_ids = [], en_seed = 0\<rparr>"
  by (simp add: encoder_ok_def)

lemma decodes_new: "decodes tbl \<lparr>en_ids = [], en_seed = 0\<rparr>"
  by (simp add: decodes_def)

lemma encode_addr_ok:
  assumes e: "encoder_ok e" "decodes (fold register_address announced tbl) e"
    and small: "length (en_ids e) + 1 < 2 ^ 32"
    and run: "encode_addr addr (e, announced, ids) = (e', announced', ids')"
  shows "encoder_ok e' \<and> decodes (fold register_address announced' tbl) e' \<and> length (en_ids e') \<le> length (en_ids e) + 1 \<and>
    (\<exists>i. ids' = ids @ [i] \<and> mget (en_ids e') addr = Some i) \<and> (\<forall>a i. mget (en_ids e) a = Some i \<longrightarrow> mget (en_ids e') a = Some i)"
proof (cases "mget (en_ids e) addr")
  case (Some i)
  with run e show ?thesis by (auto simp: encode_addr_def)
next
  case None
  let ?n = "length (en_ids e)"
  have res: "en_ids e' = en_ids e @ [(addr, en_seed e)]" "en_seed e' = en_seed e + 1" "ids' = ids @ [en_seed e]"
    "announced' = announced @ [\<lparr>ba_Addr = addr, ba_Id = en_seed e\<rparr>]"
    using run None by (auto simp: encode_addr_def mput_fresh mget_None_keys)
  have get: "mget (en_ids e') = (mget (en_ids e))(addr \<mapsto> en_seed e)"
    using run None by (auto simp: encode_addr_def mget_mput)
  have seed: "unat (en_seed e) = ?n" using e(1) small by (simp add: encoder_ok_def unat_of_nat)
  have old: "unat i < ?n" "i \<noteq> en_seed e" if "mget (en_ids e) a = Some i" for a i
  proof -
    show lt: "unat i < ?n" using e(1) that by (simp add: encoder_ok_def)
    show "i \<noteq> en_seed e" using lt seed by auto
  qed
  have "mok (en_ids e')" using e(1) run None by (auto simp: encode_addr_def encoder_ok_def)
  moreover have "en_seed e' = of_nat (length (en_ids e'))" using e(1) by (simp add: res encoder_ok_def add.commute)
  ultimately have "encoder_ok e'"
    using e(1) small old seed unfolding encoder_ok_def get
    by (auto simp: res(1) less_SucI split: if_splits)
  moreover have "decodes (fold register_address announced' tbl) e'"
    using e(2) old unfolding decodes_def get res(4) by (auto simp: register_address_def mget_mput)
  moreover have "mget (en_ids e') addr = Some (en_seed e)" "\<forall>a i. mget (en_ids e) a = Some i \<longrightarrow> mget (en_ids e') a = Some i"
    using None by (auto simp: get)
  moreover have "length (en_ids e') = length (en_ids e) + 1" by (simp add: res(1))
  ultimately show ?thesis using res(3) by auto
qed

lemma encode_addrs_ok:
  assumes "encoder_ok e" and "decodes (fold register_address announced tbl) e"
    and "length (en_ids e) + length addrs < 2 ^ 32" and "fold encode_addr addrs (e, announced, ids) = (e', announced', ids')"
  shows "encoder_ok e' \<and> decodes (fold register_address announced' tbl) e' \<and> length (en_ids e') \<le> length (en_ids e) + length addrs \<and>
    (\<exists>js. ids' = ids @ js \<and> list_all2 (\<lambda>addr i. mget (en_ids e') addr = Some i) addrs js) \<and>
    (\<forall>a i. mget (en_ids e) a = Some i \<longrightarrow> mget (en_ids e') a = Some i)"
  using assms
proof (induction addrs arbitrary: e announced ids)
  case Nil
  then show ?case by simp
next
  case (Cons addr addrs)
  obtain e1 an1 ids1 where s: "encode_addr addr (e, announced, ids) = (e1, an1, ids1)"
    by (cases "encode_addr addr (e, announced, ids)")
  have "length (en_ids e) + 1 < 2 ^ 32" using Cons.prems(3) by simp
  note o = encode_addr_ok [OF Cons.prems(1,2) this s]
  have "fold encode_addr addrs (e1, an1, ids1) = (e', announced', ids')" using Cons.prems(4) by (simp add: s)
  from Cons.IH [OF _ _ _ this] o Cons.prems(3) have
    ih: "encoder_ok e'" "decodes (fold register_address announced' tbl) e'" "length (en_ids e') \<le> length (en_ids e1) + length addrs"
      "\<exists>js. ids' = ids1 @ js \<and> list_all2 (\<lambda>addr i. mget (en_ids e') addr = Some i) addrs js"
      "\<forall>a i. mget (en_ids e1) a = Some i \<longrightarrow> mget (en_ids e') a = Some i" by auto
  from o obtain i where i: "ids1 = ids @ [i]" "mget (en_ids e1) addr = Some i" by blast
  from ih(4) obtain js where "ids' = ids1 @ js" "list_all2 (\<lambda>addr i. mget (en_ids e') addr = Some i) addrs js" by blast
  then have "ids' = ids @ (i # js)" "list_all2 (\<lambda>addr i. mget (en_ids e') addr = Some i) (addr # addrs) (i # js)"
    using i ih(5) by auto
  then show ?case using ih o by auto
qed

text \<open>An entry of the request stands for a trace and its addresses.\<close>

definition encodes :: "encoder \<Rightarrow> u64 \<times> string list \<Rightarrow> Breadcrumbs \<Rightarrow> bool" where
  "encodes e b p \<longleftrightarrow> bs_TraceId p = fst b \<and> list_all2 (\<lambda>addr i. mget (en_ids e) addr = Some i) (snd b) (bs_Addrs p)"

definition extends :: "encoder \<Rightarrow> encoder \<Rightarrow> bool" where
  "extends e e' \<longleftrightarrow> (\<forall>a i. mget (en_ids e) a = Some i \<longrightarrow> mget (en_ids e') a = Some i)"

lemma encodes_mono: "encodes e b p \<Longrightarrow> extends e e' \<Longrightarrow> encodes e' b p"
  unfolding encodes_def extends_def by (auto elim: list_all2_mono)

lemma encode_traces_ok:
  assumes "encoder_ok e" and "decodes (fold register_address (br_Addresses req) tbl) e"
    and "length (en_ids e) + length (concat (map snd bs)) < 2 ^ 32" and "fold encode_trace bs (e, req) = (e', req')"
  shows "encoder_ok e' \<and> decodes (fold register_address (br_Addresses req') tbl) e' \<and>
    length (en_ids e') \<le> length (en_ids e) + length (concat (map snd bs)) \<and> br_Src req' = br_Src req \<and> extends e e' \<and>
    (\<exists>ps. br_Breadcrumbs req' = br_Breadcrumbs req @ ps \<and> list_all2 (encodes e') bs ps)"
  using assms
proof (induction bs arbitrary: e req)
  case Nil
  then show ?case by (simp add: extends_def)
next
  case (Cons b bs)
  obtain e1 an1 ids1 where s: "fold encode_addr (snd b) (e, br_Addresses req, []) = (e1, an1, ids1)"
    by (cases "fold encode_addr (snd b) (e, br_Addresses req, [])")
  define req1 where "req1 = req\<lparr>br_Addresses := an1, br_Breadcrumbs := br_Breadcrumbs req @ [\<lparr>bs_TraceId = fst b, bs_Addrs = ids1\<rparr>]\<rparr>"
  have "length (en_ids e) + length (snd b) < 2 ^ 32" using Cons.prems(3) by simp
  note o = encode_addrs_ok [OF Cons.prems(1,2) this s]
  have "encode_trace b (e, req) = (e1, req1)"
    using s by (cases b) (simp add: encode_trace_def req1_def)
  with Cons.prems(4) have f: "fold encode_trace bs (e1, req1) = (e', req')" by simp
  from o have o1: "encoder_ok e1" "decodes (fold register_address (br_Addresses req1) tbl) e1" by (simp_all add: req1_def)
  have "length (en_ids e1) + length (concat (map snd bs)) < 2 ^ 32" using o Cons.prems(3) by simp
  note ih = Cons.IH [OF o1 this f]
  from ih obtain ps where ps: "br_Breadcrumbs req' = br_Breadcrumbs req1 @ ps" "list_all2 (encodes e') bs ps" by blast
  have "encodes e1 b \<lparr>bs_TraceId = fst b, bs_Addrs = ids1\<rparr>" using o by (simp add: encodes_def)
  then have "list_all2 (encodes e') (b # bs) (\<lparr>bs_TraceId = fst b, bs_Addrs = ids1\<rparr> # ps)"
    using ps(2) ih encodes_mono by auto
  moreover have "br_Breadcrumbs req' = br_Breadcrumbs req @ (\<lparr>bs_TraceId = fst b, bs_Addrs = ids1\<rparr> # ps)"
    using ps(1) by (simp add: req1_def)
  moreover have "br_Src req1 = br_Src req" by (simp add: req1_def)
  moreover have "extends e e'" using o ih unfolding extends_def by blast
  ultimately show ?case using ih o by auto
qed

lemma fold_fold_concat: "fold (fold f) xss s = fold f (concat xss) s"
  by (induction xss arbitrary: s) simp_all

text \<open>Decoding gives back the addresses of each trace, in order.\<close>

definition crumbs_of :: "(u64 \<times> string list) list \<Rightarrow> u64 \<Rightarrow> string list" where
  "crumbs_of bs i = concat (map snd (filter (\<lambda>b. fst b = i) bs))"

lemma unravel_addrs:
  assumes "decodes tbl e" and "list_all2 (\<lambda>addr i. mget (en_ids e) addr = Some i) addrs js"
  shows "\<exists>m'. rfold (unravel_addr tbl src i) js m = Inr m' \<and> forwarded m' = (forwarded m)(i := forwarded m i @ addrs)"
  using assms(2)
proof (induction addrs js arbitrary: m rule: list_all2_induct)
  case Nil
  then show ?case by simp
next
  case (Cons addr addrs j js)
  from assms(1) Cons(1) have "unravel_addr tbl src i j m = Inr (mappends i [addr] m)"
    by (simp add: unravel_addr_def decodes_def)
  with Cons(3) [of "mappends i [addr] m"] show ?case by (auto simp: forwarded_mappends fun_upd_def cong: if_cong)
qed

lemma unravel_ok:
  assumes "decodes tbl e" and "list_all2 (encodes e) bs ps"
  shows "\<exists>m'. unravel tbl src ps m = Inr m' \<and> forwarded m' = (\<lambda>i. forwarded m i @ crumbs_of bs i)"
  using assms(2)
proof (induction bs ps arbitrary: m rule: list_all2_induct)
  case Nil
  then show ?case by (simp add: unravel_def crumbs_of_def)
next
  case (Cons b bs p ps)
  from unravel_addrs [OF assms(1), of "snd b" "bs_Addrs p" src "bs_TraceId p" m] Cons(1)
  obtain m1 where m1: "rfold (unravel_addr tbl src (bs_TraceId p)) (bs_Addrs p) m = Inr m1"
    "forwarded m1 = (forwarded m)(fst b := forwarded m (fst b) @ snd b)" by (auto simp: encodes_def)
  from Cons(3) [of m1] obtain m' where m': "unravel tbl src ps m1 = Inr m'" "forwarded m' = (\<lambda>i. forwarded m1 i @ crumbs_of bs i)" by blast
  have "unravel tbl src (p # ps) m = Inr m'" using m1(1) m'(1) by (simp add: unravel_def)
  moreover have "forwarded m' = (\<lambda>i. forwarded m i @ crumbs_of (b # bs) i)"
    using m1(2) m'(2) by (simp add: fun_eq_iff crumbs_of_def)
  ultimately show ?case by blast
qed

lemma encode_decode:
  assumes "encoder_ok e" and "decodes tbl e" and "length (en_ids e) + length (concat (map snd (concat acc))) < 2 ^ 32"
    and "encode_breadcrumbs src acc e = (e', req)"
  defines "tbl' \<equiv> fold register_address (br_Addresses req) tbl"
  shows "encoder_ok e' \<and> decodes tbl' e' \<and> length (en_ids e') \<le> length (en_ids e) + length (concat (map snd (concat acc))) \<and>
    (\<exists>m. unravel tbl' src (br_Breadcrumbs req) [] = Inr m \<and> (\<forall>i. forwarded m i = crumbs_of (concat acc) i))"
proof -
  let ?r = "\<lparr>br_Src = src, br_Addresses = [], br_Breadcrumbs = []\<rparr>"
  have "fold encode_trace (concat acc) (e, ?r) = (e', req)"
    using assms(4) by (simp add: encode_breadcrumbs_def fold_fold_concat)
  from encode_traces_ok [OF assms(1) _ assms(3) this, of tbl] assms(2)
  have o: "encoder_ok e'" "decodes tbl' e'" "length (en_ids e') \<le> length (en_ids e) + length (concat (map snd (concat acc)))"
    "list_all2 (encodes e') (concat acc) (br_Breadcrumbs req)" by (auto simp: tbl'_def)
  have "forwarded [] i = []" for i :: u64 by (simp add: forwarded_def)
  with unravel_ok [OF o(2,4), of src "[]"] o(1-3) show ?thesis by auto
qed

section \<open>A session of breadcrumbs\<close>

text \<open>The RPC as the coordinator answers it: the announced addresses are entered in the table of the
  sender, and the breadcrumbs are decoded; the world is the table and the decoded requests.\<close>

definition decoding_rpc ::
    "BreadcrumbsRequest \<Rightarrow> (32 word, string) gomap \<times> (u64, string list) gomap list
       \<Rightarrow> bool \<times> (32 word, string) gomap \<times> (u64, string list) gomap list" where
  "decoding_rpc req = (\<lambda>(tbl, decoded).
     let tbl' = fold register_address (br_Addresses req) tbl
     in case unravel tbl' (br_Src req) (br_Breadcrumbs req) [] of
          Inl e \<Rightarrow> (False, tbl', decoded)
        | Inr m \<Rightarrow> (True, tbl', decoded @ [m]))"

lemma encode_breadcrumbs_src:
  "encode_breadcrumbs src acc e = (e', req) \<Longrightarrow> br_Src req = src"
proof -
  have "br_Src (snd (fold encode_trace bs p)) = br_Src (snd p)" for bs p
    by (induction bs arbitrary: p) (auto simp: encode_trace_def split: prod.splits)
  then show "encode_breadcrumbs src acc e = (e', req) \<Longrightarrow> br_Src req = src"
    by (metis encode_breadcrumbs_def fold_fold_concat BreadcrumbsRequest.select_convs(1) snd_conv)
qed

lemma session_ok:
  assumes "ac_enabled r" and "encoder_ok e" and "decodes tbl e"
    and "length (en_ids e) + length (concat (map snd (concat (concat bs)))) < 2 ^ 32"
  shows "\<exists>e' tbl' ms. send_all (send_breadcrumbs r decoding_rpc) bs (e, tbl, log) = (True, e', tbl', log @ ms) \<and>
    list_all2 (\<lambda>b m. \<forall>i. forwarded m i = crumbs_of (concat b) i) bs ms"
  using assms(2-)
proof (induction bs arbitrary: e tbl log)
  case Nil
  then show ?case by simp
next
  case (Cons b bs)
  obtain e1 req where en: "encode_breadcrumbs (ac_local_addr r) b e = (e1, req)" by (cases "encode_breadcrumbs (ac_local_addr r) b e")
  let ?tbl = "fold register_address (br_Addresses req) tbl"
  have "length (en_ids e) + length (concat (map snd (concat b))) < 2 ^ 32" using Cons.prems(3) by simp
  from encode_decode [OF Cons.prems(1,2) this en] obtain m where o: "encoder_ok e1" "decodes ?tbl e1"
    "length (en_ids e1) \<le> length (en_ids e) + length (concat (map snd (concat b)))"
    "unravel ?tbl (ac_local_addr r) (br_Breadcrumbs req) [] = Inr m" "\<forall>i. forwarded m i = crumbs_of (concat b) i" by blast
  have "length (en_ids e1) + length (concat (map snd (concat (concat bs)))) < 2 ^ 32" using o(3) Cons.prems(3) by simp
  from Cons.IH [OF o(1,2) this, of "log @ [m]"] obtain e' tbl' ms where
    ih: "send_all (send_breadcrumbs r decoding_rpc) bs (e1, ?tbl, log @ [m]) = (True, e', tbl', (log @ [m]) @ ms)"
      "list_all2 (\<lambda>b m. \<forall>i. forwarded m i = crumbs_of (concat b) i) bs ms" by blast
  have "send_breadcrumbs r decoding_rpc b (e, tbl, log) = (True, e1, ?tbl, log @ [m])"
    using assms(1) en o(4) encode_breadcrumbs_src [OF en] by (simp add: send_breadcrumbs_def decoding_rpc_def Let_def)
  with ih o(5) show ?case by (intro exI [of _ e'] exI [of _ tbl'] exI [of _ "m # ms"]) simp
qed

section \<open>Properties\<close>

text \<open>Over a whole session, whatever the coordinator's table holds from earlier sessions of the
  same agent, every request is understood: the non-empty breadcrumb maps the agent reports are sent
  in order in non-empty batches, and for each batch the coordinator decodes exactly the addresses
  reported for each trace, in order, as long as fewer than 2^32 addresses occur.\<close>

theorem breadcrumbs_decoded:
  assumes "ac_enabled r" and "Stop \<notin> set ps"
    and "length (concat (map snd (concat (polled (\<lambda>m. if length m > 0 then [m] else []) ps)))) < 2 ^ 32"
  shows "\<exists>bs e tbl' ms. concat bs = polled (\<lambda>m. if length m > 0 then [m] else []) ps \<and> [] \<notin> set bs \<and>
    ReportBreadcrumbs r decoding_rpc ps (tbl, []) = (Waiting, e, tbl', ms) \<and>
    list_all2 (\<lambda>b m. \<forall>i. forwarded m i = crumbs_of (concat b) i) bs ms"
proof -
  let ?e = "\<lparr>en_ids = [], en_seed = 0\<rparr>" and ?send = "send_breadcrumbs r decoding_rpc"
  from report_loop_batches [OF assms(2), where items = "\<lambda>m. if length m > 0 then [m] else []" and send = ?send and w = "(?e, tbl, [])"]
  obtain bs where bs: "concat bs = polled (\<lambda>m. if length m > 0 then [m] else []) ps" "[] \<notin> set bs"
    "ReportBreadcrumbs r decoding_rpc ps (tbl, []) = (case send_all ?send bs (?e, tbl, []) of (success, w') \<Rightarrow> (if success then Waiting else Failed, w'))"
    by (auto simp: ReportBreadcrumbs_def)
  have "length (en_ids ?e) + length (concat (map snd (concat (concat bs)))) < 2 ^ 32" using assms(3) bs(1) by simp
  from session_ok [OF assms(1) encoder_ok_new decodes_new this, of tbl "[]"] bs show ?thesis by fastforce
qed

theorem breadcrumbs_decoded_witness:
  "\<exists>bs e tbl' ms. concat bs = [[(7 :: u64, [''B'', ''C''])], [(8, [''B''])]] \<and> [] \<notin> set bs \<and>
    ReportBreadcrumbs (InitCoordinator True ''A'' ''1'' ''co'') decoding_rpc
      [Message [(7, [''B'', ''C''])], Message [], Idle, Message [(8, [''B''])]] ([(0, ''X'')], []) = (Waiting, e, tbl', ms) \<and>
    list_all2 (\<lambda>b m. \<forall>i. forwarded m i = crumbs_of (concat b) i) bs ms"
  using breadcrumbs_decoded [of "InitCoordinator True ''A'' ''1'' ''co''"
      "[Message [(7, [''B'', ''C''])], Message [], Idle, Message [(8, [''B''])]]" "[(0, ''X'')]"]
  by (simp add: InitCoordinator_def)

text \<open>C34: When the server drops a request, which it answers as a success, later breadcrumbs may be
  taken for another address.  In an earlier session number 0 stood for X.  The new session announces
  number 0 for Y in a request that is dropped because the channel of the server is full, and uses it
  without announcement in the next one, which the server decodes to X.\<close>

theorem dropped_request_misroutes:
  assumes "chan_full (sv_incoming_breadcrumbs s)" and "address_table s ''A'' = [(0, ''X'')]"
  shows "let (e1, req1) = encode_breadcrumbs ''A'' [[(7, [''Y''])]] \<lparr>en_ids = [], en_seed = 0\<rparr>;
       (e2, req2) = encode_breadcrumbs ''A'' [[(8, [''Y''])]] e1;
       s1 = server_Breadcrumbs locked now now' req1 s
   in sv_incoming_breadcrumbs s1 = sv_incoming_breadcrumbs s \<and> br_Addresses req2 = [] \<and>
      unravel (fold register_address (br_Addresses req2) (address_table s1 ''A'')) ''A'' (br_Breadcrumbs req2) [] = Inr [(8, [''X''])]"
proof -
  have "address_table (server_Breadcrumbs locked now now' req s) ''A'' = [(0, ''X'')]" for req
    using assms by (simp add: server_Breadcrumbs_def address_table_def Let_def)
  moreover have "sv_incoming_breadcrumbs (server_Breadcrumbs locked now now' req s) = sv_incoming_breadcrumbs s" for req
    using assms(1) by (simp add: server_Breadcrumbs_def Let_def)
  ultimately show ?thesis
    by (simp add: encode_breadcrumbs_def encode_trace_def encode_addr_def unravel_def unravel_addr_def mappends_def)
qed

text \<open>A server whose channel is full, with a table from an earlier session.\<close>

definition busy_server :: CoordinatorServer where
  "busy_server = (server_Init 0 False)\<lparr>
     sv_agents := [(''A'', (Agent_Init 0 ''A'')\<lparr>sa_id_to_addr := [(0, ''X'')]\<rparr>)],
     sv_incoming_breadcrumbs := \<lparr>ch_log = replicate 10000 \<lparr>br_Src = ''B'', br_Addresses = [], br_Breadcrumbs = []\<rparr>,
       ch_taken = 0, ch_cap = 10000\<rparr>\<rparr>"

theorem dropped_request_misroutes_witness:
  "let (e1, req1) = encode_breadcrumbs ''A'' [[(7, [''Y''])]] \<lparr>en_ids = [], en_seed = 0\<rparr>;
       (e2, req2) = encode_breadcrumbs ''A'' [[(8, [''Y''])]] e1;
       s1 = server_Breadcrumbs True 1 1 req1 busy_server
   in sv_incoming_breadcrumbs s1 = sv_incoming_breadcrumbs busy_server \<and> br_Addresses req2 = [] \<and>
      unravel (fold register_address (br_Addresses req2) (address_table s1 ''A'')) ''A'' (br_Breadcrumbs req2) [] = Inr [(8, [''X''])]"
  by (rule dropped_request_misroutes) (simp_all add: busy_server_def chan_full_def address_table_def)

text \<open>C10: A trigger fired at agent A for a trace that the coordinator knows at agent B reaches B: the
  request A sends is answered, one message is queued for B, and the RPC that delivers this message
  hands exactly this trigger to B's event loop, provided its trace is new to the trigger, the queues
  of B are not full and the queue number fits into 32 bits.\<close>

theorem trigger_reaches_agent:
  assumes inv: "server_inv s" and t: "server_now s \<le> now" "now \<le> now'"
    and q: "int32_range (Queue_id trig)"
    and new: "Trace_id trig \<notin> trigger_traces (sv_c s) \<lparr>ct_queue_id = Queue_id trig, ct_base_trace_id = Base_trace_id trig\<rparr>"
    and B: "addrB \<in> trace_known (sv_c s) (Trace_id trig)" "addrB \<noteq> ac_local_addr A" and room: "\<not> chan_full (agent_queue s addrB)"
  shows "\<exists>s' m. processTriggersRequest now clock now' (trigger_request A [trig]) s = Some (Reply_ok, s') \<and>
    agent_queue s' addrB = chan_send m (agent_queue s addrB) \<and>
    (\<forall>B. \<not> chan_full (ac_remotetriggers B) \<longrightarrow>
       ac_remotetriggers (RemoteTrigger (remote_request m) B) = chan_send [trig] (ac_remotetriggers B))"
proof -
  let ?req = "trigger_request A [trig]" and ?c = "(sv_c s)\<lparr>co_now := now\<rparr>"
  define g where "g = \<lparr>cg_id = \<lparr>ct_queue_id = Queue_id trig, ct_base_trace_id = Base_trace_id trig\<rparr>, cg_trace_ids = [Trace_id trig]\<rparr>"
  have rt: "tr_Triggers ?req = [p] \<Longrightarrow> request_trigger p = g" for p
    using q by (auto simp: trigger_request_def request_trigger_def g_def)
  obtain out c1 where a: "AddTrigger (ac_local_addr A) g ?c = (out, c1)" by (cases "AddTrigger (ac_local_addr A) g ?c")
  have "co_inv ?c" using inv t co_inv_now by (simp add: server_inv_def server_now_def)
  note o = AddTrigger_ok [OF this a]
  have view: "trigger_traces ?c = trigger_traces (sv_c s)" "trace_known ?c = trace_known (sv_c s)"
    by (simp_all add: view_defs fun_eq_iff split: option.split)
  have "addrB \<in> set out" using o(4,6) new B by (simp add: view g_def)
  with o(7) have one: "filter (\<lambda>b. b = addrB) out = [addrB]"
    by (induction out) (auto simp: filter_empty_conv)
  have "sent_to addrB (forward_list (tr_Src ?req) (tr_Triggers ?req) ?c) = [g]"
    using one a q by (simp add: trigger_request_def request_trigger_def g_def sent_to_def filter_map comp_def)
  then obtain s' where s': "processTriggersRequest now clock now' ?req s = Some (Reply_ok, s')"
    "agent_queue s' addrB = chan_send [g] (agent_queue s addrB)"
    using processTriggersRequest_ok [OF inv t, of clock ?req] room by (auto simp: queued_def)
  have "remote_triggers (remote_request [g]) = [trig]"
    using q by (simp add: remote_triggers_def remote_request_def g_def)
  then have "ac_remotetriggers (RemoteTrigger (remote_request [g]) B) = chan_send [trig] (ac_remotetriggers B)"
    if "\<not> chan_full (ac_remotetriggers B)" for B
    using that by (simp add: RemoteTrigger_def)
  with s' show ?thesis by blast
qed

text \<open>Agent B has fired another trigger for trace 7, so the trace is known at B.\<close>

definition demo_server :: CoordinatorServer where
  "demo_server = (server_Init 0 False)\<lparr>sv_c := snd (AddTrigger ''B:1'' (demo_trigger 2 [7]) (Coordinator_Init 0))\<rparr>"

lemma demo_server_inv: "server_inv demo_server"
  using AddTrigger_ok(1) [OF co_inv_Init, of "''B:1''" "demo_trigger 2 [7]" 0]
  by (metis (no_types, lifting) CoordinatorServer.select_convs(2) CoordinatorServer.surjective CoordinatorServer.update_convs(2)
      demo_server_def prod.collapse server_inv_Init server_inv_def CoordinatorServer.select_convs(3))

theorem trigger_reaches_agent_witness:
  "\<exists>s' m. processTriggersRequest 1 (\<lambda>_. 1) 2
      (trigger_request (InitCoordinator True ''A'' ''1'' ''co'') [\<lparr>Queue_id = 1, Base_trace_id = 7, Trace_id = 7\<rparr>]) demo_server =
      Some (Reply_ok, s') \<and>
    agent_queue s' ''B:1'' = chan_send m (agent_queue demo_server ''B:1'') \<and>
    (\<forall>B. \<not> chan_full (ac_remotetriggers B) \<longrightarrow>
       ac_remotetriggers (RemoteTrigger (remote_request m) B) =
         chan_send [\<lparr>Queue_id = 1, Base_trace_id = 7, Trace_id = 7\<rparr>] (ac_remotetriggers B))"
proof (rule trigger_reaches_agent [OF demo_server_inv])
  show "server_now demo_server \<le> 1" by (simp add: demo_server_def server_now_def coord_ops)
  show "''B:1'' \<in> trace_known (sv_c demo_server) (Trace_id \<lparr>Queue_id = 1, Base_trace_id = 7, Trace_id = 7\<rparr>)"
    by (simp add: demo_server_def coord_ops trace_known_def)
  show "\<not> chan_full (agent_queue demo_server ''B:1'')"
    by (simp add: demo_server_def server_Init_def agent_queue_def chan_full_def chan_make_def)
qed (simp_all add: int32_range_def InitCoordinator_def demo_server_def coord_ops trigger_traces_def)

text \<open>Local triggers are reported in order and without loss until a call fails: while the agent
  runs, the batches sent are non-empty and together are the triggers taken from the channel, and the
  coordinator gets one request per batch with one entry per trigger.\<close>

theorem local_triggers_sent_in_order:
  assumes "ac_enabled r" and "Stop \<notin> set ps"
  shows "\<exists>bs. concat bs = polled (\<lambda>triggers. triggers) ps \<and> [] \<notin> set bs \<and>
    agent_ReportTriggers r (\<lambda>req log. (True, log @ [req])) ps [] = (Waiting, map (trigger_request r) bs)"
proof -
  let ?send = "sendTriggers r (\<lambda>req log. (True, log @ [req]))"
  from report_loop_batches [OF assms(2), where items = "\<lambda>triggers. triggers" and send = ?send and w = "[]"]
  obtain bs where bs: "concat bs = polled (\<lambda>triggers. triggers) ps" "[] \<notin> set bs"
    "agent_ReportTriggers r (\<lambda>req log. (True, log @ [req])) ps [] =
      (case send_all ?send bs [] of (success, w') \<Rightarrow> (if success then Waiting else Failed, w'))"
    by (auto simp: agent_ReportTriggers_def)
  have "send_all ?send bs log = (True, log @ map (trigger_request r) bs)" for log
    using assms(1) by (induction bs arbitrary: log) (simp_all add: sendTriggers_def)
  with bs show ?thesis by (intro exI [of _ bs]) simp
qed

theorem local_triggers_sent_in_order_witness:
  "\<exists>bs. concat bs = [\<lparr>Queue_id = 1, Base_trace_id = 7, Trace_id = 7\<rparr>] \<and> [] \<notin> set bs \<and>
    agent_ReportTriggers (InitCoordinator True ''A'' ''1'' ''co'') (\<lambda>req log. (True, log @ [req]))
      [Idle, Message [], Message [\<lparr>Queue_id = 1, Base_trace_id = 7, Trace_id = 7\<rparr>]] [] =
        (Waiting, map (trigger_request (InitCoordinator True ''A'' ''1'' ''co'')) bs)"
  using local_triggers_sent_in_order [of "InitCoordinator True ''A'' ''1'' ''co''"
      "[Idle, Message [], Message [\<lparr>Queue_id = 1, Base_trace_id = 7, Trace_id = 7\<rparr>]]"]
  by (simp add: InitCoordinator_def)

end
