(* ===== verification/Collector.thy ===== *)
theory Collector
  imports Reporting
begin

text \<open>
  The collector (\<^verbatim>\<open>pkg/collector/collector.go\<close>) and its trace files
  (\<^verbatim>\<open>pkg/collector/fileio.go\<close>).
\<close>

record ReceivedBuffer =
  rb_trace_id :: u64
  rb_source_agent :: string
  rb_buffer :: "byte list"

section \<open>Connections from agents\<close>

text \<open>A received slice as an array of its own.\<close>

definition array_of :: "byte list \<Rightarrow> pool" where
  "array_of bs i = (if i < length bs then bs ! i else 0)"

definition received :: "string \<Rightarrow> byte list \<Rightarrow> ReceivedBuffer result" where
  "received agent_addr buf =
     rbind (ExtractBufferHeader (array_of buf) \<lparr>sl_start = 0, sl_len = int (length buf)\<rparr>) (\<lambda>header.
       Inr \<lparr>rb_trace_id = bh_Trace_id header, rb_source_agent = agent_addr, rb_buffer = buf\<rparr>)"

lemma readLengthPrefixed_shrinks:
  assumes "readLengthPrefixed cs = Inr (buf, cs')"
  shows "length (concat cs') < length (concat cs)"
proof -
  from assms obtain sz cs1 where r: "doRead 4 cs = Inr (sz, cs1)" "doRead (le_nat sz) cs1 = Inr (buf, cs')"
    by (auto simp: readLengthPrefixed_def rbind_eq_Inr)
  from doRead_length [OF r(1)] doRead_length [OF r(2)] show ?thesis by auto
qed

text \<open>The loop of \<^verbatim>\<open>handleConnection\<close>: the buffers sent on the channel \<^verbatim>\<open>incoming\<close> until reading
  fails.\<close>

function handle_loop :: "string \<Rightarrow> reader \<Rightarrow> ReceivedBuffer list result" where
  "handle_loop agent_addr conn =
     (case readLengthPrefixed conn of
        Inl e \<Rightarrow> Inr []
      | Inr (buf, conn1) \<Rightarrow>
          if length buf \<ge> 32 then
            (case received agent_addr buf of
               Inl e \<Rightarrow> Inl e
             | Inr r \<Rightarrow> rbind (handle_loop agent_addr conn1) (\<lambda>rs. Inr (r # rs)))
          else handle_loop agent_addr conn1)"
  by pat_completeness auto
termination
  by (relation "measure (\<lambda>(_, cs). length (concat cs))") (auto dest: readLengthPrefixed_shrinks)

declare handle_loop.simps [simp del]

definition handleConnection :: "reader \<Rightarrow> ReceivedBuffer list result" where
  "handleConnection conn =
     (case readLengthPrefixed conn of
        Inl e \<Rightarrow> Inr []
      | Inr (buf, conn1) \<Rightarrow> handle_loop (bytes_string buf) conn1)"

section \<open>Trace files\<close>

text \<open>The bodies of \<^verbatim>\<open>doFileWrite\<close> and \<^verbatim>\<open>writeFileLengthPrefixed\<close> are those of \<^verbatim>\<open>doWrite\<close> and
  \<^verbatim>\<open>writeLengthPrefixed\<close>, on a file.\<close>

definition doFileWrite :: "byte list \<Rightarrow> writer \<Rightarrow> bool \<times> writer" where
  "doFileWrite bs f = doWrite bs f"

definition writeFileLengthPrefixed :: "byte list \<Rightarrow> writer \<Rightarrow> bool \<times> writer" where
  "writeFileLengthPrefixed buf f =
     (let (err, f1) = doFileWrite (le_bytes 4 (length buf)) f
      in if err then (err, f1) else doFileWrite buf f1)"

definition WriteToFile :: "ReceivedBuffer \<Rightarrow> writer \<Rightarrow> bool \<times> writer" where
  "WriteToFile b f =
     (let (err, f1) = writeFileLengthPrefixed (string_bytes (rb_source_agent b)) f
      in if err then (err, f1) else writeFileLengthPrefixed (rb_buffer b) f1)"

definition ReadFromFile :: "reader \<Rightarrow> io_error + (string \<times> byte list) \<times> reader" where
  "ReadFromFile f =
     rbind (readFileLengthPrefixed f) (\<lambda>(agentbs, f1).
     rbind (readFileLengthPrefixed f1) (\<lambda>(buffer, f2). Inr ((bytes_string agentbs, buffer), f2)))"

text \<open>Reports buffered in memory; the mutex makes each operation one step.\<close>

record TraceToStore =
  ts_trace_id :: u64
  ts_buffers :: "ReceivedBuffer list"

definition initTraceToStore :: "u64 \<Rightarrow> TraceToStore" where
  "initTraceToStore trace_id = \<lparr>ts_trace_id = trace_id, ts_buffers = []\<rparr>"

definition TS_AddBuffer :: "ReceivedBuffer \<Rightarrow> TraceToStore \<Rightarrow> TraceToStore" where
  "TS_AddBuffer buf t = t\<lparr>ts_buffers := ts_buffers t @ [buf]\<rparr>"

definition TS_takeBuffers :: "TraceToStore \<Rightarrow> ReceivedBuffer list \<times> TraceToStore" where
  "TS_takeBuffers t = (ts_buffers t, t\<lparr>ts_buffers := []\<rparr>)"

fun append_buffers :: "ReceivedBuffer list \<Rightarrow> writer \<Rightarrow> bool \<times> writer" where
  "append_buffers [] f = (False, f)"
| "append_buffers (b # bs) f =
     (let (err, f1) = WriteToFile b f in if err then (True, f1) else append_buffers bs f1)"

definition TS_AppendToFile :: "TraceToStore \<Rightarrow> writer \<Rightarrow> bool \<times> TraceToStore \<times> writer" where
  "TS_AppendToFile t f =
     (let (buffers, t1) = TS_takeBuffers t; (err, f1) = append_buffers buffers f in (err, t1, f1))"

section \<open>The writer and printer goroutines\<close>

text \<open>A tick reports the throughput since the last one, in MB/s, and starts counting afresh.\<close>

datatype collector_event = Tick time | Received ReceivedBuffer

definition throughput_mb :: "int \<Rightarrow> duration \<Rightarrow> float64" where
  "throughput_mb cnt interval = (of_int cnt / (of_int interval / 1000000000)) / (1024 * 1024)"

text \<open>An error of \<^verbatim>\<open>WriteToFile\<close> is printed and the loop goes on.\<close>

fun fileWriter_step :: "collector_event \<Rightarrow> int \<times> time \<times> writer \<Rightarrow> float64 option \<times> int \<times> time \<times> writer" where
  "fileWriter_step (Tick now) (cnt, last_report, f) = (Some (throughput_mb cnt (now - last_report)), 0, now, f)"
| "fileWriter_step (Received r) (cnt, last_report, f) =
     (None, cnt + int (length (rb_buffer r)), last_report, snd (WriteToFile r f))"

definition fileWriter :: "collector_event list \<Rightarrow> int \<times> time \<times> writer \<Rightarrow> int \<times> time \<times> writer" where
  "fileWriter evs st = fold (\<lambda>ev st. snd (fileWriter_step ev st)) evs st"

fun printer_step :: "collector_event \<Rightarrow> int \<times> time \<Rightarrow> float64 option \<times> int \<times> time" where
  "printer_step (Tick now) (cnt, last_report) = (Some (throughput_mb cnt (now - last_report)), 0, now)"
| "printer_step (Received r) (cnt, last_report) = (None, cnt + int (length (rb_buffer r)), last_report)"

section \<open>Receiving what an agent sends\<close>

lemma received_ok:
  assumes "32 \<le> length buf"
  shows "received agent buf = Inr \<lparr>rb_trace_id = of_nat (le_nat (take 8 buf)), rb_source_agent = agent, rb_buffer = buf\<rparr>"
proof -
  have "map (\<lambda>i. array_of buf (0 + i)) [0..<8] = take 8 buf"
    using assms by (intro nth_equalityI) (auto simp: array_of_def)
  then show ?thesis using assms by (auto simp: received_def ExtractBufferHeader_def Let_def le_at_def)
qed

definition received_of :: "string \<Rightarrow> byte list \<Rightarrow> ReceivedBuffer" where
  "received_of agent buf = \<lparr>rb_trace_id = of_nat (le_nat (take 8 buf)), rb_source_agent = agent, rb_buffer = buf\<rparr>"

lemma handle_loop_frames:
  assumes "\<forall>buf \<in> set bufs. length buf < 2 ^ 32" and "concat cs = concat (map frame_bytes bufs)"
  shows "handle_loop agent cs = Inr (map (received_of agent) (filter (\<lambda>buf. 32 \<le> length buf) bufs))"
  using assms
proof (induction bufs arbitrary: cs)
  case Nil
  then show ?case using net.get_end [of cs] by (subst handle_loop.simps) simp
next
  case (Cons buf bufs)
  from net.get_frame [of buf cs "concat (map frame_bytes bufs)"] Cons.prems obtain cs' where
    "readLengthPrefixed cs = Inr (buf, cs')" "concat cs' = concat (map frame_bytes bufs)" by auto
  moreover from this(2) Cons have "handle_loop agent cs' = Inr (map (received_of agent) (filter (\<lambda>buf. 32 \<le> length buf) bufs))"
    by auto
  ultimately show ?case
    by (subst handle_loop.simps) (simp add: received_ok received_of_def)
qed

lemma handleConnection_frames:
  assumes "length agent < 2 ^ 32" and "\<forall>buf \<in> set bufs. length buf < 2 ^ 32"
    and "concat cs = frame_bytes (string_bytes agent) @ concat (map frame_bytes bufs)"
  shows "handleConnection cs = Inr (map (received_of agent) (filter (\<lambda>buf. 32 \<le> length buf) bufs))"
proof -
  from net.get_frame [of "string_bytes agent" cs] assms obtain cs' where
    "readLengthPrefixed cs = Inr (string_bytes agent, cs')" "concat cs' = concat (map frame_bytes bufs)" by auto
  with handle_loop_frames [OF assms(2) this(2)] show ?thesis by (simp add: handleConnection_def)
qed

section \<open>Files\<close>

lemma writeFile_eq: "writeFileLengthPrefixed = writeLengthPrefixed"
  by (intro ext) (simp only: writeFileLengthPrefixed_def writeLengthPrefixed_def doFileWrite_def)

definition record_bytes :: "ReceivedBuffer \<Rightarrow> byte list" where
  "record_bytes r = frame_bytes (string_bytes (rb_source_agent r)) @ frame_bytes (rb_buffer r)"

lemma WriteToFile_ok:
  assumes "steady (w_outcomes f)"
  shows "\<exists>f'. WriteToFile r f = (False, f') \<and> w_written f' = w_written f @ record_bytes r \<and> steady (w_outcomes f')"
proof -
  obtain e f1 where a: "writeLengthPrefixed (string_bytes (rb_source_agent r)) f = (e, f1)"
    by (cases "writeLengthPrefixed (string_bytes (rb_source_agent r)) f")
  obtain e2 f2 where b: "writeLengthPrefixed (rb_buffer r) f1 = (e2, f2)" by (cases "writeLengthPrefixed (rb_buffer r) f1")
  from writeLengthPrefixed_ok [OF a] writeLengthPrefixed_ok [OF b] assms a b show ?thesis
    by (auto simp: WriteToFile_def writeFile_eq record_bytes_def)
qed

lemma append_buffers_ok:
  assumes "steady (w_outcomes f)"
  shows "\<exists>f'. append_buffers rs f = (False, f') \<and> w_written f' = w_written f @ concat (map record_bytes rs) \<and>
    steady (w_outcomes f')"
  using assms
proof (induction rs arbitrary: f)
  case (Cons r rs)
  from WriteToFile_ok [OF Cons.prems, of r] obtain f1 where
    "WriteToFile r f = (False, f1)" "w_written f1 = w_written f @ record_bytes r" "steady (w_outcomes f1)" by blast
  with Cons.IH [of f1] show ?case by auto
qed auto

text \<open>The file writer appends every received buffer, whatever the ticks.\<close>

fun events_received :: "collector_event list \<Rightarrow> ReceivedBuffer list" where
  "events_received [] = []"
| "events_received (Tick now # evs) = events_received evs"
| "events_received (Received r # evs) = r # events_received evs"

lemma fileWriter_ok:
  assumes "steady (w_outcomes f)"
  shows "\<exists>cnt' t' f'. fileWriter evs (cnt, t, f) = (cnt', t', f') \<and>
    w_written f' = w_written f @ concat (map record_bytes (events_received evs)) \<and> steady (w_outcomes f')"
  using assms
proof (induction evs arbitrary: cnt t f)
  case Nil
  then show ?case by (simp add: fileWriter_def)
next
  case (Cons ev evs)
  show ?case
  proof (cases ev)
    case (Tick now)
    then show ?thesis using Cons.IH [of f 0 now] Cons.prems by (simp add: fileWriter_def)
  next
    case (Received r)
    from WriteToFile_ok [OF Cons.prems, of r] obtain f1 where f1:
      "WriteToFile r f = (False, f1)" "w_written f1 = w_written f @ record_bytes r" "steady (w_outcomes f1)" by blast
    from Cons.IH [OF f1(3), of "cnt + int (length (rb_buffer r))" t] f1 Received show ?thesis
      by (auto simp: fileWriter_def)
  qed
qed

text \<open>Reading a number of records back.\<close>

fun read_records :: "nat \<Rightarrow> reader \<Rightarrow> io_error + (string \<times> byte list) list \<times> reader" where
  "read_records 0 f = Inr ([], f)"
| "read_records (Suc n) f =
     rbind (ReadFromFile f) (\<lambda>(r, f1). rbind (read_records n f1) (\<lambda>(rs, f2). Inr (r # rs, f2)))"

definition storable :: "ReceivedBuffer \<Rightarrow> bool" where
  "storable r \<longleftrightarrow> length (rb_source_agent r) \<le> MAX_FRAME \<and> length (rb_buffer r) \<le> MAX_FRAME"

lemma ReadFromFile_ok:
  assumes "storable r" and "\<forall>c \<in> set cs. c \<noteq> []" and "concat cs = record_bytes r @ rest"
  shows "\<exists>cs'. ReadFromFile cs = Inr ((rb_source_agent r, rb_buffer r), cs') \<and> concat cs' = rest \<and> (\<forall>c \<in> set cs'. c \<noteq> [])"
  using disk.get_two [of "string_bytes (rb_source_agent r)" "rb_buffer r" cs rest] assms
  by (auto simp: ReadFromFile_def record_bytes_def storable_def)

lemma read_records_ok:
  assumes "\<forall>r \<in> set rs. storable r" and "\<forall>c \<in> set cs. c \<noteq> []" and "concat cs = concat (map record_bytes rs) @ rest"
  shows "\<exists>cs'. read_records (length rs) cs = Inr (map (\<lambda>r. (rb_source_agent r, rb_buffer r)) rs, cs') \<and> concat cs' = rest"
  using assms
proof (induction rs arbitrary: cs)
  case (Cons r rs)
  from ReadFromFile_ok [of r cs "concat (map record_bytes rs) @ rest"] Cons.prems obtain cs1 where c:
    "ReadFromFile cs = Inr ((rb_source_agent r, rb_buffer r), cs1)"
    "concat cs1 = concat (map record_bytes rs) @ rest" "\<forall>c \<in> set cs1. c \<noteq> []" by auto
  from Cons.IH [OF _ c(3,2)] Cons.prems(1) c(1) show ?case by auto
qed auto

section \<open>Properties\<close>

text \<open>C31: Trace files round-trip: whatever the file writer stored, in between any ticks, comes back from
  \<open>ReadFromFile\<close> record by record, in order, with its source agent and its bytes, however the reads
  are cut, as long as no record has a part over 100 MB.\<close>

theorem trace_file_roundtrip:
  assumes "\<forall>r \<in> set (events_received evs). storable r" and "steady outcomes"
    and "fileWriter evs (0, t, \<lparr>w_written = [], w_outcomes = outcomes\<rparr>) = (cnt, t', f)"
    and "\<forall>c \<in> set cs. c \<noteq> []" and "concat cs = w_written f"
  shows "\<exists>cs'. read_records (length (events_received evs)) cs =
    Inr (map (\<lambda>r. (rb_source_agent r, rb_buffer r)) (events_received evs), cs') \<and> concat cs' = []"
proof -
  have "concat cs = concat (map record_bytes (events_received evs)) @ []"
    using fileWriter_ok [of "\<lparr>w_written = [], w_outcomes = outcomes\<rparr>" evs 0 t] assms(2,3,5) by simp
  from read_records_ok [OF assms(1,4) this] show ?thesis .
qed

theorem trace_file_roundtrip_witness:
  "\<exists>cs'. read_records 1 [[2, 0], [0, 0, 97, 58, 1], [0, 0, 0, 7]] = Inr ([(''a:'', [7])], cs') \<and> concat cs' = []"
proof -
  let ?r = "\<lparr>rb_trace_id = 5, rb_source_agent = ''a:'', rb_buffer = [7]\<rparr>"
  have f: "fileWriter [Tick 3, Received ?r, Tick 9] (0, 0, \<lparr>w_written = [], w_outcomes = [Takes 3]\<rparr>) =
      (0, 9, \<lparr>w_written = [2, 0, 0, 0, 97, 58, 1, 0, 0, 0, 7], w_outcomes = []\<rparr>)" by code_simp
  show ?thesis
    using trace_file_roundtrip [OF _ _ f, of "[[2, 0], [0, 0, 97, 58, 1], [0, 0, 0, 7]]"]
    by (simp add: storable_def MAX_FRAME_def)
qed

text \<open>The file writer accepts a buffer over 100 MB that the reader then refuses: the record is in the
  file but \<open>ReadFromFile\<close> fails on it.\<close>

theorem oversized_record_unreadable:
  assumes "MAX_FRAME < length (rb_buffer r)" and "length (rb_buffer r) < 2 ^ 32"
    and "length (rb_source_agent r) \<le> MAX_FRAME" and "steady (w_outcomes f)"
    and "\<forall>c \<in> set cs. c \<noteq> []" and "concat cs = record_bytes r"
  shows "fst (WriteToFile r f) = False \<and> ReadFromFile cs = Inl (InvalidSize (length (rb_buffer r)))"
proof -
  from disk.get_frame [of "string_bytes (rb_source_agent r)" cs "frame_bytes (rb_buffer r)"] assms obtain cs1 where
    c: "readFileLengthPrefixed cs = Inr (string_bytes (rb_source_agent r), cs1)" "\<forall>c \<in> set cs1. c \<noteq> []"
      "concat cs1 = le_bytes 4 (length (rb_buffer r)) @ rb_buffer r"
    by (auto simp: record_bytes_def frame_bytes_def)
  from doRead_ok [OF c(3) length_le_bytes] obtain cs2 where "doRead 4 cs1 = Inr (le_bytes 4 (length (rb_buffer r)), cs2)"
    by blast
  then have "readFileLengthPrefixed cs1 = Inl (InvalidSize (length (rb_buffer r)))"
    using assms(1) le_nat_frame [OF assms(2)] doFileRead_eq [OF c(2)] by (simp add: readFileLengthPrefixed_def)
  with c(1) WriteToFile_ok [OF assms(4), of r] show ?thesis by (auto simp: ReadFromFile_def)
qed

theorem oversized_record_unreadable_witness:
  "\<exists>(r :: ReceivedBuffer) cs. length (rb_buffer r) = 104857601 \<and> ReadFromFile cs = Inl (InvalidSize 104857601)"
proof -
  define n :: nat where "n = 104857601"
  define r where "r = \<lparr>rb_trace_id = 5, rb_source_agent = ''a'', rb_buffer = replicate n 0\<rparr>"
  have l: "length (rb_buffer r) = n" "length (rb_source_agent r) = 1" by (simp_all add: r_def)
  have "0 < length (record_bytes r)" by (simp only: record_bytes_def frame_bytes_def length_append length_le_bytes)
  then have ne: "record_bytes r \<noteq> []" by blast
  have "MAX_FRAME < n" "n < 2 ^ 32" "1 \<le> MAX_FRAME" by (simp_all add: MAX_FRAME_def n_def)
  with oversized_record_unreadable [of r "\<lparr>w_written = [], w_outcomes = []\<rparr>" "[record_bytes r]"] l ne
  have "ReadFromFile [record_bytes r] = Inl (InvalidSize n)" by simp
  with l show ?thesis unfolding n_def by blast
qed

end
