(* ===== verification/Report_Path.thy ===== *)
theory Report_Path
  imports Collector
begin

text \<open>
  The path of triggered data from an agent's buffer pool to the collector: the reporting goroutine
  at one end of a connection and \<^verbatim>\<open>handleConnection\<close> at the other.
\<close>

lemma payload_length: "length (buffer_payload pool sz b) < 2 ^ 32"
  using le_at_less [of pool "nat (b * sz) + 24" 4] by (simp add: buffer_payload_def slice_bytes_def)

lemma handshake_steady:
  assumes "steady (w_outcomes w)"
  shows "\<exists>w'. writeConnectionHandshake r w = (False, w') \<and> steady (w_outcomes w') \<and>
    w_written w' = w_written w @ frame_bytes (string_bytes (rp_agent_addr r))"
proof -
  obtain e w' where w: "writeLengthPrefixed (string_bytes (rp_agent_addr r)) w = (e, w')"
    by (cases "writeLengthPrefixed (string_bytes (rp_agent_addr r)) w")
  from writeLengthPrefixed_ok [OF w] w assms show ?thesis by (simp add: writeConnectionHandshake_def)
qed

text \<open>Whatever the network does, also when a write fails half-way, reporting a batch ends and gives
  all buffers of the batch back to the pool, exactly once.\<close>

theorem reportData_returns_buffers:
  assumes "\<forall>b \<in> set buffers. reportable pool (rp_buffer_size r) b"
  shows "\<exists>err r' conn'. reportData rl pool buffers (r, conn, available) =
    Inr (err, r', conn', if buffers = [] then available else available @ [buffers])"
  using reportData_ok [OF assms] by blast

text \<open>A concrete pool: its buffer 0 has the header of trace 7 and 40 used bytes.\<close>

definition demo_pool :: pool where
  "demo_pool i = (if i = 0 then 7 else if i = 24 then 40 else 0)"

definition demo_reporting :: "int Reporting" where
  "demo_reporting = InitReporting ticking 4096 1 True ''c:80'' ''h'' ''9''"

lemma demo_size: "le_at demo_pool 24 4 = 40"
  by code_simp

lemma demo_reportable: "reportable demo_pool (rp_buffer_size demo_reporting) 0"
  by (simp add: reportable_def demo_size demo_reporting_def InitReporting_def Let_def POOL_LIMIT_def)

theorem reportData_returns_buffers_witness:
  "\<exists>err r' conn'. reportData ticking demo_pool [0] (demo_reporting, \<lparr>w_written = [], w_outcomes = [Takes 2, Fails 1]\<rparr>, [[9]]) =
    Inr (err, r', conn', [[9], [0]])"
  using reportData_returns_buffers [of "[0]" demo_pool demo_reporting ticking _ "[[9]]"] demo_reportable by simp

text \<open>C12: Reported data arrives: over a connection that does not break, the collector receives exactly
  the payloads of the reported buffers that are at least a header long, in the order in which they were
  reported, labelled with the agent's address and the trace id of their header, however the network cuts
  the bytes into pieces; and all buffers are back in the pool.\<close>

theorem report_reaches_collector:
  assumes "\<forall>bs \<in> set batches. \<forall>b \<in> set bs. reportable pool (rp_buffer_size r) b"
    and "rp_enabled r" and "length (rp_agent_addr r) < 2 ^ 32" and "steady outcomes"
  shows "\<exists>r' conn'. ReportData rl pool batches (r, \<lparr>w_written = [], w_outcomes = outcomes\<rparr>, available) =
      Inr (False, [], r', conn', available @ filter (\<lambda>bs. bs \<noteq> []) batches) \<and>
    (\<forall>pieces. concat pieces = w_written conn' \<longrightarrow>
       handleConnection pieces = Inr (map (received_of (rp_agent_addr r))
         (filter (\<lambda>buf. 32 \<le> length buf) (map (buffer_payload pool (rp_buffer_size r)) (concat batches)))))"
proof -
  let ?w = "\<lparr>w_written = [], w_outcomes = outcomes\<rparr>" and ?ps = "map (buffer_payload pool (rp_buffer_size r)) (concat batches)"
  from handshake_steady [of ?w r] assms(4) obtain w1 where w1: "writeConnectionHandshake r ?w = (False, w1)"
    "steady (w_outcomes w1)" "w_written w1 = frame_bytes (string_bytes (rp_agent_addr r))" by auto
  from report_batches_ok [OF assms(1,2) w1(2), of rl available] obtain r' w' where w':
    "report_batches rl pool batches (r, w1, available) = Inr (False, [], r', w', available @ filter (\<lambda>bs. bs \<noteq> []) batches)"
    "w_written w' = w_written w1 @ concat (map frame_bytes ?ps)" by (auto simp: comp_def)
  have "handleConnection pieces = Inr (map (received_of (rp_agent_addr r)) (filter (\<lambda>buf. 32 \<le> length buf) ?ps))"
    if "concat pieces = w_written w'" for pieces
    by (rule handleConnection_frames [OF assms(3)]) (use payload_length that w' w1 in auto)
  with w1 w'(1) show ?thesis by (auto simp: ReportData_def)
qed

theorem report_reaches_collector_witness:
  "\<exists>r' conn'. ReportData ticking demo_pool [[0], []] (demo_reporting, \<lparr>w_written = [], w_outcomes = [Takes 2, Takes 0, Takes 5]\<rparr>, []) =
      Inr (False, [], r', conn', [[0]]) \<and>
    (\<forall>pieces. concat pieces = w_written conn' \<longrightarrow>
       handleConnection pieces = Inr [received_of ''h:9'' (buffer_payload demo_pool 4096 0)]) \<and>
    rb_trace_id (received_of ''h:9'' (buffer_payload demo_pool 4096 0)) = 7"
proof -
  have a: "\<forall>bs \<in> set [[0], []]. \<forall>b \<in> set bs. reportable demo_pool (rp_buffer_size demo_reporting) b"
    using demo_reportable by simp
  have e: "rp_enabled demo_reporting" "rp_agent_addr demo_reporting = ''h:9''" "rp_buffer_size demo_reporting = 4096"
    by (simp_all add: demo_reporting_def InitReporting_def Let_def)
  have p: "length (buffer_payload demo_pool 4096 0) = 40" by (simp add: buffer_payload_def slice_bytes_def demo_size)
  have t: "rb_trace_id (received_of ''h:9'' (buffer_payload demo_pool 4096 0)) = 7" by code_simp
  from report_reaches_collector [OF a e(1), of "[Takes 2, Takes 0, Takes 5]" ticking "[]"] show ?thesis by (simp add: e p t)
qed

end
