(* ===== verification/Connections.thy ===== *)
theory Connections
  imports Dissemination Report_Path
begin

text \<open>
  The loops that connect to a peer, report over the connection and connect again after an error:
  \<^verbatim>\<open>TriggersLoop\<close> and \<^verbatim>\<open>BreadcrumbsLoop\<close> of \<^verbatim>\<open>pkg/agent/coordinator.go\<close>, \<^verbatim>\<open>AgentLoop\<close> of
  \<^verbatim>\<open>pkg/coordinator/server.go\<close> and \<^verbatim>\<open>Run\<close> of \<^verbatim>\<open>pkg/agent/reporting.go\<close>.  What dialling finds is a list of
  outcomes; the pause of two seconds between two attempts changes nothing.  The variable \<^verbatim>\<open>firsttime\<close>
  only decides what is logged.
\<close>

section \<open>The connection loop\<close>

text \<open>One attempt: the context is cancelled (before dialling or while pausing), dialling fails, or there is
  a connection.\<close>

datatype 'c dial = Ctx_done | Dial_failed | Connected 'c

text \<open>A session over a connection gives its outcome, what is left to be selected, and the world.  After
  \<open>Stopped\<close> the context stays cancelled, which ends the loop too.\<close>

fun connect_loop ::
    "('c \<Rightarrow> 'q \<Rightarrow> 'w \<Rightarrow> outcome \<times> 'q \<times> 'w) \<Rightarrow> 'c dial list \<Rightarrow> 'q \<Rightarrow> 'w \<Rightarrow> outcome \<times> 'q \<times> 'w" where
  "connect_loop session [] q w = (Waiting, q, w)"
| "connect_loop session (Ctx_done # ds) q w = (Stopped, q, w)"
| "connect_loop session (Dial_failed # ds) q w = connect_loop session ds q w"
| "connect_loop session (Connected c # ds) q w =
     (case session c q w of
        (Failed, q', w') \<Rightarrow> connect_loop session ds q' w'
      | (r, q', w') \<Rightarrow> (r, q', w'))"

text \<open>The selections a reporting loop has not used when it ends.\<close>

function report_rest ::
    "('m \<Rightarrow> 'a list) \<Rightarrow> ('a list \<Rightarrow> 'w \<Rightarrow> bool \<times> 'w) \<Rightarrow> 'm selection list \<Rightarrow> 'w \<Rightarrow> 'm selection list" where
  "report_rest items send ps w =
     (case gather items ps of
        Inl r \<Rightarrow> []
      | Inr (acc, ps') \<Rightarrow>
          (case send acc w of (success, w') \<Rightarrow> if success then report_rest items send ps' w' else ps'))"
  by pat_completeness auto

termination
  by (relation "measure (\<lambda>(items, send, ps, w). length ps)") (auto dest: gather_shorter)

declare report_rest.simps [simp del]

definition TriggersLoop ::
    "AgentCoordinator \<Rightarrow> (TriggerRequest \<Rightarrow> 'w \<Rightarrow> bool \<times> 'w) \<Rightarrow> unit dial list \<Rightarrow> Trigger list selection list \<Rightarrow> 'w
       \<Rightarrow> outcome \<times> Trigger list selection list \<times> 'w" where
  "TriggersLoop r rpc = connect_loop (\<lambda>_ ps w.
     case agent_ReportTriggers r rpc ps w of (result, w') \<Rightarrow>
       (result, report_rest (\<lambda>triggers. triggers) (sendTriggers r rpc) ps w, w'))"

text \<open>Each session of \<^verbatim>\<open>BreadcrumbsLoop\<close> starts with an empty table of address numbers.\<close>

definition breadcrumb_items :: "(u64, string list) gomap \<Rightarrow> (u64, string list) gomap list" where
  "breadcrumb_items breadcrumbs = (if length breadcrumbs > 0 then [breadcrumbs] else [])"

definition BreadcrumbsLoop ::
    "AgentCoordinator \<Rightarrow> (BreadcrumbsRequest \<Rightarrow> 'w \<Rightarrow> bool \<times> 'w) \<Rightarrow> unit dial list \<Rightarrow> (u64, string list) gomap selection list
       \<Rightarrow> 'w \<Rightarrow> outcome \<times> (u64, string list) gomap selection list \<times> 'w" where
  "BreadcrumbsLoop r rpc = connect_loop (\<lambda>_ ps w.
     case ReportBreadcrumbs r rpc ps w of (result, e, w') \<Rightarrow>
       (result, report_rest breadcrumb_items (send_breadcrumbs r rpc) ps (\<lparr>en_ids = [], en_seed = 0\<rparr>, w), w'))"

definition AgentLoop ::
    "(TriggerRequest \<Rightarrow> 'w \<Rightarrow> bool \<times> 'w) \<Rightarrow> unit dial list \<Rightarrow> CoordTrigger list selection list \<Rightarrow> 'w
       \<Rightarrow> outcome \<times> CoordTrigger list selection list \<times> 'w" where
  "AgentLoop rpc = connect_loop (\<lambda>_ ps w.
     case server_ReportTriggers rpc ps w of (result, w') \<Rightarrow>
       (result, report_rest (\<lambda>triggers. if length triggers > 0 then triggers else []) (doSend rpc) ps w, w'))"

text \<open>
  The reporting goroutine: the batches waiting in its channel, the connections dialling yields, and the
  state.  The used connections are collected; the source defers closing them to the end of \<^verbatim>\<open>Run\<close>.
\<close>

fun Reporting_Run ::
    "'b ratelimit \<Rightarrow> pool \<Rightarrow> writer dial list \<Rightarrow> buffer list list \<Rightarrow> 'b Reporting \<times> writer list \<times> buffer list list \<Rightarrow>
       (buffer list list \<times> 'b Reporting \<times> writer list \<times> buffer list list) result" where
  "Reporting_Run rl pool [] batches st = Inr (batches, st)"
| "Reporting_Run rl pool (Ctx_done # ds) batches st = Inr (batches, st)"
| "Reporting_Run rl pool (Dial_failed # ds) batches st = Reporting_Run rl pool ds batches st"
| "Reporting_Run rl pool (Connected conn # ds) batches (r, conns, available) =
     rbind (ReportData rl pool batches (r, conn, available)) (\<lambda>(err, rest, r', conn', available').
       if err then Reporting_Run rl pool ds rest (r', conns @ [conn'], available')
       else Inr (rest, r', conns @ [conn'], available'))"

section \<open>What is sent\<close>

text \<open>Sending batches one after the other, whether or not a call fails.\<close>

definition attempt :: "('a list \<Rightarrow> 'w \<Rightarrow> bool \<times> 'w) \<Rightarrow> 'a list list \<Rightarrow> 'w \<Rightarrow> 'w" where
  "attempt send = fold (\<lambda>b w. snd (send b w))"

text \<open>No call but the last one fails.\<close>

fun only_last_fails :: "('a list \<Rightarrow> 'w \<Rightarrow> bool \<times> 'w) \<Rightarrow> 'a list list \<Rightarrow> 'w \<Rightarrow> bool" where
  "only_last_fails send [] w = True"
| "only_last_fails send (b # bs) w = (bs = [] \<or> fst (send b w) \<and> only_last_fails send bs (snd (send b w)))"

text \<open>What a session took off its channel: it sends all of it, once and in order, in non-empty batches.\<close>

lemma session_sends:
  assumes "Stop \<notin> set ps"
  shows "\<exists>bs. concat bs @ polled items (report_rest items send ps w) = polled items ps \<and> [] \<notin> set bs \<and>
    Stop \<notin> set (report_rest items send ps w) \<and> snd (report_loop items send ps w) = attempt send bs w \<and>
    only_last_fails send bs w"
  using assms
proof (induction items send ps w rule: report_loop.induct)
  case (1 items send ps w)
  note unfolds = report_loop.simps [of items send ps w] report_rest.simps [of items send ps w]
  show ?case
  proof (cases "gather items ps")
    case (Inl r)
    then show ?thesis using gather_polled [OF 1(2), of items]
      by (intro exI [of _ "[]"]) (simp add: unfolds attempt_def)
  next
    case (Inr q)
    obtain acc ps' where q: "q = (acc, ps')" by (cases q)
    obtain success w' where s: "send acc w = (success, w')" by (cases "send acc w")
    note g = gather_polled [OF 1(2), of items, unfolded Inr q sum.case prod.case]
    show ?thesis
    proof (cases success)
      case True
      from 1(1) [OF Inr q [symmetric] s [symmetric] True] g obtain bs where
        "concat bs @ polled items (report_rest items send ps' w') = polled items ps'" "[] \<notin> set bs"
        "Stop \<notin> set (report_rest items send ps' w')" "snd (report_loop items send ps' w') = attempt send bs w'"
        "only_last_fails send bs w'" by blast
      with True s g show ?thesis
        by (intro exI [of _ "acc # bs"]) (auto simp: unfolds Inr q attempt_def)
    next
      case False
      then show ?thesis using s g by (intro exI [of _ "[acc]"]) (auto simp: unfolds Inr q attempt_def)
    qed
  qed
qed

lemma ReportBreadcrumbs_items:
  "ReportBreadcrumbs r rpc ps w = report_loop breadcrumb_items (send_breadcrumbs r rpc) ps (\<lparr>en_ids = [], en_seed = 0\<rparr>, w)"
  by (simp add: ReportBreadcrumbs_def breadcrumb_items_def [abs_def])

text \<open>The same over any number of connections: a failed batch is not sent again, and nothing else is
  left out.\<close>

lemma connect_loop_sends:
  assumes "Stop \<notin> set ps"
    and "connect_loop (\<lambda>_ ps w. case report_loop items send ps w of (result, w') \<Rightarrow>
        (result, report_rest items send ps w, w')) ds ps w = (result, rest, w')"
  shows "\<exists>bs. concat bs @ polled items rest = polled items ps \<and> [] \<notin> set bs \<and> w' = attempt send bs w"
  using assms
proof (induction ds arbitrary: ps w)
  case Nil
  then show ?case by (intro exI [of _ "[]"]) (simp add: attempt_def)
next
  case (Cons d ds)
  show ?case
  proof (cases d)
    case Ctx_done
    with Cons.prems show ?thesis by (intro exI [of _ "[]"]) (simp add: attempt_def)
  next
    case Dial_failed
    with Cons show ?thesis by simp
  next
    case (Connected c)
    let ?rest = "report_rest items send ps w"
    obtain out w1 where l: "report_loop items send ps w = (out, w1)" by (cases "report_loop items send ps w")
    obtain bs where bs: "concat bs @ polled items ?rest = polled items ps" "[] \<notin> set bs" "Stop \<notin> set ?rest"
      "w1 = attempt send bs w" using session_sends [OF Cons.prems(1), of items send w] l by auto
    show ?thesis
    proof (cases "out = Failed")
      case True
      then obtain bs' where "concat bs' @ polled items rest = polled items ?rest" "[] \<notin> set bs'" "w' = attempt send bs' w1"
        using Cons.IH [OF bs(3), of w1] Cons.prems(2) Connected l by auto
      with bs show ?thesis by (intro exI [of _ "bs @ bs'"]) (auto simp: attempt_def)
    next
      case False
      then have "rest = ?rest" "w' = w1" using Cons.prems(2) Connected l by (cases out; auto)+
      with bs show ?thesis by blast
    qed
  qed
qed

text \<open>An RPC client that notes every request and whether the call succeeded, as the list \<open>fst w\<close> says.\<close>

definition noting_rpc :: "'q \<Rightarrow> bool list \<times> ('q \<times> bool) list \<Rightarrow> bool \<times> bool list \<times> ('q \<times> bool) list" where
  "noting_rpc req = (\<lambda>(plan, noted). case plan of
       [] \<Rightarrow> (True, [], noted @ [(req, True)])
     | success # plan' \<Rightarrow> (success, plan', noted @ [(req, success)]))"

text \<open>
  A channel whose batches become requests of a noting client: \<open>items\<close> is what a message contributes,
  \<open>send i\<close> reports a batch for the sender \<open>i\<close>, if it is able to, as the request \<open>request i\<close>.
\<close>

locale noted_channel =
  fixes items :: "'m \<Rightarrow> 'a list" and able :: "'i \<Rightarrow> bool"
    and send :: "'i \<Rightarrow> 'a list \<Rightarrow> bool list \<times> ('q \<times> bool) list \<Rightarrow> bool \<times> bool list \<times> ('q \<times> bool) list"
    and request :: "'i \<Rightarrow> 'a list \<Rightarrow> 'q"
  assumes sends_request: "able i \<Longrightarrow> send i b w = noting_rpc (request i b) w"
begin

lemma attempt_noting:
  assumes "able i"
  shows "map fst (snd (attempt (send i) bs (plan, noted))) = map fst noted @ map (request i) bs"
proof (induction bs arbitrary: plan noted)
  case (Cons b bs)
  obtain success plan' where "noting_rpc (request i b) (plan, noted) = (success, plan', noted @ [(request i b, success)])"
    by (cases plan) (auto simp: noting_rpc_def)
  with Cons show ?case by (simp add: attempt_def sends_request [OF assms])
qed (simp add: attempt_def)

lemma sent_once:
  assumes "able i" and "Stop \<notin> set ps"
    and "connect_loop (\<lambda>_ ps w. case report_loop items (send i) ps w of (result, w') \<Rightarrow>
        (result, report_rest items (send i) ps w, w')) ds ps (plan, []) = (result, rest, plan', noted)"
  shows "\<exists>bs. concat bs @ polled items rest = polled items ps \<and> [] \<notin> set bs \<and> map fst noted = map (request i) bs"
proof -
  obtain bs where bs: "concat bs @ polled items rest = polled items ps" "[] \<notin> set bs"
    "(plan', noted) = attempt (send i) bs (plan, [])"
    using connect_loop_sends [OF assms(2,3)] by blast
  have "map fst (snd (plan', noted)) = map (request i) bs"
    unfolding bs(3) by (simp add: attempt_noting [OF assms(1)])
  with bs(1,2) show ?thesis by auto
qed

end

interpretation local_channel: noted_channel "\<lambda>triggers. triggers" ac_enabled "\<lambda>r. sendTriggers r noting_rpc" trigger_request
  by unfold_locales (simp add: sendTriggers_def)

interpretation remote_channel: noted_channel "\<lambda>triggers. if length triggers > 0 then triggers else []" "\<lambda>_ :: unit. True"
  "\<lambda>_. doSend noting_rpc" "\<lambda>_. remote_request"
  by unfold_locales (simp add: doSend_def)

lemma report_batches_returns:
  assumes "\<forall>bs \<in> set batches. \<forall>b \<in> set bs. reportable pool (rp_buffer_size r) b"
  shows "\<exists>err taken rest r' w'. report_batches rl pool batches (r, w, av) =
      Inr (err, rest, r', w', av @ filter (\<lambda>bs. bs \<noteq> []) taken) \<and>
    batches = taken @ rest \<and> rp_buffer_size r' = rp_buffer_size r \<and> (\<not> err \<longrightarrow> rest = [])"
  using assms
proof (induction batches arbitrary: r w av)
  case Nil
  then show ?case by auto
next
  case (Cons bs batches)
  let ?av = "if bs = [] then av else av @ [bs]"
  from reportData_ok [of bs pool r rl w av] Cons.prems obtain err r1 w1 where one:
    "reportData rl pool bs (r, w, av) = Inr (err, r1, w1, ?av)" "rp_buffer_size r1 = rp_buffer_size r" by auto
  show ?case
  proof (cases err)
    case True
    with one show ?thesis by - (rule exI [of _ True], rule exI [of _ "[bs]"], auto)
  next
    case False
    have "\<forall>bs \<in> set batches. \<forall>b \<in> set bs. reportable pool (rp_buffer_size r1) b" using Cons.prems one(2) by simp
    from Cons.IH [OF this, of w1 ?av] obtain e taken rest r' w' where
      "report_batches rl pool batches (r1, w1, ?av) = Inr (e, rest, r', w', ?av @ filter (\<lambda>bs. bs \<noteq> []) taken)"
      "batches = taken @ rest" "rp_buffer_size r' = rp_buffer_size r1" "\<not> e \<longrightarrow> rest = []" by blast
    with one False show ?thesis by - (rule exI [of _ e], rule exI [of _ "bs # taken"], auto)
  qed
qed

lemma ReportData_returns:
  assumes "\<forall>bs \<in> set batches. \<forall>b \<in> set bs. reportable pool (rp_buffer_size r) b"
  shows "\<exists>err taken rest r' w'. ReportData rl pool batches (r, conn, available) =
      Inr (err, rest, r', w', available @ filter (\<lambda>bs. bs \<noteq> []) taken) \<and>
    batches = taken @ rest \<and> rp_buffer_size r' = rp_buffer_size r"
proof -
  obtain err conn1 where h: "writeConnectionHandshake r conn = (err, conn1)" by (cases "writeConnectionHandshake r conn")
  show ?thesis
  proof (cases err)
    case True
    with h show ?thesis by - (rule exI [of _ True], rule exI [of _ "[]"], simp add: ReportData_def)
  next
    case False
    with h report_batches_returns [OF assms, of rl conn1 available] show ?thesis by (fastforce simp: ReportData_def)
  qed
qed

section \<open>Properties\<close>


definition demo_local :: Trigger where
  "demo_local = \<lparr>Queue_id = 1, Base_trace_id = 7, Trace_id = 7\<rparr>"


text \<open>The same for the triggers the coordinator sends to an agent.\<close>

lemma remote_triggers_sent_once:
  assumes "Stop \<notin> set ps" and "AgentLoop noting_rpc ds ps (plan, []) = (result, rest, plan', noted)"
  shows "\<exists>bs. concat bs @ polled (\<lambda>triggers. triggers) rest = polled (\<lambda>triggers. triggers) ps \<and> [] \<notin> set bs \<and>
    map fst noted = map remote_request bs"
proof -
  have id: "(\<lambda>triggers :: CoordTrigger list. if length triggers > 0 then triggers else []) = (\<lambda>triggers. triggers)" by auto
  show ?thesis
    using remote_channel.sent_once [OF TrueI assms(1) assms(2) [unfolded AgentLoop_def server_ReportTriggers_def]] unfolding id .
qed

text \<open>C16: However often dialling or writing fails, the reporting goroutine gives every batch it took off
  its channel back to the pool exactly once and in order, and leaves the other batches in the channel;
  none is lost with a broken connection.\<close>

theorem reporting_returns_buffers:
  assumes "\<forall>bs \<in> set batches. \<forall>b \<in> set bs. reportable pool (rp_buffer_size r) b"
  shows "\<exists>taken rest r' conns'. Reporting_Run rl pool ds batches (r, conns, available) =
      Inr (rest, r', conns', available @ filter (\<lambda>bs. bs \<noteq> []) taken) \<and> batches = taken @ rest"
  using assms
proof (induction ds arbitrary: batches r conns available)
  case Nil
  then show ?case by - (rule exI [of _ "[]"], simp)
next
  case (Cons d ds)
  show ?case
  proof (cases d)
    case Ctx_done
    then show ?thesis by - (rule exI [of _ "[]"], simp)
  next
    case Dial_failed
    with Cons show ?thesis by simp
  next
    case (Connected conn)
    obtain err taken rest r' w' where one: "ReportData rl pool batches (r, conn, available) =
        Inr (err, rest, r', w', available @ filter (\<lambda>bs. bs \<noteq> []) taken)"
      "batches = taken @ rest" "rp_buffer_size r' = rp_buffer_size r"
      using ReportData_returns [OF Cons.prems, of rl conn available] by blast
    show ?thesis
    proof (cases err)
      case True
      have "\<forall>bs \<in> set rest. \<forall>b \<in> set bs. reportable pool (rp_buffer_size r') b" using Cons.prems one(2,3) by auto
      from Cons.IH [OF this, of "conns @ [w']" "available @ filter (\<lambda>bs. bs \<noteq> []) taken"]
      obtain taken' rest' r'' conns' where "Reporting_Run rl pool ds rest (r', conns @ [w'], available @ filter (\<lambda>bs. bs \<noteq> []) taken) =
          Inr (rest', r'', conns', (available @ filter (\<lambda>bs. bs \<noteq> []) taken) @ filter (\<lambda>bs. bs \<noteq> []) taken')" "rest = taken' @ rest'"
        by blast
      with one True Connected show ?thesis by - (rule exI [of _ "taken @ taken'"], simp)
    next
      case False
      with one Connected show ?thesis by - (rule exI [of _ taken], simp)
    qed
  qed
qed

theorem reporting_returns_buffers_witness:
  "\<exists>taken rest r' conns'. Reporting_Run ticking demo_pool
      [Dial_failed, Connected \<lparr>w_written = [], w_outcomes = [Fails 1]\<rparr>, Connected \<lparr>w_written = [], w_outcomes = []\<rparr>]
      [[0], [], [0]] (demo_reporting, [], [[9]]) =
      Inr (rest, r', conns', [[9]] @ filter (\<lambda>bs. bs \<noteq> []) taken) \<and> [[0], [], [0]] = taken @ rest"
  using reporting_returns_buffers [of "[[0], [], [0]]" demo_pool demo_reporting ticking
      "[Dial_failed, Connected \<lparr>w_written = [], w_outcomes = [Fails 1]\<rparr>, Connected \<lparr>w_written = [], w_outcomes = []\<rparr>]" "[]" "[[9]]"]
    demo_reportable by simp

section \<open>Breadcrumbs over broken connections\<close>

text \<open>
  What becomes of a call: the coordinator answers it, the request is lost, or the coordinator processes
  it and the answer is lost.  The world: the fate of the coming calls, the coordinator's table of
  addresses for this agent and the requests it decoded.
\<close>

datatype fate = Answered | Lost | Unanswered

definition fate_of :: "fate list \<Rightarrow> fate" where
  "fate_of plan = (case plan of [] \<Rightarrow> Answered | d # ds \<Rightarrow> d)"

type_synonym crumb_world = "fate list \<times> (32 word, string) gomap \<times> (u64, string list) gomap list"

definition unreliable_rpc :: "BreadcrumbsRequest \<Rightarrow> crumb_world \<Rightarrow> bool \<times> crumb_world" where
  "unreliable_rpc req = (\<lambda>(plan, w).
     case fate_of plan of
       Answered \<Rightarrow> (case decoding_rpc req w of (success, w') \<Rightarrow> (success, tl plan, w'))
     | Lost \<Rightarrow> (False, tl plan, w)
     | Unanswered \<Rightarrow> (False, tl plan, snd (decoding_rpc req w)))"

text \<open>The batches of a plan that reach the coordinator.\<close>

fun processed :: "fate list \<Rightarrow> 'b list \<Rightarrow> 'b list" where
  "processed plan [] = []"
| "processed plan (b # bs) = (if fate_of plan = Lost then [] else [b]) @ processed (tl plan) bs"

lemma processed_append: "processed plan (bs @ bs') = processed plan bs @ processed (drop (length bs) plan) bs'"
  by (induction bs arbitrary: plan) (auto simp: drop_Suc)

text \<open>The coordinator decoded exactly these batches.\<close>

definition decoded_as :: "(u64, string list) gomap list list \<Rightarrow> (u64, string list) gomap list \<Rightarrow> bool" where
  "decoded_as bs ms \<longleftrightarrow> list_all2 (\<lambda>b m. \<forall>i. forwarded m i = crumbs_of (concat b) i) bs ms"

lemma decoded_as_append: "decoded_as bs ms \<Longrightarrow> decoded_as bs' ms' \<Longrightarrow> decoded_as (bs @ bs') (ms @ ms')"
  by (simp add: decoded_as_def list_all2_appendI)

lemma send_breadcrumbs_step:
  assumes "ac_enabled r" and "encoder_ok e" and "decodes tbl e"
    and "length (en_ids e) + length (concat (map snd (concat b))) < 2 ^ 32"
  shows "\<exists>e' tbl' new. send_breadcrumbs r unreliable_rpc b (e, plan, tbl, ms) =
      (fate_of plan = Answered, e', tl plan, tbl', ms @ new) \<and> decoded_as (processed plan [b]) new \<and>
    (fate_of plan = Answered \<longrightarrow> encoder_ok e' \<and> decodes tbl' e' \<and>
       length (en_ids e') \<le> length (en_ids e) + length (concat (map snd (concat b))))"
proof -
  obtain e1 req where en: "encode_breadcrumbs (ac_local_addr r) b e = (e1, req)" by (cases "encode_breadcrumbs (ac_local_addr r) b e")
  let ?tbl = "fold register_address (br_Addresses req) tbl"
  from encode_decode [OF assms(2-4) en] obtain m where o: "encoder_ok e1" "decodes ?tbl e1"
    "length (en_ids e1) \<le> length (en_ids e) + length (concat (map snd (concat b)))"
    "unravel ?tbl (ac_local_addr r) (br_Breadcrumbs req) [] = Inr m" "\<forall>i. forwarded m i = crumbs_of (concat b) i" by blast
  have d: "decoding_rpc req (tbl, ms) = (True, ?tbl, ms @ [m])"
    using o(4) encode_breadcrumbs_src [OF en] by (simp add: decoding_rpc_def Let_def)
  show ?thesis
  proof (cases "fate_of plan")
    case Lost
    then show ?thesis using assms(1) en
      by (intro exI [of _ e1] exI [of _ tbl] exI [of _ "[]"]) (simp add: send_breadcrumbs_def unreliable_rpc_def decoded_as_def)
  qed (use assms(1) en d o in \<open>auto simp: send_breadcrumbs_def unreliable_rpc_def decoded_as_def\<close>)
qed

lemma session_decodes:
  assumes "ac_enabled r" and "encoder_ok e" and "decodes tbl e"
    and "length (en_ids e) + length (concat (map snd (concat (concat bs)))) < 2 ^ 32"
    and "only_last_fails (send_breadcrumbs r unreliable_rpc) bs (e, plan, tbl, ms)"
  shows "\<exists>e' tbl' new. attempt (send_breadcrumbs r unreliable_rpc) bs (e, plan, tbl, ms) =
      (e', drop (length bs) plan, tbl', ms @ new) \<and> decoded_as (processed plan bs) new"
  using assms(2-)
proof (induction bs arbitrary: e plan tbl ms)
  case Nil
  then show ?case by (simp add: attempt_def decoded_as_def)
next
  case (Cons b bs)
  have "length (en_ids e) + length (concat (map snd (concat b))) < 2 ^ 32" using Cons.prems(3) by simp
  from send_breadcrumbs_step [OF assms(1) Cons.prems(1,2) this, of plan ms] obtain e1 tbl1 new1 where
    s: "send_breadcrumbs r unreliable_rpc b (e, plan, tbl, ms) = (fate_of plan = Answered, e1, tl plan, tbl1, ms @ new1)"
      "decoded_as (processed plan [b]) new1"
      "fate_of plan = Answered \<longrightarrow> encoder_ok e1 \<and> decodes tbl1 e1 \<and>
         length (en_ids e1) \<le> length (en_ids e) + length (concat (map snd (concat b)))" by blast
  show ?case
  proof (cases "bs = []")
    case True
    with s show ?thesis by (auto simp: attempt_def drop_Suc)
  next
    case False
    then have a: "fate_of plan = Answered" "only_last_fails (send_breadcrumbs r unreliable_rpc) bs (e1, tl plan, tbl1, ms @ new1)"
      using Cons.prems(4) s(1) by simp_all
    then have "length (en_ids e1) + length (concat (map snd (concat (concat bs)))) < 2 ^ 32" using s(3) Cons.prems(3) by simp
    from Cons.IH [OF _ _ this a(2)] s(3) a(1) obtain e' tbl' new where
      "attempt (send_breadcrumbs r unreliable_rpc) bs (e1, tl plan, tbl1, ms @ new1) =
         (e', drop (length bs) (tl plan), tbl', (ms @ new1) @ new)" "decoded_as (processed (tl plan) bs) new" by blast
    then show ?thesis using s(1) decoded_as_append [OF s(2), of "processed (tl plan) bs" new] by (simp add: attempt_def drop_Suc)
  qed
qed

text \<open>One session, from an empty table of numbers.\<close>

lemma breadcrumbs_session:
  fixes plan :: "fate list" and tbl :: "(32 word, string) gomap" and ms :: "(u64, string list) gomap list"
  assumes "ac_enabled r" and "Stop \<notin> set ps" and "length (concat (map snd (concat (polled breadcrumb_items ps)))) < 2 ^ 32"
  defines "w \<equiv> (\<lparr>en_ids = [], en_seed = 0\<rparr> :: encoder, plan, tbl, ms)"
  defines "rest \<equiv> report_rest breadcrumb_items (send_breadcrumbs r unreliable_rpc) ps w"
  shows "\<exists>bs e' tbl' new out. concat bs @ polled breadcrumb_items rest = polled breadcrumb_items ps \<and> [] \<notin> set bs \<and>
    Stop \<notin> set rest \<and> length (concat (map snd (concat (polled breadcrumb_items rest)))) < 2 ^ 32 \<and>
    report_loop breadcrumb_items (send_breadcrumbs r unreliable_rpc) ps w = (out, e', drop (length bs) plan, tbl', ms @ new) \<and>
    decoded_as (processed plan bs) new"
proof -
  let ?send = "send_breadcrumbs r unreliable_rpc"
  obtain bs where bs: "concat bs @ polled breadcrumb_items rest = polled breadcrumb_items ps" "[] \<notin> set bs" "Stop \<notin> set rest"
    "snd (report_loop breadcrumb_items ?send ps w) = attempt ?send bs w" "only_last_fails ?send bs w"
    using session_sends [OF assms(2), of breadcrumb_items ?send w] by (auto simp: rest_def)
  have small: "length (concat (map snd (concat (concat bs)))) + length (concat (map snd (concat (polled breadcrumb_items rest)))) < 2 ^ 32"
    using assms(3) bs(1) by (metis concat_append length_append map_append)
  then have "length (en_ids \<lparr>en_ids = [], en_seed = 0\<rparr>) + length (concat (map snd (concat (concat bs)))) < 2 ^ 32" by simp
  from session_decodes [OF assms(1) encoder_ok_new decodes_new this bs(5) [unfolded w_def]] bs(4)
  obtain e' tbl' new where "snd (report_loop breadcrumb_items ?send ps w) = (e', drop (length bs) plan, tbl', ms @ new)"
    "decoded_as (processed plan bs) new" unfolding w_def by auto
  with bs small show ?thesis by (metis add_lessD1 add.commute prod.collapse)
qed



end
