(* ===== verification/Collector_Run.thy ===== *)
theory Collector_Run
  imports Report_Path Go_Chan
begin

text \<open>
  The running collector (\<^verbatim>\<open>pkg/collector/collector.go\<close>): one goroutine per connection, the channel
  \<^verbatim>\<open>incoming\<close> of 1000 buffers they share, and the goroutine that takes buffers out of it, which writes the
  trace file or only counts.  The goroutines interleave as the steps of a transition relation.
\<close>

section \<open>State\<close>

record Collector =
  cl_tracefile :: string
  cl_port :: string
  cl_incoming :: "ReceivedBuffer chan"

definition Collector_Init :: "string \<Rightarrow> string \<Rightarrow> Collector" where
  "Collector_Init port tracefile = \<lparr>cl_tracefile = tracefile, cl_port = port, cl_incoming = chan_make 1000\<rparr>"

text \<open>The goroutine at the end of the channel: \<^verbatim>\<open>fileWriter\<close>, with its count, the time of its last report
  and the file; \<^verbatim>\<open>printer\<close>; or none, because the file could not be created.\<close>

datatype sink = File "int \<times> time \<times> writer" | Printer "int \<times> time" | No_sink

text \<open>\<open>cr_handlers\<close> holds for every accepted connection what its goroutine will still send.\<close>

record collector_state =
  cr_c :: Collector
  cr_handlers :: "ReceivedBuffer list list"
  cr_sink :: sink

text \<open>\<^verbatim>\<open>Run\<close> up to its loop; \<open>None\<close>: listening fails.  \<open>created\<close> is the new file, if it could be created.\<close>

definition start_Run :: "bool \<Rightarrow> writer option \<Rightarrow> time \<Rightarrow> Collector \<Rightarrow> collector_state option" where
  "start_Run listening created now c =
     (if \<not> listening then None
      else Some \<lparr>cr_c = c, cr_handlers = [],
        cr_sink = (if cl_tracefile c \<noteq> '''' then (case created of None \<Rightarrow> No_sink | Some f \<Rightarrow> File (0, now, f))
                   else Printer (0, now))\<rparr>)"

fun sink_event :: "collector_event \<Rightarrow> sink \<Rightarrow> sink" where
  "sink_event ev (File st) = File (snd (fileWriter_step ev st))"
| "sink_event ev (Printer st) = Printer (snd (printer_step ev st))"
| "sink_event ev No_sink = No_sink"

section \<open>Steps\<close>

text \<open>A connection is accepted, a handler sends its next buffer, the sink takes the next buffer or
  reports its throughput.  The first argument lists the accepted connections, each as the pieces of
  bytes it delivers.\<close>

inductive collector_run :: "collector_state \<Rightarrow> reader list \<Rightarrow> collector_state \<Rightarrow> bool" for st0 where
  start: "collector_run st0 [] st0"
| accept: "collector_run st0 (conns @ [conn]) (st\<lparr>cr_handlers := cr_handlers st @ [rs]\<rparr>)"
    if "collector_run st0 conns st" "handleConnection conn = Inr rs"
| deliver: "collector_run st0 conns (st\<lparr>cr_handlers := (cr_handlers st)[i := rs],
        cr_c := (cr_c st)\<lparr>cl_incoming := chan_send r (cl_incoming (cr_c st))\<rparr>\<rparr>)"
    if "collector_run st0 conns st" "i < length (cr_handlers st)" "cr_handlers st ! i = r # rs"
      "\<not> chan_full (cl_incoming (cr_c st))"
| take: "collector_run st0 conns (st\<lparr>cr_c := (cr_c st)\<lparr>cl_incoming := chan_receive (cl_incoming (cr_c st))\<rparr>,
        cr_sink := sink_event (Received (ch_log (cl_incoming (cr_c st)) ! ch_taken (cl_incoming (cr_c st)))) (cr_sink st)\<rparr>)"
    if "collector_run st0 conns st" "cr_sink st \<noteq> No_sink"
      "ch_taken (cl_incoming (cr_c st)) < length (ch_log (cl_incoming (cr_c st)))"
| tick: "collector_run st0 conns (st\<lparr>cr_sink := sink_event (Tick now) (cr_sink st)\<rparr>)"
    if "collector_run st0 conns st"

section \<open>Interleavings\<close>

text \<open>\<open>ys\<close> is made of the elements of all lists, each list in its order.\<close>

inductive interleaved :: "'a list list \<Rightarrow> 'a list \<Rightarrow> bool" where
  none: "interleaved (replicate n []) []"
| snoc: "interleaved (xss[i := xss ! i @ [y]]) (ys @ [y])" if "interleaved xss ys" "i < length xss"

lemma interleaved_more: "interleaved xss ys \<Longrightarrow> interleaved (xss @ [[]]) ys"
proof (induction rule: interleaved.induct)
  case (none n)
  have "replicate n [] @ [[]] = replicate (Suc n) ([] :: 'a list)" by (simp add: replicate_append_same)
  then show ?case using interleaved.none by metis
next
  case (snoc xss ys i y)
  then show ?case using interleaved.snoc [of "xss @ [[]]" ys i y] by (simp add: list_update_append nth_append)
qed

lemma interleaved_mset: "interleaved xss ys \<Longrightarrow> mset ys = mset (concat xss)"
proof (induction rule: interleaved.induct)
  case (snoc xss ys i y)
  have "xss = take i xss @ xss ! i # drop (Suc i) xss" using snoc.hyps(2) by (simp add: id_take_nth_drop)
  then have "mset (concat xss) = mset (concat (take i xss @ xss ! i # drop (Suc i) xss))" by simp
  then show ?case using snoc by (simp add: upd_conv_take_nth_drop)
qed simp

text \<open>What each connection has sent and still has to send.\<close>

definition split_of :: "reader list \<Rightarrow> ReceivedBuffer list list \<Rightarrow> ReceivedBuffer list list \<Rightarrow> bool" where
  "split_of conns sents handlers \<longleftrightarrow> length sents = length conns \<and> length handlers = length conns \<and>
     (\<forall>i < length conns. handleConnection (conns ! i) = Inr (sents ! i @ handlers ! i))"

lemma split_of_accept:
  "split_of conns sents handlers \<Longrightarrow> handleConnection conn = Inr rs \<Longrightarrow>
   split_of (conns @ [conn]) (sents @ [[]]) (handlers @ [rs])"
  by (auto simp: split_of_def nth_append less_Suc_eq)

lemma split_of_deliver:
  "split_of conns sents handlers \<Longrightarrow> i < length handlers \<Longrightarrow> handlers ! i = r # rs \<Longrightarrow>
   split_of conns (sents[i := sents ! i @ [r]]) (handlers[i := rs])"
  by (auto simp: split_of_def nth_list_update)

section \<open>Invariant\<close>

text \<open>The records in the file, if there is one, are those taken out of the channel.\<close>

definition sink_ok :: "byte list \<Rightarrow> ReceivedBuffer list \<Rightarrow> sink \<Rightarrow> bool" where
  "sink_ok old taken s \<longleftrightarrow> (case s of
       File (cnt, t, f) \<Rightarrow> w_written f = old @ concat (map record_bytes taken) \<and> steady (w_outcomes f)
     | Printer st \<Rightarrow> True
     | No_sink \<Rightarrow> taken = [])"

lemma sink_ok_received:
  "sink_ok old taken s \<Longrightarrow> s \<noteq> No_sink \<Longrightarrow> sink_ok old (taken @ [r]) (sink_event (Received r) s)"
proof (cases s)
  case (File st)
  obtain cnt t f where st: "st = (cnt, t, f)" by (cases st)
  assume "sink_ok old taken s"
  then have f: "w_written f = old @ concat (map record_bytes taken)" "steady (w_outcomes f)" by (simp_all add: sink_ok_def File st)
  from WriteToFile_ok [OF f(2), of r] obtain f' where "WriteToFile r f = (False, f')"
    "w_written f' = w_written f @ record_bytes r" "steady (w_outcomes f')" by blast
  then show ?thesis using f(1) by (simp add: sink_ok_def File st)
qed (simp_all add: sink_ok_def)

lemma sink_ok_tick: "sink_ok old taken s \<Longrightarrow> sink_ok old taken (sink_event (Tick now) s)"
  by (cases s) (auto simp: sink_ok_def split: prod.splits)

definition run_inv :: "byte list \<Rightarrow> reader list \<Rightarrow> collector_state \<Rightarrow> bool" where
  "run_inv old conns st \<longleftrightarrow>
     (\<exists>sents. split_of conns sents (cr_handlers st) \<and> interleaved sents (ch_log (cl_incoming (cr_c st)))) \<and>
     ch_taken (cl_incoming (cr_c st)) \<le> length (ch_log (cl_incoming (cr_c st))) \<and>
     ch_cap (cl_incoming (cr_c st)) = 1000 \<and>
     length (ch_log (cl_incoming (cr_c st))) - ch_taken (cl_incoming (cr_c st)) \<le> 1000 \<and>
     sink_ok old (take (ch_taken (cl_incoming (cr_c st))) (ch_log (cl_incoming (cr_c st)))) (cr_sink st)"

lemma collector_run_inv:
  assumes "collector_run st0 conns st" and "run_inv old [] st0"
  shows "run_inv old conns st"
  using assms
proof (induction rule: collector_run.induct)
  case (accept conns st conn rs)
  then obtain sents where "split_of conns sents (cr_handlers st)" "interleaved sents (ch_log (cl_incoming (cr_c st)))"
    by (auto simp: run_inv_def)
  with accept show ?case
    by (auto simp: run_inv_def intro: exI [of _ "sents @ [[]]"] split_of_accept interleaved_more)
next
  case (deliver conns st i r rs)
  let ?ch = "cl_incoming (cr_c st)"
  from deliver obtain sents where s: "split_of conns sents (cr_handlers st)" "interleaved sents (ch_log ?ch)"
    by (auto simp: run_inv_def)
  have "i < length sents" using s(1) deliver.hyps(2) by (simp add: split_of_def)
  with s deliver.hyps have "split_of conns (sents[i := sents ! i @ [r]]) ((cr_handlers st)[i := rs])"
    "interleaved (sents[i := sents ! i @ [r]]) (ch_log ?ch @ [r])" by (auto intro: split_of_deliver interleaved.snoc)
  with deliver show ?case by (auto simp: run_inv_def chan_send_def chan_full_def)
next
  case (take conns st)
  let ?ch = "cl_incoming (cr_c st)"
  from take have "sink_ok old (List.take (ch_taken ?ch) (ch_log ?ch)) (cr_sink st)" by (simp add: run_inv_def)
  from sink_ok_received [OF this take.hyps(2)] take
  show ?case by (auto simp: run_inv_def chan_receive_def take_Suc_conv_app_nth)
next
  case (tick conns st now)
  then show ?case by (auto simp: run_inv_def intro: sink_ok_tick)
qed

lemma start_inv:
  assumes "start_Run True created now (Collector_Init port tracefile) = Some st"
    and "\<forall>f. created = Some f \<longrightarrow> w_written f = old \<and> steady (w_outcomes f)"
  shows "run_inv old [] st"
  using assms interleaved.none [of 0]
  by (auto simp: run_inv_def start_Run_def Collector_Init_def chan_make_def split_of_def sink_ok_def split: option.splits)

section \<open>Properties\<close>

text \<open>C17: The collector loses nothing and mixes nothing up: however its goroutines interleave, what it has
  taken from its connections is an interleaving of initial parts of what the connections carry, in
  their order; at most 1000 of these buffers are still in memory, and all others are in the trace file,
  one record each.\<close>

theorem collector_stores_all:
  assumes "start_Run True (Some f) now (Collector_Init port tracefile) = Some st0"
    and "tracefile \<noteq> ''''" and "w_written f = []" and "steady (w_outcomes f)"
    and "collector_run st0 conns st"
  shows "\<exists>sents stored waiting cnt t f'. split_of conns sents (cr_handlers st) \<and> interleaved sents (stored @ waiting) \<and>
    length waiting \<le> 1000 \<and> cr_sink st = File (cnt, t, f') \<and> w_written f' = concat (map record_bytes stored)"
proof -
  have inv: "run_inv [] conns st"
    using collector_run_inv [OF assms(5)] start_inv [OF assms(1), of "[]"] assms(3,4) by simp
  let ?ch = "cl_incoming (cr_c st)"
  have "\<exists>fw. cr_sink st = File fw"
    using assms(5)
  proof (induction rule: collector_run.induct)
    case start
    then show ?case using assms(1,2) by (auto simp: start_Run_def Collector_Init_def)
  qed auto
  then obtain cnt t f' where f': "cr_sink st = File (cnt, t, f')" by (metis prod_cases3)
  let ?stored = "take (ch_taken ?ch) (ch_log ?ch)" and ?waiting = "drop (ch_taken ?ch) (ch_log ?ch)"
  from inv obtain sents where "split_of conns sents (cr_handlers st)" "interleaved sents (?stored @ ?waiting)"
    by (auto simp: run_inv_def)
  moreover have "length ?waiting \<le> 1000" using inv by (simp add: run_inv_def)
  moreover have "w_written f' = concat (map record_bytes ?stored)" using inv f' by (simp add: run_inv_def sink_ok_def)
  ultimately show ?thesis using f' by blast
qed

text \<open>A run with one connection that carries one buffer, up to the moment it is stored.\<close>

definition demo_conn :: reader where
  "demo_conn = [frame_bytes (string_bytes ''a''), frame_bytes (replicate 32 0)]"

lemma demo_conn_received: "handleConnection demo_conn = Inr [received_of ''a'' (replicate 32 0)]"
  using handleConnection_frames [of "''a''" "[replicate 32 0]" demo_conn] by (simp add: demo_conn_def)

definition demo_start :: "writer option \<Rightarrow> collector_state" where
  "demo_start created = the (start_Run True created 0 (Collector_Init ''5253'' ''out''))"

lemma demo_start_eq: "start_Run True created 0 (Collector_Init ''5253'' ''out'') = Some (demo_start created)"
  by (simp add: demo_start_def start_Run_def)

lemma demo_delivered:
  "\<exists>st. collector_run (demo_start created) [demo_conn] st \<and> cr_handlers st = [[]] \<and>
     cr_sink st = cr_sink (demo_start created) \<and> ch_log (cl_incoming (cr_c st)) = [received_of ''a'' (replicate 32 0)] \<and>
     ch_taken (cl_incoming (cr_c st)) = 0"
proof -
  let ?s = "demo_start created"
  let ?s1 = "?s\<lparr>cr_handlers := cr_handlers ?s @ [[received_of ''a'' (replicate 32 0)]]\<rparr>"
  have s: "cr_handlers ?s = []" "cl_incoming (cr_c ?s) = chan_make 1000"
    by (simp_all add: demo_start_def start_Run_def Collector_Init_def)
  have "collector_run ?s [demo_conn] ?s1"
    using collector_run.accept [OF collector_run.start demo_conn_received, of ?s] by simp
  from collector_run.deliver [OF this, of 0 "received_of ''a'' (replicate 32 0)" "[]"] s show ?thesis
    by (auto simp: chan_full_def chan_make_def chan_send_def)
qed

theorem collector_stores_all_witness:
  "\<exists>st. collector_run (demo_start (Some \<lparr>w_written = [], w_outcomes = []\<rparr>)) [demo_conn] st \<and>
    (\<exists>sents stored waiting cnt t f'. split_of [demo_conn] sents (cr_handlers st) \<and> interleaved sents (stored @ waiting) \<and>
      length waiting \<le> 1000 \<and> cr_sink st = File (cnt, t, f') \<and> w_written f' = concat (map record_bytes stored))"
proof -
  obtain st where st: "collector_run (demo_start (Some \<lparr>w_written = [], w_outcomes = []\<rparr>)) [demo_conn] st"
    using demo_delivered by blast
  have "\<exists>sents stored waiting cnt t f'. split_of [demo_conn] sents (cr_handlers st) \<and> interleaved sents (stored @ waiting) \<and>
      length waiting \<le> 1000 \<and> cr_sink st = File (cnt, t, f') \<and> w_written f' = concat (map record_bytes stored)"
    by (rule collector_stores_all [OF demo_start_eq _ _ _ st]) simp_all
  with st show ?thesis by blast
qed

text \<open>C37: If the trace file can not be created, the collector keeps accepting connections, but nothing
  takes buffers out of the channel: of all connections together at most 1000 buffers are ever received,
  and then every handler waits for ever.\<close>

theorem collector_without_file_stalls:
  assumes "start_Run True None now (Collector_Init port tracefile) = Some st0" and "tracefile \<noteq> ''''"
    and "collector_run st0 conns st"
  shows "cr_sink st = No_sink \<and> (\<exists>sents. split_of conns sents (cr_handlers st) \<and> length (concat sents) \<le> 1000 \<and>
    (chan_full (cl_incoming (cr_c st)) \<longleftrightarrow> length (concat sents) = 1000))"
proof -
  have inv: "run_inv [] conns st" using collector_run_inv [OF assms(3)] start_inv [OF assms(1)] by simp
  have s: "cr_sink st = No_sink"
    using assms(3)
  proof (induction rule: collector_run.induct)
    case start
    then show ?case using assms(1,2) by (auto simp: start_Run_def Collector_Init_def)
  qed auto
  let ?ch = "cl_incoming (cr_c st)"
  have "ch_taken ?ch = 0 \<or> ch_log ?ch = []" using inv s by (auto simp: run_inv_def sink_ok_def)
  moreover from inv obtain sents where se: "split_of conns sents (cr_handlers st)" "interleaved sents (ch_log ?ch)"
    by (auto simp: run_inv_def)
  moreover have "length (concat sents) = length (ch_log ?ch)" using interleaved_mset [OF se(2)] by (metis size_mset)
  ultimately have "length (concat sents) \<le> 1000 \<and> (chan_full ?ch \<longleftrightarrow> length (concat sents) = 1000)"
    using inv by (auto simp: run_inv_def chan_full_def)
  with s se(1) show ?thesis by blast
qed

theorem collector_without_file_stalls_witness:
  "\<exists>st. collector_run (demo_start None) [demo_conn] st \<and> cr_sink st = No_sink \<and>
    (\<exists>sents. split_of [demo_conn] sents (cr_handlers st) \<and> length (concat sents) \<le> 1000 \<and>
      (chan_full (cl_incoming (cr_c st)) \<longleftrightarrow> length (concat sents) = 1000))"
proof -
  obtain st where st: "collector_run (demo_start None) [demo_conn] st" using demo_delivered by blast
  with collector_without_file_stalls [OF demo_start_eq _ st] show ?thesis by auto
qed

end
