(* ===== verification/Go_Strings.thy ===== *)
theory Go_Strings
  imports Hs_Prelude
begin

text \<open>
  The part of Go's packages \<^verbatim>\<open>strings\<close> and \<^verbatim>\<open>strconv\<close> the program uses, with the laws its
  configuration and telemetry code relies on.
\<close>

section \<open>Searching, splitting and joining\<close>

fun Contains :: "string \<Rightarrow> string \<Rightarrow> bool" where
  "Contains [] sub = (sub = [])"
| "Contains (c # s) sub = (take (length sub) (c # s) = sub \<or> Contains s sub)"

text \<open>\<^verbatim>\<open>strings.Split\<close> at a single character; the result is never empty.\<close>

fun Split :: "string \<Rightarrow> char \<Rightarrow> string list" where
  "Split [] sep = [[]]"
| "Split (c # s) sep =
     (if c = sep then [] # Split s sep else (c # hd (Split s sep)) # tl (Split s sep))"

fun Join :: "string list \<Rightarrow> string \<Rightarrow> string" where
  "Join [] sep = []"
| "Join [x] sep = x"
| "Join (x # y # xs) sep = x @ sep @ Join (y # xs) sep"

text \<open>Indexing a slice panics outside its bounds.\<close>

definition slice_index :: "'a list \<Rightarrow> nat \<Rightarrow> 'a result" where
  "slice_index xs i = (if i < length xs then Inr (xs ! i) else Inl IndexOutOfRange)"

lemma Contains_iff: "Contains s sub \<longleftrightarrow> (\<exists>u v. s = u @ sub @ v)"
proof (induction s)
  case (Cons c s)
  have "take (length sub) (c # s) = sub \<longleftrightarrow> (\<exists>v. c # s = sub @ v)"
    by (metis append_eq_conv_conj append_take_drop_id)
  moreover have "(\<exists>u v. c # s = u @ sub @ v) \<longleftrightarrow> (\<exists>v. c # s = sub @ v) \<or> (\<exists>u v. s = u @ sub @ v)"
    by (auto simp: Cons_eq_append_conv)
  ultimately show ?case using Cons by simp
qed simp

text \<open>A text without the separator lies on one side of it.\<close>

lemma Contains_sep:
  assumes "c \<notin> set sub"
  shows "Contains (xs @ c # ys) sub \<longleftrightarrow> Contains xs sub \<or> Contains ys sub"
proof
  assume "Contains (xs @ c # ys) sub"
  then obtain u v where "xs @ c # ys = u @ sub @ v" by (auto simp: Contains_iff)
  then consider us where "xs = u @ us" "us @ c # ys = sub @ v" | us where "u = xs @ us" "c # ys = us @ sub @ v"
    by (auto simp: append_eq_append_conv2)
  then show "Contains xs sub \<or> Contains ys sub"
  proof cases
    case 1
    then obtain w where "us = sub @ w \<or> sub = us @ w \<and> c # ys = w @ v" by (auto simp: append_eq_append_conv2)
    then show ?thesis
    proof
      assume "us = sub @ w"
      then show ?thesis using 1(1) by (auto simp: Contains_iff)
    next
      assume w: "sub = us @ w \<and> c # ys = w @ v"
      then have "w = []" using assms by (cases w) auto
      then have "xs = u @ sub @ []" using w 1(1) by simp
      then show ?thesis unfolding Contains_iff by blast
    qed
  next
    case 2
    then have "us = [] \<longrightarrow> sub = []" using assms by (cases sub) auto
    with 2 show ?thesis by (cases us) (auto simp: Contains_iff)
  qed
next
  assume "Contains xs sub \<or> Contains ys sub"
  then show "Contains (xs @ c # ys) sub" by (auto simp: Contains_iff) (metis append.assoc append_Cons)+
qed

lemma Split_nonempty [simp]: "Split s sep \<noteq> []"
  by (induction s) auto

lemma Split_none: "sep \<notin> set s \<Longrightarrow> Split s sep = [s]"
  by (induction s) auto

lemma Split_append: "sep \<notin> set s \<Longrightarrow> Split (s @ sep # t) sep = s # Split t sep"
  by (induction s) auto

lemma Join_Split: "Join (Split s sep) [sep] = s"
proof (induction s)
  case (Cons c s)
  have cons: "Join ((c # x) # xs) [sep] = c # Join (x # xs) [sep]" for c x xs by (cases xs) auto
  obtain p ps where p: "Split s sep = p # ps" by (cases "Split s sep") auto
  with Cons cons show ?case by auto
qed simp

section \<open>Decimal numbers\<close>

fun digits :: "nat \<Rightarrow> string" where
  "digits n = (if n < 10 then [char_of (48 + n)] else digits (n div 10) @ [char_of (48 + n mod 10)])"

declare digits.simps [simp del]

definition Itoa :: "int \<Rightarrow> string" where
  "Itoa x = (if x < 0 then ''-'' @ digits (nat (- x)) else digits (nat x))"

definition digit_value :: "char \<Rightarrow> nat" where
  "digit_value c = of_char c - 48"

definition is_digit :: "char \<Rightarrow> bool" where
  "is_digit c \<longleftrightarrow> 48 \<le> (of_char c :: nat) \<and> (of_char c :: nat) \<le> 57"

definition parse_digits :: "string \<Rightarrow> nat option" where
  "parse_digits s = (if s \<noteq> [] \<and> list_all is_digit s then Some (foldl (\<lambda>n c. 10 * n + digit_value c) 0 s) else None)"

text \<open>\<^verbatim>\<open>strconv.ParseInt(s, 10, 64)\<close>; the result is \<open>None\<close> on a syntax or a range error.\<close>

definition ParseInt :: "string \<Rightarrow> int option" where
  "ParseInt s =
     (let (neg, ds) = (case s of
          c # cs \<Rightarrow> if c = CHR ''+'' then (False, cs) else if c = CHR ''-'' then (True, cs) else (False, s)
        | [] \<Rightarrow> (False, []))
      in case parse_digits ds of
           None \<Rightarrow> None
         | Some n \<Rightarrow>
             if neg then (if n \<le> 2 ^ 63 then Some (- int n) else None)
             else (if n < 2 ^ 63 then Some (int n) else None))"

lemma digit_char: "d < 10 \<Longrightarrow> is_digit (char_of (48 + d)) \<and> digit_value (char_of (48 + d)) = d"
  by (simp add: is_digit_def digit_value_def of_char_of)

lemma parse_digits_digits: "parse_digits (digits n) = Some n"
proof -
  have "digits n \<noteq> [] \<and> list_all is_digit (digits n) \<and> foldl (\<lambda>n c. 10 * n + digit_value c) 0 (digits n) = n"
  proof (induction n rule: digits.induct)
    case (1 n)
    show ?case
    proof (cases "n < 10")
      case True
      then show ?thesis using digit_char [of n] by (simp add: digits.simps [of n])
    next
      case False
      have "n mod 10 < 10" by simp
      then show ?thesis using 1 [OF False] digit_char [of "n mod 10"] False by (simp add: digits.simps [of n])
    qed
  qed
  then show ?thesis by (simp add: parse_digits_def)
qed

lemma digits_head: "\<exists>c cs. digits n = c # cs \<and> is_digit c"
  using parse_digits_digits [of n] by (cases "digits n") (auto simp: parse_digits_def split: if_splits)

lemma ParseInt_Itoa:
  assumes "- (2 ^ 63) \<le> x" and "x < 2 ^ 63"
  shows "ParseInt (Itoa x) = Some x"
proof (cases "x < 0")
  case True
  then show ?thesis using assms by (simp add: ParseInt_def Itoa_def parse_digits_digits)
next
  case False
  obtain c cs where d: "digits (nat x) = c # cs" "is_digit c" using digits_head by blast
  then have "c \<noteq> CHR ''+''" "c \<noteq> CHR ''-''" by (auto simp: is_digit_def)
  then show ?thesis using False assms d(1) parse_digits_digits [of "nat x"] by (simp add: ParseInt_def Itoa_def)
qed

lemma comma_not_digit: "CHR '','' \<notin> set (Itoa x)"
proof -
  have "list_all is_digit (digits n)" for n using parse_digits_digits [of n] by (simp add: parse_digits_def split: if_splits)
  moreover have "\<not> is_digit (CHR '','')" by (simp add: is_digit_def)
  ultimately have "CHR '','' \<notin> set (digits n)" for n by (metis list_all_iff)
  then show ?thesis by (simp add: Itoa_def)
qed

end
