(* ===== verification/Telemetry.thy ===== *)
theory Telemetry
  imports Go_Strings
begin

text \<open>
  Telemetry output (\<^verbatim>\<open>pkg/telemetry\<close>): rows of named values, the receivers that write them, and the
  reporter that asks for the next rows on every tick.  A receiver acts on a world: the lines of the
  standard output, or the buffered CSV writer of the Go library and the records of its file.
\<close>

type_synonym row = "(string, string) gomap"

section \<open>Receivers\<close>

text \<open>The inner loop of both \<^verbatim>\<open>Report\<close> methods: the value of each column, empty where the row has none.\<close>

definition row_values :: "string list \<Rightarrow> row \<Rightarrow> string list" where
  "row_values headers row = map (\<lambda>column. case mget row column of Some v \<Rightarrow> v | None \<Rightarrow> '''') headers"

text \<open>A receiver: its three methods, which may fail, over a world \<open>'w\<close>.\<close>

record 'w receiver =
  rc_Init :: "string list \<Rightarrow> 'w \<Rightarrow> bool \<times> 'w"
  rc_Close :: "'w \<Rightarrow> bool \<times> 'w"
  rc_Report :: "row list \<Rightarrow> 'w \<Rightarrow> bool \<times> 'w"

definition NullReceiver :: "'w receiver" where
  "NullReceiver = \<lparr>rc_Init = (\<lambda>_ w. (True, w)), rc_Close = (\<lambda>w. (True, w)), rc_Report = (\<lambda>_ w. (True, w))\<rparr>"

text \<open>The headers a receiver was initialised with, and what it has printed.\<close>

record stdout_state =
  so_headers :: "string list"
  so_lines :: "string list"

definition StdoutReceiver :: "string \<Rightarrow> stdout_state receiver" where
  "StdoutReceiver separator =
     \<lparr>rc_Init = (\<lambda>headers w. (True, w\<lparr>so_headers := headers,
        so_lines := so_lines w @ [''TelemetryHeaders: '' @ Join headers separator]\<rparr>)),
      rc_Close = (\<lambda>w. (True, w)),
      rc_Report = (\<lambda>rows w. (True, w\<lparr>so_lines := so_lines w @
        map (\<lambda>row. ''Telemetry: '' @ Join (row_values (so_headers w) row) separator) rows\<rparr>))\<rparr>"

text \<open>
  The writer of \<^verbatim>\<open>encoding/csv\<close>, by whole records: \<open>cs_buffer\<close> holds what was written and not flushed,
  \<open>cs_records\<close> what is in the file.  \<open>cs_faults\<close> tells how the coming calls end: \<open>None\<close> is a success,
  \<open>Some k\<close> an I/O error after \<open>k\<close> more records reached the file.  The error of the underlying
  \<^verbatim>\<open>bufio.Writer\<close> sticks.  \<^verbatim>\<open>Write\<close> only buffers, \<^verbatim>\<open>WriteAll\<close> flushes.
\<close>

record csv_state =
  cs_headers :: "string list"
  cs_buffer :: "string list list"
  cs_records :: "string list list"
  cs_faults :: "nat option list"

definition csv_Write :: "string list \<Rightarrow> csv_state \<Rightarrow> bool \<times> csv_state" where
  "csv_Write record w =
     (case cs_faults w of
        Some k # rest \<Rightarrow> (False, w\<lparr>cs_faults := Some 0 # rest\<rparr>)
      | None # rest \<Rightarrow> (True, w\<lparr>cs_faults := rest, cs_buffer := cs_buffer w @ [record]\<rparr>)
      | [] \<Rightarrow> (True, w\<lparr>cs_buffer := cs_buffer w @ [record]\<rparr>))"

definition csv_WriteAll :: "string list list \<Rightarrow> csv_state \<Rightarrow> bool \<times> csv_state" where
  "csv_WriteAll records w =
     (case cs_faults w of
        Some k # rest \<Rightarrow> (False, w\<lparr>cs_faults := Some 0 # rest, cs_buffer := [],
                                   cs_records := cs_records w @ take k (cs_buffer w @ records)\<rparr>)
      | None # rest \<Rightarrow> (True, w\<lparr>cs_faults := rest, cs_buffer := [], cs_records := cs_records w @ cs_buffer w @ records\<rparr>)
      | [] \<Rightarrow> (True, w\<lparr>cs_buffer := [], cs_records := cs_records w @ cs_buffer w @ records\<rparr>))"

text \<open>\<^verbatim>\<open>Close\<close> closes the file and does not flush the writer.\<close>

definition CsvReceiver :: "csv_state receiver" where
  "CsvReceiver =
     \<lparr>rc_Init = (\<lambda>headers w. csv_Write headers (w\<lparr>cs_headers := headers\<rparr>)),
      rc_Close = (\<lambda>w. (case cs_faults w of Some k # rest \<Rightarrow> False | _ \<Rightarrow> True, w\<lparr>cs_buffer := []\<rparr>)),
      rc_Report = (\<lambda>rows w. csv_WriteAll (map (row_values (cs_headers w)) rows) w)\<rparr>"

text \<open>\<^verbatim>\<open>NewCsvReceiver\<close>: a fresh file, or the error of creating it.\<close>

definition NewCsvReceiver :: "bool \<Rightarrow> nat option list \<Rightarrow> csv_state option" where
  "NewCsvReceiver created faults =
     (if \<not> created then None else Some \<lparr>cs_headers = [], cs_buffer = [], cs_records = [], cs_faults = faults\<rparr>)"

text \<open>Several receivers: each one is called, and the errors are counted.\<close>

definition multi_call :: "('w receiver \<Rightarrow> 'w \<Rightarrow> bool \<times> 'w) \<Rightarrow> 'w receiver list \<Rightarrow> 'w \<Rightarrow> nat \<times> 'w" where
  "multi_call method receivers w =
     fold (\<lambda>receiver (errors, w). case method receiver w of (success, w') \<Rightarrow> (if success then errors else Suc errors, w'))
       receivers (0, w)"

definition MultiReceiver :: "'w receiver list \<Rightarrow> 'w receiver" where
  "MultiReceiver receivers =
     \<lparr>rc_Init = (\<lambda>headers w. case multi_call (\<lambda>r. rc_Init r headers) receivers w of (errors, w') \<Rightarrow> (\<not> errors > 0, w')),
      rc_Close = (\<lambda>w. case multi_call rc_Close receivers w of (errors, w') \<Rightarrow> (\<not> errors > 0, w')),
      rc_Report = (\<lambda>rows w. case multi_call (\<lambda>r. rc_Report r rows) receivers w of (errors, w') \<Rightarrow> (\<not> errors > 0, w'))\<rparr>"

section \<open>The reporter\<close>

text \<open>A generator: the headers, and the rows for a time and the interval since the last report.\<close>

record 'g generator =
  gn_Headers :: "string list"
  gn_NextData :: "time \<Rightarrow> duration \<Rightarrow> 'g \<Rightarrow> row list \<times> 'g"

record ('g, 'w) Reporter =
  rp_interval :: duration
  rp_generator :: "'g generator option"
  rp_receiver :: "'w receiver option"

definition Reporter_Init :: "duration \<Rightarrow> 'g generator option \<Rightarrow> 'w receiver option \<Rightarrow> ('g, 'w) Reporter" where
  "Reporter_Init interval gn rc = \<lparr>rp_interval = interval, rp_generator = gn, rp_receiver = rc\<rparr>"

text \<open>
  The select of \<^verbatim>\<open>Run\<close>: the context is cancelled, or a tick at a given time.  The result is \<open>None\<close>
  while the loop still runs, and then whether \<^verbatim>\<open>Run\<close> returned without an error.
\<close>

datatype tick = Cancelled | Tick time

fun reporter_loop :: "'g generator \<Rightarrow> 'w receiver \<Rightarrow> time \<Rightarrow> tick list \<Rightarrow> 'g \<times> 'w \<Rightarrow> bool option \<times> 'g \<times> 'w" where
  "reporter_loop gn rc last_report [] (g, w) = (None, g, w)"
| "reporter_loop gn rc last_report (Cancelled # ts) (g, w) =
     (case rc_Close rc w of (success, w') \<Rightarrow> (Some success, g, w'))"
| "reporter_loop gn rc last_report (Tick now # ts) (g, w) =
     (case gn_NextData gn now (now - last_report) g of (rows, g') \<Rightarrow>
      case rc_Report rc rows w of (success, w') \<Rightarrow>
        if success then reporter_loop gn rc now ts (g', w') else (Some False, g', w'))"

definition Reporter_Run :: "('g, 'w) Reporter \<Rightarrow> time \<Rightarrow> tick list \<Rightarrow> 'g \<times> 'w \<Rightarrow> bool option \<times> 'g \<times> 'w" where
  "Reporter_Run rp start ts = (\<lambda>(g, w).
     case (rp_generator rp, rp_receiver rp) of
       (Some gn, Some rc) \<Rightarrow>
         (case rc_Init rc (gn_Headers gn) w of (success, w') \<Rightarrow>
            if success then reporter_loop gn rc start ts (g, w') else (Some False, g, w'))
     | _ \<Rightarrow> (Some False, g, w))"

section \<open>The agent's choice of receivers\<close>

text \<open>The world of the agent's receivers: the CSV writer and the standard output.\<close>

type_synonym outputs = "csv_state \<times> stdout_state"

definition on_csv :: "csv_state receiver \<Rightarrow> outputs receiver" where
  "on_csv r =
     \<lparr>rc_Init = (\<lambda>headers (c, s). case rc_Init r headers c of (success, c') \<Rightarrow> (success, c', s)),
      rc_Close = (\<lambda>(c, s). case rc_Close r c of (success, c') \<Rightarrow> (success, c', s)),
      rc_Report = (\<lambda>rows (c, s). case rc_Report r rows c of (success, c') \<Rightarrow> (success, c', s))\<rparr>"

definition on_stdout :: "stdout_state receiver \<Rightarrow> outputs receiver" where
  "on_stdout r =
     \<lparr>rc_Init = (\<lambda>headers (c, s). case rc_Init r headers s of (success, s') \<Rightarrow> (success, c, s')),
      rc_Close = (\<lambda>(c, s). case rc_Close r s of (success, s') \<Rightarrow> (success, c, s')),
      rc_Report = (\<lambda>rows (c, s). case rc_Report r rows s of (success, s') \<Rightarrow> (success, c, s'))\<rparr>"

text \<open>\<^verbatim>\<open>initTelemetry\<close>: \<open>None\<close> is the reporter that stays \<^verbatim>\<open>nil\<close> because the file could not be created.\<close>

definition initTelemetry :: "bool \<Rightarrow> string \<Rightarrow> bool \<Rightarrow> duration \<Rightarrow> 'g generator \<Rightarrow> ('g, outputs) Reporter option" where
  "initTelemetry created telemetry_filename verbose report_interval gn =
     (if telemetry_filename \<noteq> '''' \<and> \<not> created then None
      else let receivers = (if telemetry_filename \<noteq> '''' then [on_csv CsvReceiver] else []) @
                           (if verbose then [on_stdout (StdoutReceiver '' '')] else []);
               receivers = (if length receivers = 0 then [NullReceiver] else receivers);
               receiver = (if length receivers = 1 then hd receivers else MultiReceiver receivers)
           in Some (Reporter_Init report_interval (Some gn) (Some receiver)))"

section \<open>Lemmas\<close>

lemma length_row_values [simp]: "length (row_values headers row) = length headers"
  by (simp add: row_values_def)

lemma row_values_nth:
  "i < length headers \<Longrightarrow> row_values headers row ! i = (case mget row (headers ! i) of Some v \<Rightarrow> v | None \<Rightarrow> '''')"
  by (simp add: row_values_def)

text \<open>No receiver is skipped because another one failed.\<close>

lemma multi_call_world: "snd (multi_call method receivers w) = fold (\<lambda>r w. snd (method r w)) receivers w"
proof -
  have "snd (fold (\<lambda>receiver (errors, w). case method receiver w of (success, w') \<Rightarrow> (if success then errors else Suc errors, w'))
      receivers (n, w)) = fold (\<lambda>r w. snd (method r w)) receivers w" for n
  proof (induction receivers arbitrary: n w)
    case (Cons r rs)
    obtain success w' where "method r w = (success, w')" by (cases "method r w")
    with Cons show ?case by simp
  qed simp
  then show ?thesis by (simp add: multi_call_def)
qed

text \<open>The rows a generator produces before the context is cancelled.\<close>

fun rows_of :: "'g generator \<Rightarrow> time \<Rightarrow> tick list \<Rightarrow> 'g \<Rightarrow> row list" where
  "rows_of gn start (Tick now # ts) g =
     (case gn_NextData gn now (now - start) g of (rows, g') \<Rightarrow> rows @ rows_of gn now ts g')"
| "rows_of gn start _ g = []"

fun has_tick :: "tick list \<Rightarrow> bool" where
  "has_tick (Tick now # ts) = True"
| "has_tick _ = False"

lemma rows_of_no_tick: "\<not> has_tick ts \<Longrightarrow> rows_of gn start ts g = []"
  by (cases ts rule: has_tick.cases) auto

text \<open>What one report leaves in the file and in the buffer.\<close>

lemma csv_Report:
  assumes "rc_Report CsvReceiver rows w = (success, w')"
  shows "cs_headers w' = cs_headers w" and "cs_buffer w' = []"
    and "success \<Longrightarrow> cs_records w' = cs_records w @ cs_buffer w @ map (row_values (cs_headers w)) rows"
    and "\<exists>k. cs_records w' = cs_records w @ take k (cs_buffer w @ map (row_values (cs_headers w)) rows)"
  using assms by (auto simp: CsvReceiver_def csv_WriteAll_def split: list.splits option.splits
      intro: exI [of _ "length (cs_buffer w @ map (row_values (cs_headers w)) rows)"])

lemma take_flushed: "k \<le> length ys \<Longrightarrow> xs @ take k ys = take (length xs + k) (xs @ ys @ zs)"
  by simp

lemma csv_loop:
  assumes "reporter_loop gn CsvReceiver start ts (g, w) = (r, g', w')"
  shows "(\<exists>n. cs_records w' = take n (cs_records w @ cs_buffer w @ map (row_values (cs_headers w)) (rows_of gn start ts g))) \<and>
    (r \<noteq> Some False \<longrightarrow> cs_records w' =
      (if has_tick ts then cs_records w @ cs_buffer w @ map (row_values (cs_headers w)) (rows_of gn start ts g) else cs_records w))"
  using assms
proof (induction ts arbitrary: start g w)
  case Nil
  then have "cs_records w' = take (length (cs_records w)) (cs_records w @ cs_buffer w)" by simp
  then have "\<exists>n. cs_records w' = take n (cs_records w @ cs_buffer w)" by blast
  then show ?case using Nil by simp
next
  case (Cons t ts)
  show ?case
  proof (cases t)
    case Cancelled
    then have "cs_records w' = take (length (cs_records w)) (cs_records w @ cs_buffer w)"
      using Cons.prems by (auto simp: CsvReceiver_def)
    then have "\<exists>n. cs_records w' = take n (cs_records w @ cs_buffer w)" by blast
    then show ?thesis using Cons.prems Cancelled by (auto simp: CsvReceiver_def)
  next
    case (Tick now)
    obtain rows g1 where n: "gn_NextData gn now (now - start) g = (rows, g1)" by (cases "gn_NextData gn now (now - start) g")
    obtain success w1 where c: "rc_Report CsvReceiver rows w = (success, w1)" by (cases "rc_Report CsvReceiver rows w")
    note R = csv_Report [OF c]
    let ?rest = "map (row_values (cs_headers w)) (rows_of gn now ts g1)"
    let ?new = "cs_buffer w @ map (row_values (cs_headers w)) rows"
    show ?thesis
    proof (cases success)
      case True
      then have loop: "reporter_loop gn CsvReceiver now ts (g1, w1) = (r, g', w')"
        using Cons.prems Tick n c by simp
      show ?thesis using Cons.IH [OF loop] R(1,2) R(3) [OF True] Tick n
        by (cases "has_tick ts") (simp_all add: rows_of_no_tick)
    next
      case False
      then have w': "r = Some False" "w' = w1" using Cons.prems Tick n c by simp_all
      obtain k where "cs_records w1 = cs_records w @ take k ?new" using R(4) by blast
      then have "cs_records w' = cs_records w @ take (min k (length ?new)) ?new" using w' by (simp add: min_def)
      also have "\<dots> = take (length (cs_records w) + min k (length ?new)) (cs_records w @ ?new @ ?rest)"
        by (rule take_flushed) simp
      finally have "\<exists>n. cs_records w' = take n (cs_records w @ ?new @ ?rest)" by blast
      then show ?thesis using w' Tick n by simp
    qed
  qed
qed

text \<open>A receiver that treats the CSV file as the CSV receiver alone would.\<close>

definition writes_csv :: "outputs receiver \<Rightarrow> bool" where
  "writes_csv rc \<longleftrightarrow>
     (\<forall>headers c s. \<exists>s'. rc_Init rc headers (c, s) = (case rc_Init CsvReceiver headers c of (success, c') \<Rightarrow> (success, c', s'))) \<and>
     (\<forall>c s. \<exists>s'. rc_Close rc (c, s) = (case rc_Close CsvReceiver c of (success, c') \<Rightarrow> (success, c', s'))) \<and>
     (\<forall>rows c s. \<exists>s'. rc_Report rc rows (c, s) = (case rc_Report CsvReceiver rows c of (success, c') \<Rightarrow> (success, c', s')))"

lemma writes_csv_alone: "writes_csv (on_csv CsvReceiver)"
  by (auto simp: writes_csv_def on_csv_def split: prod.splits)

lemma writes_csv_multi: "writes_csv (MultiReceiver [on_csv CsvReceiver, on_stdout (StdoutReceiver sep)])"
  by (auto simp: writes_csv_def MultiReceiver_def multi_call_def on_csv_def on_stdout_def StdoutReceiver_def split: prod.splits)

lemma writes_csv_loop:
  assumes "writes_csv rc"
  shows "\<exists>s'. reporter_loop gn rc start ts (g, c, s) =
    (case reporter_loop gn CsvReceiver start ts (g, c) of (r, g', c') \<Rightarrow> (r, g', c', s'))"
proof (induction ts arbitrary: start g c s)
  case (Cons t ts)
  show ?case
  proof (cases t)
    case Cancelled
    obtain s' where "rc_Close rc (c, s) = (case rc_Close CsvReceiver c of (success, c') \<Rightarrow> (success, c', s'))"
      using assms unfolding writes_csv_def by blast
    then show ?thesis using Cancelled by (auto split: prod.splits)
  next
    case (Tick now)
    obtain rows g1 where n: "gn_NextData gn now (now - start) g = (rows, g1)" by (cases "gn_NextData gn now (now - start) g")
    obtain success c1 where c: "rc_Report CsvReceiver rows c = (success, c1)" by (cases "rc_Report CsvReceiver rows c")
    obtain s1 where "rc_Report rc rows (c, s) = (success, c1, s1)"
      using assms c unfolding writes_csv_def by (metis case_prod_conv)
    then show ?thesis using Cons.IH [of now g1 c1 s1] n c Tick by (cases success) auto
  qed
qed simp

lemma initTelemetry_csv:
  assumes "filename \<noteq> ''''" and "initTelemetry True filename verbose interval gn = Some rp"
    and "Reporter_Run rp start ts (g, c, s) = (r, g', c', s')"
  shows "Reporter_Run (Reporter_Init interval (Some gn) (Some CsvReceiver)) start ts (g, c) = (r, g', c')"
proof -
  obtain rc where rp: "rp = Reporter_Init interval (Some gn) (Some rc)" and rc: "writes_csv rc"
    using assms(1,2) writes_csv_alone writes_csv_multi by (cases verbose) (auto simp: initTelemetry_def)
  obtain success c1 where i: "rc_Init CsvReceiver (gn_Headers gn) c = (success, c1)" by (cases "rc_Init CsvReceiver (gn_Headers gn) c")
  obtain s1 where "rc_Init rc (gn_Headers gn) (c, s) = (success, c1, s1)"
    using rc i unfolding writes_csv_def by (metis case_prod_conv)
  moreover obtain s2 where "reporter_loop gn rc start ts (g, c1, s1) =
      (case reporter_loop gn CsvReceiver start ts (g, c1) of (r, g', c') \<Rightarrow> (r, g', c', s2))"
    using writes_csv_loop [OF rc, of gn start ts g c1 s1] by (rule exE)
  ultimately show ?thesis using assms(3) i by (auto simp: rp Reporter_Run_def Reporter_Init_def split: if_splits prod.splits)
qed

section \<open>Property\<close>



end
