(* ===== verification/Coord_Logger.thy ===== *)
theory Coord_Logger
  imports Coord_Server Telemetry "HOL-Library.Signed_Division"
begin

text \<open>
  The goroutine of the coordinator's logger (\<^verbatim>\<open>pkg/coordinator/logger.go\<close>): it writes the finished
  triggers of its channel to a CSV file, and drains the channel when it is cancelled.  Each message comes
  with the formatted time of its writing, a float of the Go library.
\<close>

section \<open>Operations\<close>

definition logger_headers :: "string list" where
  "logger_headers = [''t'', ''queue'', ''total_agents'', ''dissemination_time_ms'']"

text \<open>The file of \<^verbatim>\<open>NewCsvLogger\<close>: the result of writing the headers is not looked at.\<close>

definition new_log_file :: "nat option list \<Rightarrow> csv_state" where
  "new_log_file faults =
     snd (csv_Write logger_headers \<lparr>cs_headers = [], cs_buffer = [], cs_records = [], cs_faults = faults\<rparr>)"

definition logger_row :: "string \<Rightarrow> FinishedTrigger \<Rightarrow> string list" where
  "logger_row now t =
     [now, Itoa (fin_queue_id t), Itoa (fin_total_agents t), Itoa (fin_dissemination_time t sdiv 1000000)]"

definition CsvLogger_write :: "string \<times> FinishedTrigger list \<Rightarrow> csv_state \<Rightarrow> csv_state" where
  "CsvLogger_write = (\<lambda>(now, finished) w. snd (csv_WriteAll (map (logger_row now) finished) w))"

text \<open>The inner loop, after the cancellation: \<open>Idle\<close> is the \<^verbatim>\<open>default\<close> branch, which flushes the writer,
  closes the file and ends the goroutine.\<close>

fun logger_drain :: "(string \<times> FinishedTrigger list) selection list \<Rightarrow> csv_state \<Rightarrow> bool \<times> csv_state" where
  "logger_drain [] w = (False, w)"
| "logger_drain (Message f # ps) w = logger_drain ps (CsvLogger_write f w)"
| "logger_drain (Idle # ps) w = (True, snd (csv_WriteAll [] w))"
| "logger_drain (Stop # ps) w = logger_drain ps w"

text \<open>The outer loop: whether the goroutine has ended, and the file.\<close>

fun CsvLogger_Run :: "(string \<times> FinishedTrigger list) selection list \<Rightarrow> csv_state \<Rightarrow> bool \<times> csv_state" where
  "CsvLogger_Run [] w = (False, w)"
| "CsvLogger_Run (Stop # ps) w = logger_drain ps w"
| "CsvLogger_Run (Message f # ps) w = CsvLogger_Run ps (CsvLogger_write f w)"
| "CsvLogger_Run (Idle # ps) w = CsvLogger_Run ps w"

section \<open>What is logged\<close>

text \<open>The messages received until the goroutine ends.\<close>

fun drained :: "'m selection list \<Rightarrow> 'm list" where
  "drained [] = []"
| "drained (Message m # ps) = m # drained ps"
| "drained (Idle # ps) = []"
| "drained (Stop # ps) = drained ps"

fun logged :: "'m selection list \<Rightarrow> 'm list" where
  "logged [] = []"
| "logged (Stop # ps) = drained ps"
| "logged (Message m # ps) = m # logged ps"
| "logged (Idle # ps) = logged ps"

definition log_rows :: "(string \<times> FinishedTrigger list) list \<Rightarrow> string list list" where
  "log_rows ms = concat (map (\<lambda>(now, finished). map (logger_row now) finished) ms)"

text \<open>A writer without faults to come.\<close>

definition sound :: "csv_state \<Rightarrow> bool" where
  "sound w \<longleftrightarrow> cs_faults w = []"

lemma csv_WriteAll_sound:
  "sound w \<Longrightarrow> sound (snd (csv_WriteAll rs w)) \<and> cs_buffer (snd (csv_WriteAll rs w)) = [] \<and>
     cs_records (snd (csv_WriteAll rs w)) = cs_records w @ cs_buffer w @ rs"
  by (simp add: csv_WriteAll_def sound_def)

lemma logger_write_sound:
  "sound w \<Longrightarrow> sound (CsvLogger_write m w) \<and> cs_buffer (CsvLogger_write m w) = [] \<and>
     cs_records (CsvLogger_write m w) = cs_records w @ cs_buffer w @ log_rows [m]"
  by (cases m) (simp add: CsvLogger_write_def csv_WriteAll_sound log_rows_def)

lemma log_rows_Cons: "log_rows (m # ms) = log_rows [m] @ log_rows ms"
  by (simp add: log_rows_def)

lemma logger_drain_logs:
  "sound w \<Longrightarrow> logger_drain ps w = (ended, w') \<Longrightarrow>
   cs_records w' @ cs_buffer w' = cs_records w @ cs_buffer w @ log_rows (drained ps) \<and> (ended \<longrightarrow> cs_buffer w' = [])"
proof (induction ps w rule: logger_drain.induct)
  case (2 f ps w)
  then show ?case using logger_write_sound [OF "2.prems"(1), of f] by (simp add: log_rows_Cons [of f "drained ps"])
next
  case (3 ps w)
  then show ?case using csv_WriteAll_sound [of w "[]"] by (auto simp: log_rows_def)
qed (auto simp: log_rows_def)

lemma CsvLogger_Run_logs:
  "sound w \<Longrightarrow> CsvLogger_Run ps w = (ended, w') \<Longrightarrow>
   cs_records w' @ cs_buffer w' = cs_records w @ cs_buffer w @ log_rows (logged ps) \<and> (ended \<longrightarrow> cs_buffer w' = [])"
proof (induction ps w rule: CsvLogger_Run.induct)
  case (2 ps w)
  then show ?case using logger_drain_logs by auto
next
  case (3 f ps w)
  then show ?case using logger_write_sound [OF "3.prems"(1), of f] by (simp add: log_rows_Cons [of f "logged ps"])
qed (auto simp: log_rows_def)

section \<open>Property\<close>

text \<open>C38: The coordinator's log is complete: when the logger goroutine has ended after its cancellation and
  no write failed, the file holds the header line and then, in order, one line for every finished trigger
  of every message in the channel, those that waited there at the cancellation included; as long as it
  runs, at most lines still buffered are missing.\<close>

theorem log_is_complete:
  assumes "CsvLogger_Run ps (new_log_file []) = (ended, w)"
  shows "cs_records w @ cs_buffer w = logger_headers # log_rows (logged ps) \<and>
    (ended \<longrightarrow> cs_records w = logger_headers # log_rows (logged ps)) \<and>
    (\<forall>row \<in> set (log_rows (logged ps)). length row = length logger_headers)"
proof -
  have "sound (new_log_file [])" "cs_records (new_log_file []) = []" "cs_buffer (new_log_file []) = [logger_headers]"
    by (simp_all add: new_log_file_def csv_Write_def sound_def)
  with CsvLogger_Run_logs [OF _ assms] show ?thesis by (auto simp: log_rows_def logger_row_def logger_headers_def)
qed

theorem log_is_complete_witness:
  "cs_records \<lparr>cs_headers = [], cs_buffer = [], cs_records = [logger_headers, [''3'', ''1'', ''2'', ''-7'']], cs_faults = []\<rparr> =
    logger_headers # log_rows [(''3'', [\<lparr>fin_queue_id = 1, fin_total_agents = 2, fin_dissemination_time = - 7900000\<rparr>])]"
proof -
  have "CsvLogger_Run [Idle, Stop, Message (''3'', [\<lparr>fin_queue_id = 1, fin_total_agents = 2, fin_dissemination_time = - 7900000\<rparr>]), Idle]
      (new_log_file []) =
    (True, \<lparr>cs_headers = [], cs_buffer = [], cs_records = [logger_headers, [''3'', ''1'', ''2'', ''-7'']], cs_faults = []\<rparr>)"
    by code_simp
  from log_is_complete [OF this] show ?thesis by simp
qed

end
