(* ===== verification/Server_History.thy ===== *)
theory Server_History
  imports Server_Correct
begin

text \<open>
  A property of whole runs of the coordinator's server: nothing it ever queues for an agent is made up.
  The channels of the model keep what was sent through them, so the requests received so far can be read
  off the state.
\<close>

section \<open>Pairs of a trigger and a trace\<close>

text \<open>Those the coordinator knows of, those a list of triggers names, and those of the requests that the
  main goroutine has taken off its channel.\<close>

definition known_pairs :: "Coordinator \<Rightarrow> (CoordTriggerID \<times> u64) set" where
  "known_pairs c = {(t, i). i \<in> trigger_traces c t}"

definition named_pairs :: "CoordTrigger list \<Rightarrow> (CoordTriggerID \<times> u64) set" where
  "named_pairs ts = {(cg_id g, i) | g i. g \<in> set ts \<and> i \<in> set (cg_trace_ids g)}"

definition taken_requests :: "CoordinatorServer \<Rightarrow> TriggerRequest list" where
  "taken_requests s = take (ch_taken (sv_incoming_triggers s)) (ch_log (sv_incoming_triggers s))"

definition asked_pairs :: "TriggerRequest list \<Rightarrow> (CoordTriggerID \<times> u64) set" where
  "asked_pairs reqs = named_pairs (map request_trigger (concat (map tr_Triggers reqs)))"

lemma named_pairs_simps [simp]:
  "named_pairs [] = {}" "named_pairs (ts @ us) = named_pairs ts \<union> named_pairs us"
  "named_pairs (g # ts) = Pair (cg_id g) ` set (cg_trace_ids g) \<union> named_pairs ts"
  by (auto simp: named_pairs_def)

lemma named_pairs_mono: "set ts \<subseteq> set us \<Longrightarrow> named_pairs ts \<subseteq> named_pairs us"
  by (auto simp: named_pairs_def)

lemma known_pairs_now [simp]: "known_pairs (c\<lparr>co_now := now\<rparr>) = known_pairs c"
  by (simp add: known_pairs_def view_defs cong: option.case_cong)

lemma asked_pairs_simps [simp]:
  "asked_pairs [] = {}" "asked_pairs (rs @ [r]) = asked_pairs rs \<union> named_pairs (map request_trigger (tr_Triggers r))"
  by (simp_all add: asked_pairs_def)

section \<open>Triggers\<close>

lemma process_triggers_pairs:
  assumes "co_inv c" and "fold (process_trigger src) ps (fwd, c) = (fwd', c')"
  shows "known_pairs c' = known_pairs c \<union> named_pairs (map request_trigger ps)"
  using assms
proof (induction ps arbitrary: fwd c)
  case (Cons p ps)
  obtain addrs c1 where a: "AddTrigger src (request_trigger p) c = (addrs, c1)"
    by (cases "AddTrigger src (request_trigger p) c")
  note o = AddTrigger_ok [OF Cons.prems(1) a]
  have "process_trigger src p (fwd, c) = (fold (\<lambda>addr. mappends addr [request_trigger p]) addrs fwd, c1)"
    by (simp add: process_trigger_def a)
  with Cons.prems(2) have "fold (process_trigger src) ps (fold (\<lambda>addr. mappends addr [request_trigger p]) addrs fwd, c1) = (fwd', c')"
    by simp
  from Cons.IH [OF o(1) this] show ?case by (auto simp: known_pairs_def o(3) split: if_splits)
qed simp

lemma forward_list_pairs: "named_pairs (sent_to addr (forward_list src ps c)) \<subseteq> named_pairs (map request_trigger ps)"
proof (induction ps arbitrary: c)
  case (Cons p ps)
  obtain addrs c1 where a: "AddTrigger src (request_trigger p) c = (addrs, c1)"
    by (cases "AddTrigger src (request_trigger p) c")
  have "set (sent_to addr (map (\<lambda>b. (b, request_trigger p)) addrs)) \<subseteq> set [request_trigger p]"
    by (auto simp: sent_to_def)
  from named_pairs_mono [OF this] Cons.IH [of c1] show ?case by (auto simp: a)
qed (simp add: sent_to_def)

section \<open>Breadcrumbs\<close>

lemma disseminate_mok:
  "mok m \<Longrightarrow> fold (disseminate_addr a) addrs (m, c) = (m', c') \<Longrightarrow> mok m'"
proof (induction addrs arbitrary: m c)
  case (Cons addr addrs)
  obtain m1 c1 where s: "disseminate_addr a addr (m, c) = (m1, c1)" by (cases "disseminate_addr a addr (m, c)")
  have "mok m1" using s Cons.prems(1) by (auto simp: disseminate_addr_def Let_def split: if_splits prod.splits)
  with Cons.IH Cons.prems(2) s show ?case by simp
qed simp

lemma AddBreadcrumb_pairs:
  assumes inv: "co_inv c" and run: "AddBreadcrumb src i addrs c = (out, c')"
  shows "named_pairs (map snd (dissem_list out)) \<subseteq> known_pairs c"
proof -
  obtain a c1 c2 where "fold (disseminate_addr a) (addrs @ [src]) ([], c1) = (out, c2)"
    using run by (auto simp: AddBreadcrumb_def Let_def simp del: fold_append split: prod.splits)
  then have "mok out" by (rule disseminate_mok [rotated]) simp
  have "(cg_id g, k) \<in> known_pairs c" if g: "(addr, ts) \<in> set out" "g \<in> set ts" "k \<in> set (cg_trace_ids g)" for addr ts g k
  proof -
    have "mget out addr = Some ts" using get_triggers_mem [OF \<open>mok out\<close> g(1)] .
    then have "(cg_id g, set (cg_trace_ids g)) \<in> dissem_at out addr" using g(2) by (auto simp: dissem_at_def says_def)
    with AddBreadcrumb_ok(6) [OF inv run] have "set (cg_trace_ids g) = trigger_traces c (cg_id g)"
      by (auto split: if_splits)
    then show ?thesis using g(3) by (simp add: known_pairs_def)
  qed
  then show ?thesis by (auto simp: named_pairs_def dissem_list_def)
qed

lemma process_breadcrumbs_pairs:
  assumes "co_inv c" and "fold (process_breadcrumb src) bs (fwd, c) = (fwd', c')"
  shows "known_pairs c' = known_pairs c \<and> named_pairs (sent_to addr (crumb_list src bs c)) \<subseteq> known_pairs c"
  using assms
proof (induction bs arbitrary: fwd c)
  case Nil
  then show ?case by (simp add: sent_to_def)
next
  case (Cons b bs)
  obtain out c1 where a: "AddBreadcrumb src (fst b) (snd b) c = (out, c1)" by (cases "AddBreadcrumb src (fst b) (snd b) c")
  note o = AddBreadcrumb_ok [OF Cons.prems(1) a]
  have "set (sent_to addr (dissem_list out)) \<subseteq> set (map snd (dissem_list out))" by (auto simp: sent_to_def)
  from named_pairs_mono [OF this] AddBreadcrumb_pairs [OF Cons.prems(1) a]
  have d: "named_pairs (sent_to addr (dissem_list out)) \<subseteq> known_pairs c" by blast
  have k: "known_pairs c1 = known_pairs c" using o(3) by (simp add: known_pairs_def)
  have "\<exists>fwd1. process_breadcrumb src b (fwd, c) = (fwd1, c1)"
    using a by (cases b) (simp add: process_breadcrumb_def)
  with Cons.prems(2) have "\<exists>fwd1. fold (process_breadcrumb src) bs (fwd1, c1) = (fwd', c')" by auto
  with Cons.IH [OF o(1)] k d show ?case by (auto simp: a)
qed

section \<open>Requests\<close>

lemma checkExpirations_pairs:
  assumes "checkExpirations now s = Some s'" "co_inv (sv_c s)" "co_now (sv_c s) \<le> now"
  shows "known_pairs (sv_c s') \<subseteq> known_pairs (sv_c s) \<and> sv_incoming_triggers s' = sv_incoming_triggers s"
proof -
  let ?c = "(sv_c s)\<lparr>co_now := now\<rparr>" and ?cut = "now + sv_timeout s"
  have i: "co_inv ?c" using assms(2,3) by (simp add: co_inv_now)
  from checkTraceExpiration_ok [OF this, of ?cut] obtain c1 where
    c1: "checkTraceExpiration ?cut ?c = Some c1" "co_inv c1" "\<And>t. trigger_traces c1 t \<subseteq> trigger_traces ?c t" by auto
  from trigger_expiration_loop_ok [OF c1(2), of ?cut "[]"] obtain fin c2 where
    c2: "checkTriggerExpiration ?cut c1 = Some (fin, c2)" "hp_triggers c2 = hp_triggers c1"
      "mget (co_triggers c2) = keep (\<lambda>f. ?cut < ctg_last_modified (hp_triggers c1 f)) (mget (co_triggers c1))"
    by (auto simp: checkTriggerExpiration_def)
  have "trigger_traces c2 t \<subseteq> trigger_traces c1 t" for t
    by (simp add: view_defs c2(2,3) keep_def split: option.split)
  then have "known_pairs c2 \<subseteq> known_pairs ?c" using c1(3) by (auto simp: known_pairs_def)
  with assms(1) c1(1) c2(1) show ?thesis by (auto simp: checkExpirations_def)
qed

lemma send_to_agent_incoming: "sv_incoming_triggers (send_to_agent now addr ts s) = sv_incoming_triggers s"
  by (simp add: send_to_agent_def GetAgent_def Let_def split: option.split)

lemma do_forward_incoming: "sv_incoming_triggers (do_forward clock fwd s) = sv_incoming_triggers s"
  unfolding do_forward_def by (induction fwd arbitrary: s) (auto simp: send_to_agent_incoming)

lemma GetAgent_incoming: "GetAgent now addr s = (a, s') \<Longrightarrow> sv_incoming_triggers s' = sv_incoming_triggers s"
  by (auto simp: GetAgent_def Let_def split: option.splits)

lemma queued_pairs:
  "named_pairs (concat (ch_log (queued ms q))) \<subseteq> named_pairs (concat (ch_log q)) \<union> named_pairs ms"
  by (auto simp: queued_def)

lemma processTriggersRequest_pairs:
  fixes req :: TriggerRequest
  assumes inv: "server_inv s" and t: "server_now s \<le> now" "now \<le> now'"
    and run: "processTriggersRequest now clock now' req s = Some (r, s')"
  defines "N \<equiv> named_pairs (map request_trigger (tr_Triggers req))"
  shows "known_pairs (sv_c s') \<subseteq> known_pairs (sv_c s) \<union> N" and "sv_incoming_triggers s' = sv_incoming_triggers s"
    and "named_pairs (concat (ch_log (agent_queue s' addr))) \<subseteq> named_pairs (concat (ch_log (agent_queue s addr))) \<union> N"
proof -
  let ?c = "(sv_c s)\<lparr>co_now := now\<rparr>"
  have ci: "co_inv ?c" using inv t co_inv_now by (simp add: server_inv_def server_now_def)
  obtain fwd c where f: "fold (process_trigger (tr_Src req)) (tr_Triggers req) ([], ?c) = (fwd, c)"
    by (cases "fold (process_trigger (tr_Src req)) (tr_Triggers req) ([], ?c)")
  let ?s = "do_forward clock fwd (s\<lparr>sv_c := c\<rparr>)"
  note p = process_triggers_ok [OF ci fwd_ok_Nil f]
  have sc: "sv_c ?s = c" using do_forward_ok [of "s\<lparr>sv_c := c\<rparr>" fwd clock] inv p by (simp add: server_inv_def)
  have "checkExpirations now' ?s = Some s'" using run by (auto simp: processTriggersRequest_def f)
  from checkExpirations_pairs [OF this] p sc t
  have e: "known_pairs (sv_c s') \<subseteq> known_pairs c" "sv_incoming_triggers s' = sv_incoming_triggers s"
    by (simp_all add: do_forward_incoming)
  then show "known_pairs (sv_c s') \<subseteq> known_pairs (sv_c s) \<union> N" "sv_incoming_triggers s' = sv_incoming_triggers s"
    using process_triggers_pairs [OF ci f] by (simp_all add: N_def)
  have "agent_queue s' = (\<lambda>addr. queued (sent_to addr (forward_list (tr_Src req) (tr_Triggers req) ?c)) (agent_queue s addr))"
    using processTriggersRequest_ok [OF inv t, of clock req] run by simp
  then show "named_pairs (concat (ch_log (agent_queue s' addr))) \<subseteq> named_pairs (concat (ch_log (agent_queue s addr))) \<union> N"
    using queued_pairs [of "sent_to addr (forward_list (tr_Src req) (tr_Triggers req) ?c)" "agent_queue s addr"]
      forward_list_pairs [of addr "tr_Src req" "tr_Triggers req" ?c] by (auto simp: N_def)
qed

lemma processBreadcrumbRequest_pairs:
  fixes req :: BreadcrumbsRequest
  assumes inv: "server_inv s" and t: "server_now s \<le> now" "now \<le> now'"
    and run: "processBreadcrumbRequest now clock now' req s = Some (r, s')"
  shows "known_pairs (sv_c s') \<subseteq> known_pairs (sv_c s)" and "sv_incoming_triggers s' = sv_incoming_triggers s"
    and "named_pairs (concat (ch_log (agent_queue s' addr))) \<subseteq>
      named_pairs (concat (ch_log (agent_queue s addr))) \<union> known_pairs (sv_c s)"
proof -
  let ?src = "br_Src req" and ?s1 = "s\<lparr>sv_c := (sv_c s)\<lparr>co_now := now\<rparr>\<rparr>"
  have inv1: "server_inv ?s1" using inv t co_inv_now by (simp add: server_inv_def server_now_def)
  obtain a s2 where g: "GetAgent (clock ?src) ?src ?s1 = (a, s2)" by (cases "GetAgent (clock ?src) ?src ?s1")
  note o = GetAgent_ok [OF inv1 g]
  let ?tbl = "fold register_address (br_Addresses req) (sa_id_to_addr a)"
  define s3 where "s3 = s2\<lparr>sv_agents := mput ?src (a\<lparr>sa_id_to_addr := ?tbl\<rparr>) (sv_agents s2)\<rparr>"
  have inv3: "server_inv s3" unfolding s3_def by (rule register_origin [OF o(1,4)])
  have c3: "sv_c s3 = (sv_c s)\<lparr>co_now := now\<rparr>" "sv_c s2 = (sv_c s)\<lparr>co_now := now\<rparr>"
    and i3: "sv_incoming_triggers s3 = sv_incoming_triggers s" using o(2) GetAgent_incoming [OF g] by (simp_all add: s3_def)
  have tbl: "address_table s ?src = sa_id_to_addr a" using o(5) by (simp add: address_table_def)
  have ok: "case unravel ?tbl ?src (br_Breadcrumbs req) [] of
       Inl e \<Rightarrow> agent_queue s' = agent_queue s
     | Inr bs \<Rightarrow> agent_queue s' = (\<lambda>addr. queued (sent_to addr (crumb_list ?src bs ((sv_c s)\<lparr>co_now := now\<rparr>))) (agent_queue s addr))"
    using processBreadcrumbRequest_ok [OF inv t, of clock req] run by (auto simp: tbl split: sum.splits)
  have "known_pairs (sv_c s') \<subseteq> known_pairs (sv_c s) \<and> sv_incoming_triggers s' = sv_incoming_triggers s \<and>
    named_pairs (concat (ch_log (agent_queue s' addr))) \<subseteq>
      named_pairs (concat (ch_log (agent_queue s addr))) \<union> known_pairs (sv_c s)"
  proof (cases "unravel ?tbl ?src (br_Breadcrumbs req) []")
    case (Inl e)
    then have "s' = s3" using run by (simp add: processBreadcrumbRequest_def g s3_def Let_def)
    with Inl ok show ?thesis by (simp add: c3 i3)
  next
    case (Inr bs)
    obtain fwd c where f: "fold (process_breadcrumb ?src) bs ([], sv_c s3) = (fwd, c)"
      by (cases "fold (process_breadcrumb ?src) bs ([], sv_c s3)")
    have ci: "co_inv (sv_c s3)" using inv3 by (simp add: server_inv_def)
    note p = process_breadcrumbs_ok [OF ci fwd_ok_Nil f] and k = process_breadcrumbs_pairs [OF ci f]
    let ?s = "do_forward clock fwd (s3\<lparr>sv_c := c\<rparr>)"
    have sc: "sv_c ?s = c" using do_forward_ok [of "s3\<lparr>sv_c := c\<rparr>" fwd clock] inv3 p by (simp add: server_inv_def)
    have "checkExpirations now' ?s = Some s'"
      using run f Inr by (auto simp: processBreadcrumbRequest_def g s3_def [symmetric] Let_def c3)
    from checkExpirations_pairs [OF this] p sc t c3(1)
    have "known_pairs (sv_c s') \<subseteq> known_pairs c" "sv_incoming_triggers s' = sv_incoming_triggers s"
      by (simp_all add: do_forward_incoming i3)
    moreover have "agent_queue s' addr = queued (sent_to addr (crumb_list ?src bs (sv_c s3))) (agent_queue s addr)"
      using ok Inr by (simp add: c3)
    ultimately show ?thesis using k [of addr] queued_pairs [of "sent_to addr (crumb_list ?src bs (sv_c s3))" "agent_queue s addr"]
      by (auto simp: c3)
  qed
  then show "known_pairs (sv_c s') \<subseteq> known_pairs (sv_c s)" "sv_incoming_triggers s' = sv_incoming_triggers s"
    "named_pairs (concat (ch_log (agent_queue s' addr))) \<subseteq> named_pairs (concat (ch_log (agent_queue s addr))) \<union> known_pairs (sv_c s)"
    by blast+
qed

section \<open>Runs\<close>

definition history_inv :: "CoordinatorServer \<Rightarrow> bool" where
  "history_inv s \<longleftrightarrow> chan_ok (sv_incoming_triggers s) \<and> known_pairs (sv_c s) \<subseteq> asked_pairs (taken_requests s) \<and>
     (\<forall>addr. named_pairs (concat (ch_log (agent_queue s addr))) \<subseteq> asked_pairs (taken_requests s))"

lemma history_rpc:
  assumes "history_inv s"
  shows "history_inv (LocalTrigger locked now now' req s)" and "history_inv (server_Breadcrumbs locked now now' breq s)"
proof -
  have same: "history_inv s'" if "sv_c s' = sv_c s" "agent_queue s' = agent_queue s"
    "taken_requests s' = taken_requests s" "chan_ok (sv_incoming_triggers s')" for s'
    using that assms by (simp add: history_inv_def)
  have "chan_ok (sv_incoming_triggers s)" using assms by (simp add: history_inv_def)
  then show "history_inv (LocalTrigger locked now now' req s)" "history_inv (server_Breadcrumbs locked now now' breq s)"
    by (intro same; simp add: LocalTrigger_def server_Breadcrumbs_def Let_def agent_queue_def taken_requests_def chan_ok_def
        chan_send_def fun_eq_iff)+
qed

lemma taken_receive:
  assumes "chan_head (sv_incoming_triggers s) = Some req"
  shows "taken_requests (s\<lparr>sv_incoming_triggers := chan_receive (sv_incoming_triggers s)\<rparr>) = taken_requests s @ [req]"
    and "chan_ok (chan_receive (sv_incoming_triggers s))"
  using assms
  by (auto simp: taken_requests_def chan_head_def chan_receive_def chan_ok_def take_Suc_conv_app_nth split: if_splits)

lemma history_reachable: "server_reachable s \<Longrightarrow> history_inv s"
proof (induction rule: server_reachable.induct)
  case (start now logging)
  have "known_pairs (Coordinator_Init now) = {}"
    by (simp add: known_pairs_def view_defs Coordinator_Init_def)
  then show ?case
    by (simp add: history_inv_def server_Init_def agent_queue_def chan_ok_def chan_make_def)
next
  case (triggers s req now now' clock s')
  let ?s = "s\<lparr>sv_incoming_triggers := chan_receive (sv_incoming_triggers s)\<rparr>"
  have inv: "server_inv ?s" "server_now ?s \<le> now" using server_reachable_inv triggers by simp_all
  from triggers.hyps(5) obtain r where "processTriggersRequest now clock now' req ?s = Some (r, s')" by auto
  note p = processTriggersRequest_pairs [OF inv triggers.hyps(4) this]
  note tk = taken_receive [OF triggers.hyps(2)]
  have "taken_requests s' = taken_requests s @ [req]" "chan_ok (sv_incoming_triggers s')"
    using tk p(2) by (simp_all add: taken_requests_def)
  then show ?case using triggers.IH p(1,3) by (fastforce simp: history_inv_def agent_queue_def)
next
  case (breadcrumbs s req now now' clock s')
  let ?s = "s\<lparr>sv_incoming_breadcrumbs := chan_receive (sv_incoming_breadcrumbs s)\<rparr>"
  have inv: "server_inv ?s" "server_now ?s \<le> now" using server_reachable_inv breadcrumbs by simp_all
  from breadcrumbs.hyps(5) obtain r where "processBreadcrumbRequest now clock now' req ?s = Some (r, s')" by auto
  note p = processBreadcrumbRequest_pairs [OF inv breadcrumbs.hyps(4) this]
  have "taken_requests s' = taken_requests s" using p(2) by (simp add: taken_requests_def)
  then show ?case using breadcrumbs.IH p by (fastforce simp: history_inv_def agent_queue_def)
next
  case (agent_takes s addr a ts)
  let ?s = "s\<lparr>sv_agents := mput addr (a\<lparr>sa_outgoing_triggers := chan_receive (sa_outgoing_triggers a)\<rparr>) (sv_agents s)\<rparr>"
  have "mok (sv_agents s)" using server_reachable_inv agent_takes by (simp add: server_inv_def)
  with agent_takes.hyps(2) have "ch_log (agent_queue ?s b) = ch_log (agent_queue s b)" for b
    by (simp add: agent_queue_def mget_mput split: option.split)
  then show ?case using agent_takes.IH by (simp add: history_inv_def taken_requests_def)
qed (simp_all add: history_rpc)

section \<open>Properties\<close>

text \<open>C8: The coordinator never makes up a trigger: whatever requests arrive and however they interleave, a
  trigger that was ever queued for an agent, by a trigger request or by breadcrumbs, names only traces
  that some agent reported together with that very trigger, in a request taken off the channel before.\<close>

theorem no_spurious_triggers:
  assumes "server_reachable s" and "g \<in> set (concat (ch_log (agent_queue s addr)))" and "i \<in> set (cg_trace_ids g)"
  shows "\<exists>req p. req \<in> set (take (ch_taken (sv_incoming_triggers s)) (ch_log (sv_incoming_triggers s))) \<and>
    p \<in> set (tr_Triggers req) \<and> cg_id (request_trigger p) = cg_id g \<and> i \<in> set (TraceIds p)"
proof -
  have "(cg_id g, i) \<in> named_pairs (concat (ch_log (agent_queue s addr)))" using assms(2,3) by (auto simp: named_pairs_def)
  with history_reachable [OF assms(1)] have "(cg_id g, i) \<in> asked_pairs (taken_requests s)" by (auto simp: history_inv_def)
  then obtain req p where "req \<in> set (taken_requests s)" "p \<in> set (tr_Triggers req)" "cg_id g = cg_id (request_trigger p)"
    "i \<in> set (cg_trace_ids (request_trigger p))" by (auto simp: asked_pairs_def named_pairs_def)
  then show ?thesis unfolding taken_requests_def by - (rule exI [of _ req], rule exI [of _ p], simp add: request_trigger_def)
qed

text \<open>A run in which agent A reports that trace 7 went on to agent B, and then a trigger for that trace.\<close>

definition demo_crumbs :: BreadcrumbsRequest where
  "demo_crumbs = \<lparr>br_Src = ''A'', br_Addresses = [\<lparr>ba_Addr = ''B'', ba_Id = 1\<rparr>],
     br_Breadcrumbs = [\<lparr>bs_TraceId = 7, bs_Addrs = [1]\<rparr>]\<rparr>"

definition demo_fired :: TriggerRequest where
  "demo_fired = \<lparr>tr_Src = ''A'', tr_Triggers = [\<lparr>QueueId = 3, BaseTraceId = 7, TraceIds = [7]\<rparr>]\<rparr>"

definition demo_first :: "CoordinatorServer option" where
  "demo_first = runCoordinator_turn (Breadcrumbs_in 1 (\<lambda>_. 1) 1 demo_crumbs)
     (server_Breadcrumbs False 0 0 demo_crumbs (server_Init 0 False))"

text \<open>After the breadcrumbs the coordinator knows the trace at both agents, and no trigger.\<close>

lemma demo_first_reads:
  "map_option (\<lambda>s. (chan_head (sv_incoming_triggers (LocalTrigger False 0 0 demo_fired s)), server_now s,
      map_option (\<lambda>a. map fst (ctr_known_at (hp_traces (sv_c s) a))) (mget (co_traces (sv_c s)) 7),
      co_triggers (sv_c s), map_option sa_addr (mget (sv_agents s) ''B''))) demo_first =
    Some (Some demo_fired, 1, Some [''B'', ''A''], [], None)"
  by code_simp

lemma history_demo_run:
  "\<exists>s. server_reachable s \<and>
    \<lparr>cg_id = \<lparr>ct_queue_id = 3, ct_base_trace_id = 7\<rparr>, cg_trace_ids = [7]\<rparr> \<in> set (concat (ch_log (agent_queue s ''B'')))"
proof -
  obtain s1 where s1: "demo_first = Some s1" "chan_head (sv_incoming_triggers (LocalTrigger False 0 0 demo_fired s1)) = Some demo_fired"
    "server_now s1 = 1" "map_option (\<lambda>a. map fst (ctr_known_at (hp_traces (sv_c s1) a))) (mget (co_traces (sv_c s1)) 7) = Some [''B'', ''A'']"
    "co_triggers (sv_c s1) = []" "mget (sv_agents s1) ''B'' = None" using demo_first_reads by auto
  let ?start = "server_Breadcrumbs False 0 0 demo_crumbs (server_Init 0 False)" and ?s = "LocalTrigger False 0 0 demo_fired s1"
  have "server_reachable ?start" by (rule server_reachable.rpc_breadcrumbs, rule server_reachable.start)
  moreover have "chan_head (sv_incoming_breadcrumbs ?start) = Some demo_crumbs" "server_now ?start = 0"
    by (simp_all add: server_Breadcrumbs_def server_Init_def chan_head_def chan_full_def chan_make_def chan_send_def
        server_now_def Coordinator_Init_def)
  ultimately have "server_reachable s1"
    using server_reachable.breadcrumbs [of ?start demo_crumbs 1 1 "\<lambda>_. 1" s1] s1(1) by (simp add: demo_first_def)
  then have r: "server_reachable ?s" by (rule server_reachable.rpc_trigger)
  have same: "sv_c ?s = sv_c s1" "agent_queue ?s = agent_queue s1"
    by (simp_all add: LocalTrigger_def agent_queue_def Let_def fun_eq_iff)
  let ?t = "?s\<lparr>sv_incoming_triggers := chan_receive (sv_incoming_triggers ?s)\<rparr>" and ?c = "(sv_c s1)\<lparr>co_now := 2\<rparr>"
  let ?p = "\<lparr>QueueId = 3, BaseTraceId = 7, TraceIds = [7]\<rparr>"
  let ?g = "\<lparr>cg_id = \<lparr>ct_queue_id = 3, ct_base_trace_id = 7\<rparr>, cg_trace_ids = [7]\<rparr>"
  have inv: "server_inv ?t" "server_now ?t \<le> 2"
    using server_reachable_inv [OF r] s1(3) by (simp_all add: server_now_def same)
  have q: "agent_queue ?t = agent_queue s1" using same(2) by (simp add: agent_queue_def fun_eq_iff)
  have fired: "tr_Src demo_fired = ''A''" "tr_Triggers demo_fired = [?p]" by (simp_all add: demo_fired_def)
  obtain s2 where s2: "processTriggersRequest 2 (\<lambda>_. 2) 2 demo_fired ?t = Some (Reply_ok, s2)"
    "agent_queue s2 ''B'' = queued (sent_to ''B'' (forward_list ''A'' [?p] ?c)) (agent_queue s1 ''B'')"
    using processTriggersRequest_ok [OF inv order_refl, of "\<lambda>_. 2" demo_fired] same q fired by auto
  have "server_reachable s2"
    by (rule server_reachable.triggers [OF r s1(2), of 2 2 "\<lambda>_. 2"]) (use s2(1) s1(3) same in \<open>simp_all add: server_now_def\<close>)
  moreover have g: "request_trigger ?p = ?g" by code_simp
  obtain out c1 where a: "AddTrigger ''A'' ?g ?c = (out, c1)" by (cases "AddTrigger ''A'' ?g ?c")
  have "co_inv ?c" using server_reachable_inv [OF r] s1(3) co_inv_now by (simp add: server_inv_def server_now_def same)
  note o = AddTrigger_ok [OF this a]
  have "trigger_traces ?c (cg_id ?g) = {}" "''B'' \<in> trace_known ?c 7"
    using s1(4,5) by (auto simp: view_defs split: option.splits dest!: arg_cong [of _ _ set])
  then have "''B'' \<in> set out" using o(4,6) by simp
  then have "?g \<in> set (sent_to ''B'' (forward_list ''A'' [?p] ?c))" by (force simp: g a sent_to_def)
  then have "?g \<in> set (concat (ch_log (agent_queue s2 ''B'')))" using s2(2) s1(6)
    by (auto simp: agent_queue_def queued_def chan_full_def chan_make_def chan_send_def)
  ultimately show ?thesis by blast
qed

theorem no_spurious_triggers_witness:
  "\<exists>s. server_reachable s \<and> (\<exists>g. g \<in> set (concat (ch_log (agent_queue s ''B''))) \<and> cg_trace_ids g = [7] \<and>
     (\<exists>req p. req \<in> set (take (ch_taken (sv_incoming_triggers s)) (ch_log (sv_incoming_triggers s))) \<and> p \<in> set (tr_Triggers req) \<and>
        cg_id (request_trigger p) = cg_id g \<and> 7 \<in> set (TraceIds p)))"
proof -
  let ?g = "\<lparr>cg_id = \<lparr>ct_queue_id = 3, ct_base_trace_id = 7\<rparr>, cg_trace_ids = [7]\<rparr>"
  obtain s where s: "server_reachable s" "?g \<in> set (concat (ch_log (agent_queue s ''B'')))" using history_demo_run by blast
  have "7 \<in> set (cg_trace_ids ?g)" "cg_trace_ids ?g = [7]" by simp_all
  with no_spurious_triggers [OF s this(1)] s show ?thesis by blast
qed

end
