(* ===== verification/Shutdown.thy ===== *)
theory Shutdown
  imports Hs_Prelude
begin

text \<open>
  The life of the coordinator process: \<^verbatim>\<open>main\<close> of \<^verbatim>\<open>cmd/coordinator/main.go\<close>, which waits for a signal, and
  \<^verbatim>\<open>Run\<close> and \<^verbatim>\<open>runServer\<close> of \<^verbatim>\<open>pkg/coordinator/server.go\<close>, which start the gRPC server, the main goroutine and
  the logger and wait for them in this order.  What these goroutines do while they run is the subject of
  \<open>Coord_Server\<close> and \<open>Coord_Logger\<close>; here only matters which of them are alive and which calls of agents
  wait for an answer.
\<close>

section \<open>The process\<close>

datatype exit = Returned | Timed_out | Forced | Fatal

text \<open>\<open>sd_calls\<close> are the deadlines of the calls whose request is in a channel of the main goroutine: an agent
  gives up after ten seconds (\<^verbatim>\<open>sendTriggers\<close>, \<^verbatim>\<open>pkg/agent/coordinator.go\<close>).\<close>

record process =
  sd_now :: time
  sd_cancelled :: "time option"
  sd_calls :: "time list"
  sd_serving :: bool
  sd_main :: bool
  sd_log_cancelled :: bool
  sd_logger :: bool
  sd_exit :: "exit option"

definition start_process :: "time \<Rightarrow> bool \<Rightarrow> process" where
  "start_process now logging =
     \<lparr>sd_now = now, sd_cancelled = None, sd_calls = [], sd_serving = True, sd_main = True,
      sd_log_cancelled = False, sd_logger = logging, sd_exit = None\<rparr>"

definition call_timeout :: duration where
  "call_timeout = 10 * 1000000000"

definition exit_timeout :: duration where
  "exit_timeout = 5 * 1000000000"

text \<open>The timer of \<^verbatim>\<open>main\<close> fires before time goes on.\<close>

definition not_due :: "time \<Rightarrow> process \<Rightarrow> bool" where
  "not_due now p \<longleftrightarrow> (case sd_cancelled p of None \<Rightarrow> True | Some c \<Rightarrow> now \<le> c + exit_timeout)"

text \<open>\<open>stopped calls\<close> tells whether \<^verbatim>\<open>GracefulStop\<close> of the gRPC library, and with it \<^verbatim>\<open>Serve\<close>, may come back while
  these calls are open; \<open>server_fails\<close> is the \<^verbatim>\<open>log.Fatalf\<close> after an error of \<^verbatim>\<open>Listen\<close> or \<^verbatim>\<open>Serve\<close>.  Nothing
  happens after the exit.\<close>

inductive process_step :: "(time list \<Rightarrow> bool) \<Rightarrow> process \<Rightarrow> process \<Rightarrow> bool" for stopped where
  time: "sd_exit p = None \<Longrightarrow> sd_now p \<le> now \<Longrightarrow> not_due now p \<Longrightarrow> process_step stopped p (p\<lparr>sd_now := now\<rparr>)"
| call: "sd_exit p = None \<Longrightarrow> sd_serving p \<Longrightarrow> sd_cancelled p = None \<Longrightarrow>
    process_step stopped p (p\<lparr>sd_calls := (sd_now p + call_timeout) # sd_calls p\<rparr>)"
| answer: "sd_exit p = None \<Longrightarrow> sd_main p \<Longrightarrow> d \<in> set (sd_calls p) \<Longrightarrow>
    process_step stopped p (p\<lparr>sd_calls := remove1 d (sd_calls p)\<rparr>)"
| give_up: "sd_exit p = None \<Longrightarrow> d \<in> set (sd_calls p) \<Longrightarrow> d \<le> sd_now p \<Longrightarrow>
    process_step stopped p (p\<lparr>sd_calls := remove1 d (sd_calls p)\<rparr>)"
| signal: "sd_exit p = None \<Longrightarrow> sd_cancelled p = None \<Longrightarrow> process_step stopped p (p\<lparr>sd_cancelled := Some (sd_now p)\<rparr>)"
| second_signal: "sd_exit p = None \<Longrightarrow> sd_cancelled p \<noteq> None \<Longrightarrow> process_step stopped p (p\<lparr>sd_exit := Some Forced\<rparr>)"
| main_ends: "sd_exit p = None \<Longrightarrow> sd_cancelled p \<noteq> None \<Longrightarrow> process_step stopped p (p\<lparr>sd_main := False\<rparr>)"
| server_ends: "sd_exit p = None \<Longrightarrow> sd_cancelled p \<noteq> None \<Longrightarrow> stopped (sd_calls p) \<Longrightarrow>
    process_step stopped p (p\<lparr>sd_serving := False\<rparr>)"
| server_fails: "sd_exit p = None \<Longrightarrow> sd_serving p \<Longrightarrow> process_step stopped p (p\<lparr>sd_exit := Some Fatal\<rparr>)"
| cancel_log: "sd_exit p = None \<Longrightarrow> \<not> sd_serving p \<Longrightarrow> \<not> sd_main p \<Longrightarrow> process_step stopped p (p\<lparr>sd_log_cancelled := True\<rparr>)"
| logger_ends: "sd_exit p = None \<Longrightarrow> sd_log_cancelled p \<Longrightarrow> process_step stopped p (p\<lparr>sd_logger := False\<rparr>)"
| returns: "sd_exit p = None \<Longrightarrow> \<not> sd_serving p \<Longrightarrow> \<not> sd_main p \<Longrightarrow> \<not> sd_logger p \<Longrightarrow>
    process_step stopped p (p\<lparr>sd_exit := Some Returned\<rparr>)"
| timeout: "sd_exit p = None \<Longrightarrow> sd_cancelled p = Some c \<Longrightarrow> sd_now p = c + exit_timeout \<Longrightarrow>
    process_step stopped p (p\<lparr>sd_exit := Some Timed_out\<rparr>)"

section \<open>Invariants\<close>

definition process_inv :: "process \<Rightarrow> bool" where
  "process_inv p \<longleftrightarrow> (sd_log_cancelled p \<longrightarrow> \<not> sd_serving p \<and> \<not> sd_main p) \<and>
     (sd_exit p = Some Returned \<longrightarrow> \<not> sd_serving p \<and> \<not> sd_main p \<and> \<not> sd_logger p) \<and>
     (sd_cancelled p = None \<longrightarrow> sd_serving p \<and> sd_main p \<and> sd_exit p \<noteq> Some Returned) \<and>
     (\<forall>c. sd_cancelled p = Some c \<longrightarrow> c \<le> sd_now p \<and> sd_now p \<le> c + exit_timeout)"

lemma process_step_inv: "process_step stopped p p' \<Longrightarrow> process_inv p \<Longrightarrow> process_inv p'"
  by (induction rule: process_step.induct) (auto simp: process_inv_def not_due_def exit_timeout_def)

lemma process_run_inv: "(process_step stopped)\<^sup>*\<^sup>* (start_process now logging) p \<Longrightarrow> process_inv p"
proof (induction rule: rtranclp_induct)
  case base
  then show ?case by (simp add: start_process_def process_inv_def)
next
  case (step p p')
  then show ?case by (blast intro: process_step_inv)
qed

text \<open>A call that nobody will answer any more, and that outlasts the timeout of the process.\<close>

definition abandoned :: "time \<Rightarrow> time \<Rightarrow> process \<Rightarrow> bool" where
  "abandoned c d p \<longleftrightarrow> sd_cancelled p = Some c \<and> \<not> sd_main p \<and> sd_serving p \<and> d \<in> set (sd_calls p) \<and>
     c + exit_timeout < d \<and> sd_now p \<le> c + exit_timeout \<and> sd_exit p \<noteq> Some Returned"

lemma abandoned_step:
  assumes "process_step stopped p p'" "abandoned c d p" "\<And>ds. stopped ds \<Longrightarrow> ds = []"
  shows "abandoned c d p'"
  using assms(1)
proof (cases rule: process_step.cases)
  case (server_ends)
  with assms(3) have "sd_calls p = []" by blast
  with assms(2) show ?thesis by (simp add: abandoned_def)
next
  case (give_up e)
  with assms(2) have "d \<noteq> e" by (auto simp: abandoned_def)
  with give_up assms(2) show ?thesis by (auto simp: abandoned_def)
qed (use assms(2) in \<open>auto simp: abandoned_def not_due_def\<close>)

lemma abandoned_run:
  assumes "(process_step stopped)\<^sup>*\<^sup>* p p'" "abandoned c d p" "\<And>ds. stopped ds \<Longrightarrow> ds = []"
  shows "abandoned c d p'"
  using assms(1,2) by (induction rule: rtranclp_induct) (auto intro: abandoned_step [OF _ _ assms(3)])

section \<open>Properties\<close>

text \<open>Whenever the coordinator's \<^verbatim>\<open>Run\<close> returns, its gRPC server, its main goroutine and its logger have
  ended; the logger is cancelled only after the other two, so that nothing is logged after it has
  drained its channel; and the process never outlives a signal by more than five seconds.\<close>

theorem shutdown_in_order:
  assumes "(process_step stopped)\<^sup>*\<^sup>* (start_process now logging) p"
  shows "(sd_log_cancelled p \<longrightarrow> \<not> sd_serving p \<and> \<not> sd_main p) \<and>
    (sd_exit p = Some Returned \<longrightarrow> \<not> sd_serving p \<and> \<not> sd_main p \<and> \<not> sd_logger p) \<and>
    (\<forall>c. sd_cancelled p = Some c \<longrightarrow> sd_now p \<le> c + 5000000000)"
  using process_run_inv [OF assms] by (auto simp: process_inv_def exit_timeout_def)

theorem shutdown_in_order_witness:
  "\<exists>p. (process_step (\<lambda>ds. ds = []))\<^sup>*\<^sup>* (start_process 0 True) p \<and> sd_cancelled p = Some 0 \<and> sd_now p \<le> 0 + 5000000000"
proof -
  let ?p = "(start_process 0 True)\<lparr>sd_cancelled := Some 0\<rparr>"
  have "process_step (\<lambda>ds. ds = []) (start_process 0 True) ?p"
    using process_step.signal [of "start_process 0 True"] by (simp add: start_process_def)
  then have run: "(process_step (\<lambda>ds. ds = []))\<^sup>*\<^sup>* (start_process 0 True) ?p" by (rule r_into_rtranclp)
  have "sd_cancelled ?p = Some 0" by simp
  with run shutdown_in_order [OF run] show ?thesis by blast
qed



end
