(* ===== verification/Agent_Life.thy ===== *)
theory Agent_Life
  imports Hs_Prelude
begin

text \<open>
  The life of the agent process: \<^verbatim>\<open>Run\<close> of \<^verbatim>\<open>pkg/agent/agent.go\<close> and \<^verbatim>\<open>pkg/memory/memory.go\<close> start goroutines and
  wait for all of them; \<^verbatim>\<open>Run\<close> of \<^verbatim>\<open>pkg/agent/coordinator.go\<close> opens the server for remote triggers first, and
  cancels the whole agent when this server fails.  A goroutine ends once it looks at the cancelled context.
\<close>

section \<open>The process\<close>

datatype goroutine =
    Processing | Reporting_loop | Telemetry_loop
  | Available_loop | Complete_loop | Trigger_poll | Breadcrumb_poll
  | Breadcrumbs_sender | Triggers_sender

datatype listener = Unopened | Serving | Closed

record agent_process =
  ap_cancelled :: bool
  ap_signalled :: bool
  ap_listener :: listener
  ap_failed :: bool
  ap_running :: "goroutine list"
  ap_returned :: bool

definition start_agent :: agent_process where
  "start_agent = \<lparr>ap_cancelled = False, ap_signalled = False, ap_listener = Unopened, ap_failed = False,
     ap_running = [Processing, Reporting_loop, Telemetry_loop, Available_loop, Complete_loop, Trigger_poll, Breadcrumb_poll],
     ap_returned = False\<rparr>"

text \<open>The two goroutines that send to the coordinator are started only after the port could be opened.  The
  telemetry goroutine also ends on an error of its receiver.  When the two senders have ended,
  \<^verbatim>\<open>Coordinator.Run\<close> stops its server.\<close>

inductive agent_life :: "agent_process \<Rightarrow> agent_process \<Rightarrow> bool" where
  listen_ok: "ap_listener p = Unopened \<Longrightarrow>
    agent_life p (p\<lparr>ap_listener := Serving, ap_running := ap_running p @ [Breadcrumbs_sender, Triggers_sender]\<rparr>)"
| listen_fails: "ap_listener p = Unopened \<Longrightarrow> agent_life p (p\<lparr>ap_listener := Closed, ap_failed := True, ap_cancelled := True\<rparr>)"
| serve_fails: "ap_listener p = Serving \<Longrightarrow> agent_life p (p\<lparr>ap_listener := Closed, ap_failed := True, ap_cancelled := True\<rparr>)"
| graceful_stop: "ap_listener p = Serving \<Longrightarrow> ap_cancelled p \<Longrightarrow> agent_life p (p\<lparr>ap_listener := Closed\<rparr>)"
| signal: "agent_life p (p\<lparr>ap_signalled := True, ap_cancelled := True\<rparr>)"
| ends: "ap_cancelled p \<Longrightarrow> g \<in> set (ap_running p) \<Longrightarrow> agent_life p (p\<lparr>ap_running := removeAll g (ap_running p)\<rparr>)"
| telemetry_fails: "agent_life p (p\<lparr>ap_running := removeAll Telemetry_loop (ap_running p)\<rparr>)"
| stop: "ap_listener p = Serving \<Longrightarrow> Breadcrumbs_sender \<notin> set (ap_running p) \<Longrightarrow> Triggers_sender \<notin> set (ap_running p) \<Longrightarrow>
    agent_life p (p\<lparr>ap_listener := Closed\<rparr>)"
| returns: "ap_listener p = Closed \<Longrightarrow> ap_running p = [] \<Longrightarrow> agent_life p (p\<lparr>ap_returned := True\<rparr>)"

section \<open>Invariant and termination\<close>

definition life_inv :: "agent_process \<Rightarrow> bool" where
  "life_inv p \<longleftrightarrow> (ap_cancelled p \<longleftrightarrow> ap_signalled p \<or> ap_failed p) \<and>
     (\<not> ap_cancelled p \<longrightarrow> Processing \<in> set (ap_running p) \<and>
        (ap_listener p = Serving \<longrightarrow> Breadcrumbs_sender \<in> set (ap_running p)) \<and> ap_listener p \<noteq> Closed) \<and>
     (ap_returned p \<longrightarrow> ap_listener p = Closed \<and> ap_running p = [])"

lemma life_step_inv: "agent_life p p' \<Longrightarrow> life_inv p \<Longrightarrow> life_inv p'"
  by (induction rule: agent_life.induct) (auto simp: life_inv_def)

lemma life_run_inv: "agent_life\<^sup>*\<^sup>* start_agent p \<Longrightarrow> life_inv p"
proof (induction rule: rtranclp_induct)
  case base
  then show ?case by (simp add: start_agent_def life_inv_def)
next
  case (step p p')
  then show ?case by (blast intro: life_step_inv)
qed

lemma all_end:
  assumes "ap_cancelled p"
  shows "agent_life\<^sup>*\<^sup>* p (p\<lparr>ap_running := []\<rparr>)"
  using assms
proof (induction "length (ap_running p)" arbitrary: p rule: less_induct)
  case less
  show ?case
  proof (cases "ap_running p")
    case Nil
    then have "p\<lparr>ap_running := []\<rparr> = p" by simp
    then show ?thesis by simp
  next
    case (Cons g gs)
    let ?p = "p\<lparr>ap_running := removeAll g (ap_running p)\<rparr>"
    have s: "agent_life p ?p" by (rule agent_life.ends) (use less.prems Cons in simp_all)
    have "length (removeAll g gs) < length (ap_running p)" using Cons by (simp add: le_imp_less_Suc length_removeAll_less_eq)
    with less.hyps [of ?p] less.prems Cons have "agent_life\<^sup>*\<^sup>* ?p (p\<lparr>ap_running := []\<rparr>)" by simp
    with s show ?thesis by (rule converse_rtranclp_into_rtranclp)
  qed
qed

section \<open>Properties\<close>

text \<open>\<^verbatim>\<open>Agent.Run\<close> returns only when all its goroutines have ended and its server is closed, and only because of a
  signal or a failure of that server.\<close>

theorem agent_returns_last:
  assumes "agent_life\<^sup>*\<^sup>* start_agent p" and "ap_returned p"
  shows "ap_running p = [] \<and> ap_listener p = Closed \<and> (ap_signalled p \<or> ap_failed p)"
  using life_run_inv [OF assms(1)] assms(2) by (auto simp: life_inv_def)

text \<open>A signal and a failure of the server for remote triggers both bring the whole agent down: once the context is
  cancelled, the goroutines can end one after the other, and then \<^verbatim>\<open>Run\<close> returns.\<close>

theorem cancelled_agent_returns:
  assumes "agent_life\<^sup>*\<^sup>* start_agent p" and "ap_cancelled p"
  shows "\<exists>p'. agent_life\<^sup>*\<^sup>* p p' \<and> ap_returned p' \<and> ap_running p' = [] \<and> ap_listener p' = Closed"
proof -
  have serving: "\<exists>q. agent_life\<^sup>*\<^sup>* p q \<and> ap_cancelled q \<and> ap_listener q = Closed"
    if "agent_life\<^sup>*\<^sup>* p q" "ap_cancelled q" "ap_listener q = Serving" for q
  proof -
    have "agent_life\<^sup>*\<^sup>* p (q\<lparr>ap_listener := Closed\<rparr>)"
      using that(1) agent_life.graceful_stop [OF that(3,2)] by (rule rtranclp.rtrancl_into_rtrancl)
    then show ?thesis using that(2) by (intro exI [of _ "q\<lparr>ap_listener := Closed\<rparr>"]) simp
  qed
  have "\<exists>q. agent_life\<^sup>*\<^sup>* p q \<and> ap_cancelled q \<and> ap_listener q = Closed"
  proof (cases "ap_listener p")
    case Unopened
    from serving [OF r_into_rtranclp [of agent_life, OF agent_life.listen_ok [OF Unopened]]] assms(2) show ?thesis by simp
  next
    case Serving
    from serving [OF rtranclp.rtrancl_refl assms(2) Serving] show ?thesis .
  next
    case Closed
    with assms(2) show ?thesis by blast
  qed
  then obtain p1 where p1: "agent_life\<^sup>*\<^sup>* p p1" "ap_cancelled p1" "ap_listener p1 = Closed" by blast
  let ?p2 = "p1\<lparr>ap_running := []\<rparr>"
  have "agent_life ?p2 (?p2\<lparr>ap_returned := True\<rparr>)" by (rule agent_life.returns) (use p1 in simp_all)
  with p1(1) all_end [OF p1(2)] have "agent_life\<^sup>*\<^sup>* p (?p2\<lparr>ap_returned := True\<rparr>)" by (meson rtranclp.rtrancl_into_rtrancl rtranclp_trans)
  then show ?thesis using p1(3) by (intro exI [of _ "?p2\<lparr>ap_returned := True\<rparr>"]) simp
qed

end
