(* ===== verification/Metrics.thy ===== *)
theory Metrics
  imports Agent_Loop Telemetry
begin

text \<open>
  The agent's statistics (\<^verbatim>\<open>pkg/agent/metrics.go\<close>): counters are read and reset, turned into
  throughputs and percentages, summed up over the queues, and written as telemetry rows.  The
  arithmetic and the formatting of \<^verbatim>\<open>float64\<close> are a parameter; the counters are exact.  The
  \<^verbatim>\<open>Str\<close> methods are in \<open>Printing\<close>.
\<close>

record 'f floats =
  f_of_int :: "int \<Rightarrow> 'f"
  f_plus :: "'f \<Rightarrow> 'f \<Rightarrow> 'f"
  f_times :: "'f \<Rightarrow> 'f \<Rightarrow> 'f"
  f_divide :: "'f \<Rightarrow> 'f \<Rightarrow> 'f"
  f_less :: "'f \<Rightarrow> 'f \<Rightarrow> bool"
  f_format :: "nat \<Rightarrow> 'f \<Rightarrow> string"

text \<open>Products of Go's \<^verbatim>\<open>int\<close> and \<^verbatim>\<open>uint64\<close> wrap around.\<close>

definition wrap_int :: "int \<Rightarrow> int" where
  "wrap_int x = sint (word_of_int x :: 64 word)"

definition wrap_uint64 :: "int \<Rightarrow> int" where
  "wrap_uint64 x = uint (word_of_int x :: 64 word)"

section \<open>Data\<close>

record 'f QueueDiagnostics =
  qd_buffers :: int
  qd_buffers_percent :: 'f
  qd_pending_reports :: int
  qd_lru_size :: int
  qd_lru_percent :: 'f

record 'f Diagnostics =
  dg_cache_size :: int
  dg_cache_percent :: 'f
  dg_triggered_size :: int
  dg_triggered_percent :: 'f
  dg_lru_size :: int

record 'f QueueStats =
  qs_trigger_count :: int
  qs_eviction_count :: int
  qs_local_trigger_count :: int
  qs_remote_trigger_count :: int
  qs_dropped_count :: int
  qs_buffers :: int
  qs_reported_buffers :: int
  qs_evicted_buffers :: int
  qs_queue_throughput :: 'f
  qs_reported_buffer_throughput :: 'f
  qs_reported_buffer_throughput_mb :: 'f
  qs_evicted_buffer_throughput :: 'f
  qs_evicted_buffer_throughput_mb :: 'f
  qs_eviction_percent :: 'f
  qs_diagnostics :: "'f QueueDiagnostics option"

record 'f Stats =
  ss_complete_batches :: int
  ss_complete_buffers :: int
  ss_buffer_throughput :: 'f
  ss_buffer_throughput_mb :: 'f
  ss_mean_batchsize :: 'f
  ss_event_horizon :: duration
  ss_dropped_triggers :: int
  ss_dropped_breadcrumbs :: int
  ss_queue_totals :: "'f QueueStats"
  ss_queue_ids :: "int list"
  ss_queues :: "'f QueueStats list"
  ss_diagnostics :: "'f Diagnostics option"

definition zero_AgentMetrics :: AgentMetrics where
  "zero_AgentMetrics = \<lparr>am_complete_batches = 0, am_complete_buffers = 0, am_event_horizon = 0, am_dropped_triggers = 0,
     am_dropped_breadcrumbs = 0\<rparr>"

definition zero_QueueStats :: "'f floats \<Rightarrow> 'f QueueStats" where
  "zero_QueueStats fl = \<lparr>qs_trigger_count = 0, qs_eviction_count = 0, qs_local_trigger_count = 0, qs_remote_trigger_count = 0,
     qs_dropped_count = 0, qs_buffers = 0, qs_reported_buffers = 0, qs_evicted_buffers = 0,
     qs_queue_throughput = f_of_int fl 0, qs_reported_buffer_throughput = f_of_int fl 0,
     qs_reported_buffer_throughput_mb = f_of_int fl 0, qs_evicted_buffer_throughput = f_of_int fl 0,
     qs_evicted_buffer_throughput_mb = f_of_int fl 0, qs_eviction_percent = f_of_int fl 0, qs_diagnostics = None\<rparr>"

definition zero_QueueDiagnostics :: "'f floats \<Rightarrow> 'f QueueDiagnostics" where
  "zero_QueueDiagnostics fl = \<lparr>qd_buffers = 0, qd_buffers_percent = f_of_int fl 0, qd_pending_reports = 0, qd_lru_size = 0,
     qd_lru_percent = f_of_int fl 0\<rparr>"

section \<open>Operations\<close>

definition QueueDiagnostics_add :: "'f floats \<Rightarrow> 'f QueueDiagnostics \<Rightarrow> 'f QueueDiagnostics \<Rightarrow> 'f QueueDiagnostics" where
  "QueueDiagnostics_add fl d other =
     \<lparr>qd_buffers = qd_buffers d + qd_buffers other,
      qd_buffers_percent = f_plus fl (qd_buffers_percent d) (qd_buffers_percent other),
      qd_pending_reports = qd_pending_reports d + qd_pending_reports other,
      qd_lru_size = qd_lru_size d + qd_lru_size other,
      qd_lru_percent = f_plus fl (qd_lru_percent d) (qd_lru_percent other)\<rparr>"

definition eviction_percent :: "'f floats \<Rightarrow> 'f \<Rightarrow> 'f \<Rightarrow> 'f" where
  "eviction_percent fl reported evicted =
     (if f_less fl (f_of_int fl 0) (f_plus fl reported evicted)
      then f_divide fl (f_times fl (f_of_int fl 100) evicted) (f_plus fl reported evicted)
      else f_of_int fl 0)"

definition QueueStats_add :: "'f floats \<Rightarrow> 'f QueueStats \<Rightarrow> 'f QueueStats \<Rightarrow> 'f QueueStats result" where
  "QueueStats_add fl stats other =
     (let s1 = stats\<lparr>
        qs_trigger_count := qs_trigger_count stats + qs_trigger_count other,
        qs_eviction_count := qs_eviction_count stats + qs_eviction_count other,
        qs_local_trigger_count := qs_local_trigger_count stats + qs_local_trigger_count other,
        qs_remote_trigger_count := qs_remote_trigger_count stats + qs_remote_trigger_count other,
        qs_dropped_count := qs_dropped_count stats + qs_dropped_count other,
        qs_buffers := qs_buffers stats + qs_buffers other,
        qs_reported_buffers := qs_reported_buffers stats + qs_reported_buffers other,
        qs_queue_throughput := f_plus fl (qs_queue_throughput stats) (qs_queue_throughput other),
        qs_reported_buffer_throughput := f_plus fl (qs_reported_buffer_throughput stats) (qs_reported_buffer_throughput other),
        qs_reported_buffer_throughput_mb := f_plus fl (qs_reported_buffer_throughput_mb stats) (qs_reported_buffer_throughput_mb other),
        qs_evicted_buffer_throughput := f_plus fl (qs_evicted_buffer_throughput stats) (qs_evicted_buffer_throughput other),
        qs_evicted_buffer_throughput_mb := f_plus fl (qs_evicted_buffer_throughput_mb stats) (qs_evicted_buffer_throughput_mb other)\<rparr>;
        s2 = s1\<lparr>qs_eviction_percent := eviction_percent fl (qs_reported_buffer_throughput s1) (qs_evicted_buffer_throughput s1)\<rparr>
      in case qs_diagnostics s2 of
           None \<Rightarrow> Inr s2
         | Some d \<Rightarrow> rbind (deref (qs_diagnostics other)) (\<lambda>d2.
             Inr (s2\<lparr>qs_diagnostics := Some (QueueDiagnostics_add fl d d2)\<rparr>)))"

text \<open>Per second, and in MB per second.\<close>

definition per_second :: "'f floats \<Rightarrow> 'f \<Rightarrow> int \<Rightarrow> 'f" where
  "per_second fl duration_nanos n = f_divide fl (f_of_int fl (wrap_int (n * 1000000000))) duration_nanos"

definition in_mb :: "'f floats \<Rightarrow> int \<Rightarrow> 'f \<Rightarrow> 'f" where
  "in_mb fl buffer_size x = f_divide fl (f_times fl x (f_of_int fl buffer_size)) (f_of_int fl (1024 * 1024))"

definition calculateQueueStats :: "'f floats \<Rightarrow> 'f \<Rightarrow> 'b ManagedQueue \<Rightarrow> 'b Agent \<Rightarrow> 'f QueueStats \<times> 'b Agent" where
  "calculateQueueStats fl duration_nanos queue a =
     (let metrics = tq_metrics (h_queues (ag_dm a) (mq_queue queue));
          size = tm_buffer_size (ag_tm a);
          reported = per_second fl duration_nanos (tm_reported_buffers metrics);
          evicted = per_second fl duration_nanos (tm_evicted_buffers metrics)
      in (\<lparr>qs_trigger_count = tm_count metrics, qs_eviction_count = tm_evicted metrics,
           qs_local_trigger_count = tm_local metrics, qs_remote_trigger_count = tm_remote metrics,
           qs_dropped_count = tm_dropped metrics, qs_buffers = tm_buffers metrics,
           qs_reported_buffers = tm_reported_buffers metrics, qs_evicted_buffers = 0,
           qs_queue_throughput = per_second fl duration_nanos (tm_count metrics),
           qs_reported_buffer_throughput = reported, qs_reported_buffer_throughput_mb = in_mb fl size reported,
           qs_evicted_buffer_throughput = evicted, qs_evicted_buffer_throughput_mb = in_mb fl size evicted,
           qs_eviction_percent = eviction_percent fl reported evicted, qs_diagnostics = None\<rparr>,
          a\<lparr>ag_dm := upd_metrics (mq_queue queue) (\<lambda>_. zeroMetrics) (ag_dm a)\<rparr>))"

definition percent_of :: "'f floats \<Rightarrow> int \<Rightarrow> int \<Rightarrow> 'f" where
  "percent_of fl n capacity = f_divide fl (f_times fl (f_of_int fl 100) (f_of_int fl n)) (f_of_int fl capacity)"

definition calculateQueueDiagnostics :: "'f floats \<Rightarrow> 'b ManagedQueue \<Rightarrow> 'b Agent \<Rightarrow> 'f QueueDiagnostics" where
  "calculateQueueDiagnostics fl queue a =
     (let q = h_queues (ag_dm a) (mq_queue queue)
      in \<lparr>qd_buffers = tq_buffer_count q, qd_buffers_percent = percent_of fl (tq_buffer_count q) (ag_triggered_capacity a),
          qd_pending_reports = Size (tq_reporting q), qd_lru_size = list_Len (tq_idle q),
          qd_lru_percent = f_divide fl (f_of_int fl 1) (f_of_int fl 1000)\<rparr>)"

definition calculateDiagnostics :: "'f floats \<Rightarrow> 'b Agent \<Rightarrow> 'f Diagnostics" where
  "calculateDiagnostics fl a =
     (let dm = ag_dm a
      in \<lparr>dg_cache_size = dm_buffer_count dm, dg_cache_percent = percent_of fl (dm_buffer_count dm) (ag_cache_capacity a),
          dg_triggered_size = td_buffer_count (dm_triggered dm),
          dg_triggered_percent = percent_of fl (td_buffer_count (dm_triggered dm)) (ag_triggered_capacity a),
          dg_lru_size = list_Len (ud_lru (dm_untriggered dm))\<rparr>)"

text \<open>The loop over the sorted queue ids: the stats of each queue, and the totals.\<close>

definition queue_stats_one ::
    "'f floats \<Rightarrow> 'f \<Rightarrow> bool \<Rightarrow> int \<Rightarrow> 'f QueueStats list \<times> 'f QueueStats \<times> 'b Agent \<Rightarrow>
       ('f QueueStats list \<times> 'f QueueStats \<times> 'b Agent) result" where
  "queue_stats_one fl duration_nanos debug k = (\<lambda>(queues, totals, a).
     rbind (deref (mget (tm_queues (ag_tm a)) k)) (\<lambda>queue.
       let (qs, a1) = calculateQueueStats fl duration_nanos queue a;
           qs1 = (if debug then qs\<lparr>qs_diagnostics := Some (calculateQueueDiagnostics fl queue a1)\<rparr> else qs)
       in rbind (QueueStats_add fl totals qs1) (\<lambda>totals1. Inr (queues @ [qs1], totals1, a1))))"

definition calculateAgentStats :: "'f floats \<Rightarrow> 'f \<Rightarrow> bool \<Rightarrow> 'b Agent \<Rightarrow> ('f Stats \<times> 'b Agent) result" where
  "calculateAgentStats fl duration_nanos debug a =
     (let metrics = ag_metrics a;
          a1 = a\<lparr>ag_metrics := zero_AgentMetrics\<rparr>;
          throughput = f_divide fl (f_of_int fl (wrap_uint64 (am_complete_buffers metrics * 1000000000))) duration_nanos;
          ids = sort (map fst (tm_queues (ag_tm a1)));
          totals = (if debug then (zero_QueueStats fl)\<lparr>qs_diagnostics := Some (zero_QueueDiagnostics fl)\<rparr> else zero_QueueStats fl)
      in rbind (rfold (queue_stats_one fl duration_nanos debug) ids ([], totals, a1)) (\<lambda>(queues, totals1, a2).
         Inr (\<lparr>ss_complete_batches = am_complete_batches metrics, ss_complete_buffers = am_complete_buffers metrics,
               ss_buffer_throughput = throughput, ss_buffer_throughput_mb = in_mb fl (tm_buffer_size (ag_tm a)) throughput,
               ss_mean_batchsize = (if 0 < am_complete_batches metrics
                 then f_divide fl (f_of_int fl (am_complete_buffers metrics)) (f_of_int fl (am_complete_batches metrics))
                 else f_of_int fl 0),
               ss_event_horizon = am_event_horizon metrics, ss_dropped_triggers = am_dropped_triggers metrics,
               ss_dropped_breadcrumbs = am_dropped_breadcrumbs metrics, ss_queue_totals = totals1, ss_queue_ids = ids,
               ss_queues = queues,
               ss_diagnostics = (if debug then Some (calculateDiagnostics fl a1) else None)\<rparr>, a2)))"

section \<open>Telemetry rows\<close>

definition Headers :: "string list" where
  "Headers =
     [''t'', ''interval_ms'', ''queue_id'', ''data_mb'', ''reported_mb'', ''evicted_mb'', ''triggers'', ''local_triggers'',
      ''remote_triggers'', ''dropped_triggers'', ''evicted_triggers'', ''tput_data_mb'', ''tput_reported_mb'',
      ''tput_evicted_mb'', ''tput_triggers'', ''tput_local_triggers'', ''tput_remote_triggers'', ''tput_dropped_triggers'',
      ''tput_evicted_triggers'', ''cache_occupancy'', ''eviction_percent'', ''internal_bottleneck'', ''event_horizon_ms'',
      ''report_horizon_ms'']"

definition mb_of :: "'f floats \<Rightarrow> int \<Rightarrow> int \<Rightarrow> 'f" where
  "mb_of fl buffer_size n = f_divide fl (f_of_int fl (wrap_int (n * buffer_size))) (f_of_int fl (1024 * 1024))"

definition generateDataRow :: "'f floats \<Rightarrow> 'b Agent \<Rightarrow> time \<Rightarrow> duration \<Rightarrow> 'f QueueStats \<Rightarrow> string \<Rightarrow> row" where
  "generateDataRow fl a now interval queue queueid =
     (let size = tm_buffer_size (ag_tm a);
          data_mb = mb_of fl size (qs_buffers queue);
          reported_mb = mb_of fl size (qs_reported_buffers queue);
          evicted_mb = mb_of fl size (qs_evicted_buffers queue);
          interval_s = f_divide fl (f_of_int fl interval) (f_of_int fl 1000000000);
          rate = (\<lambda>n. f_format fl 0 (f_divide fl (f_of_int fl n) interval_s));
          row = fold (\<lambda>(column, v). mput column v)
            [(''t'', Itoa now), (''interval_ms'', Itoa (interval sdiv 1000000)), (''queue_id'', queueid),
             (''data_mb'', f_format fl 2 data_mb), (''reported_mb'', f_format fl 2 reported_mb), (''evicted_mb'', f_format fl 2 evicted_mb),
             (''triggers'', Itoa (qs_trigger_count queue)), (''local_triggers'', Itoa (qs_local_trigger_count queue)),
             (''remote_triggers'', Itoa (qs_remote_trigger_count queue)), (''dropped_triggers'', Itoa (qs_dropped_count queue)),
             (''evicted_triggers'', Itoa (qs_eviction_count queue)),
             (''tput_data_mb'', f_format fl 2 (f_divide fl data_mb interval_s)),
             (''tput_reported_mb'', f_format fl 2 (f_divide fl reported_mb interval_s)),
             (''tput_evicted_mb'', f_format fl 2 (f_divide fl evicted_mb interval_s)),
             (''tput_triggers'', rate (qs_trigger_count queue)), (''tput_local_triggers'', rate (qs_local_trigger_count queue)),
             (''tput_remote_triggers'', rate (qs_remote_trigger_count queue)), (''tput_dropped_triggers'', rate (qs_dropped_count queue)),
             (''tput_evicted_triggers'', rate (qs_eviction_count queue))] [];
          row1 = (case qs_diagnostics queue of
            None \<Rightarrow> row
          | Some d \<Rightarrow> mput ''cache_occupancy'' (f_format fl 1 (qd_buffers_percent d)) row)
      in mput ''eviction_percent'' (f_format fl 1 (qs_eviction_percent queue)) row1)"

definition generateTotalsRow :: "'f floats \<Rightarrow> 'b Agent \<Rightarrow> time \<Rightarrow> duration \<Rightarrow> 'f Stats \<Rightarrow> row" where
  "generateTotalsRow fl a now interval stats =
     (let row = generateDataRow fl a now interval (ss_queue_totals stats) ''total'';
          data_mb = mb_of fl (tm_buffer_size (ag_tm a)) (ss_complete_buffers stats);
          interval_s = f_divide fl (f_of_int fl interval) (f_of_int fl 1000000000);
          bottleneck = f_divide fl (f_times fl (f_of_int fl 100) (f_of_int fl (ss_dropped_triggers stats)))
            (f_of_int fl (qs_trigger_count (ss_queue_totals stats)));
          horizon = f_divide fl (f_of_int fl (ss_event_horizon stats)) (f_of_int fl 1000000)
      in mput ''event_horizon_ms'' (f_format fl 0 horizon)
           (mput ''internal_bottleneck'' (f_format fl 1 bottleneck)
             (mput ''tput_data_mb'' (f_format fl 2 (f_divide fl data_mb interval_s))
               (mput ''data_mb'' (f_format fl 2 data_mb) row))))"

definition NextData :: "'f floats \<Rightarrow> bool \<Rightarrow> time \<Rightarrow> duration \<Rightarrow> 'b Agent \<Rightarrow> (row list \<times> 'b Agent) result" where
  "NextData fl debug now interval a =
     rbind (calculateAgentStats fl (f_of_int fl interval) debug a) (\<lambda>(stats, a1).
       Inr (generateTotalsRow fl a1 now interval stats #
            map (\<lambda>(k, qs). generateDataRow fl a1 now interval qs (Itoa k)) (zip (ss_queue_ids stats) (ss_queues stats)), a1))"

section \<open>Every counter is reported once\<close>

lemma QueueStats_add_diag:
  "(qs_diagnostics totals \<noteq> None \<longrightarrow> qs_diagnostics qs \<noteq> None) \<Longrightarrow>
   ok (QueueStats_add fl totals qs) (\<lambda>t. (qs_diagnostics t \<noteq> None \<longleftrightarrow> qs_diagnostics totals \<noteq> None) \<and>
     qs_trigger_count t = qs_trigger_count totals + qs_trigger_count qs \<and>
     qs_eviction_count t = qs_eviction_count totals + qs_eviction_count qs \<and>
     qs_local_trigger_count t = qs_local_trigger_count totals + qs_local_trigger_count qs \<and>
     qs_remote_trigger_count t = qs_remote_trigger_count totals + qs_remote_trigger_count qs \<and>
     qs_dropped_count t = qs_dropped_count totals + qs_dropped_count qs \<and>
     qs_buffers t = qs_buffers totals + qs_buffers qs \<and>
     qs_reported_buffers t = qs_reported_buffers totals + qs_reported_buffers qs \<and>
     qs_evicted_buffers t = qs_evicted_buffers totals)"
  by (cases "qs_diagnostics totals"; cases "qs_diagnostics qs") (simp_all add: QueueStats_add_def Let_def)

text \<open>The metrics of the managed queue with a given id.\<close>

definition queue_metrics :: "'b Agent \<Rightarrow> int \<Rightarrow> TriggerMetrics" where
  "queue_metrics a k = (case mget (tm_queues (ag_tm a)) k of None \<Rightarrow> zeroMetrics | Some mq \<Rightarrow> tq_metrics (h_queues (ag_dm a) (mq_queue mq)))"

text \<open>What the loop has done after the queues \<open>ks\<close>, relative to the agent \<open>a0\<close> it started from.\<close>

definition counted :: "'b Agent \<Rightarrow> bool \<Rightarrow> int list \<Rightarrow> 'f QueueStats list \<times> 'f QueueStats \<times> 'b Agent \<Rightarrow> bool" where
  "counted a0 debug ks = (\<lambda>(queues, t, a).
     (qs_diagnostics t \<noteq> None \<longrightarrow> debug) \<and> length queues = length ks \<and>
     (\<forall>i < length ks. qs_trigger_count (queues ! i) = tm_count (queue_metrics a0 (ks ! i)) \<and>
        qs_reported_buffers (queues ! i) = tm_reported_buffers (queue_metrics a0 (ks ! i))) \<and>
     qs_trigger_count t = sum_list (map (\<lambda>k. tm_count (queue_metrics a0 k)) ks) \<and>
     qs_eviction_count t = sum_list (map (\<lambda>k. tm_evicted (queue_metrics a0 k)) ks) \<and>
     qs_local_trigger_count t = sum_list (map (\<lambda>k. tm_local (queue_metrics a0 k)) ks) \<and>
     qs_remote_trigger_count t = sum_list (map (\<lambda>k. tm_remote (queue_metrics a0 k)) ks) \<and>
     qs_dropped_count t = sum_list (map (\<lambda>k. tm_dropped (queue_metrics a0 k)) ks) \<and>
     qs_buffers t = sum_list (map (\<lambda>k. tm_buffers (queue_metrics a0 k)) ks) \<and>
     qs_reported_buffers t = sum_list (map (\<lambda>k. tm_reported_buffers (queue_metrics a0 k)) ks) \<and>
     qs_evicted_buffers t = 0 \<and>
     ag_tm a = ag_tm a0 \<and> dm_inv (ag_dm a) \<and> tm_inv (ag_tm a) (ag_dm a) \<and> held (ag_dm a) = held (ag_dm a0) \<and>
     a = a0\<lparr>ag_dm := ag_dm a\<rparr> \<and>
     (\<forall>k. queue_metrics a k = (if k \<in> set ks then zeroMetrics else queue_metrics a0 k)))"

lemma managed_distinct:
  assumes "dm_inv s" and "tm_inv tm s" and "mget (tm_queues tm) k = Some mq" and "mget (tm_queues tm) k' = Some mq'"
    and "mq_queue mq' = mq_queue mq"
  shows "k' = k"
proof -
  have "queues_ok (\<lambda>f. ft_traces (h_fired s f)) s" using assms(1) by (simp add: dm_inv_def inv_def)
  from queues_okD(2) [OF this tm_inv_managed [OF assms(2,3)]] queues_okD(2) [OF this tm_inv_managed [OF assms(2,4)]]
  show ?thesis using assms(5) by (simp add: queue_ok_def)
qed

lemma queue_stats_one_ok:
  assumes c: "counted a0 debug ks (queues, t, a)" and k: "k \<notin> set ks" "mget (tm_queues (ag_tm a0)) k = Some mq"
  shows "ok (queue_stats_one fl d debug k (queues, t, a)) (counted a0 debug (ks @ [k]))"
proof -
  obtain qs a1 where q: "calculateQueueStats fl d mq a = (qs, a1)" by (cases "calculateQueueStats fl d mq a")
  define qs1 where "qs1 = (if debug then qs\<lparr>qs_diagnostics := Some (calculateQueueDiagnostics fl mq a1)\<rparr> else qs)"
  have tm: "ag_tm a = ag_tm a0" and inv: "dm_inv (ag_dm a)" "tm_inv (ag_tm a) (ag_dm a)"
    and m: "queue_metrics a k = queue_metrics a0 k" and diag: "qs_diagnostics t \<noteq> None \<longrightarrow> debug"
    using c k by (auto simp: counted_def)
  have mk: "queue_metrics a0 k = tq_metrics (h_queues (ag_dm a) (mq_queue mq))"
    using m k tm by (simp add: queue_metrics_def)
  have a1: "a1 = a\<lparr>ag_dm := upd_metrics (mq_queue mq) (\<lambda>_. zeroMetrics) (ag_dm a)\<rparr>"
    using q by (simp add: calculateQueueStats_def Let_def)
  have qs: "qs_trigger_count qs1 = tm_count (queue_metrics a0 k)" "qs_eviction_count qs1 = tm_evicted (queue_metrics a0 k)"
    "qs_local_trigger_count qs1 = tm_local (queue_metrics a0 k)" "qs_remote_trigger_count qs1 = tm_remote (queue_metrics a0 k)"
    "qs_dropped_count qs1 = tm_dropped (queue_metrics a0 k)" "qs_buffers qs1 = tm_buffers (queue_metrics a0 k)"
    "qs_reported_buffers qs1 = tm_reported_buffers (queue_metrics a0 k)" "debug \<Longrightarrow> qs_diagnostics qs1 \<noteq> None"
    using q by (auto simp: calculateQueueStats_def Let_def mk qs1_def)
  note u = upd_metrics_ok [OF inv(1), where q = "mq_queue mq" and g = "\<lambda>_. zeroMetrics"]
  have "dm_inv (ag_dm a1)" "held (ag_dm a1) = held (ag_dm a)" using u(1,2) by (simp_all add: a1)
  moreover have "tm_inv (ag_tm a1) (ag_dm a1)"
    using tm_inv_cong [OF inv(2), of "ag_dm a1"] u(7) by (simp add: a1 live_queue_def)
  moreover have "queue_metrics a1 j = (if j = k then zeroMetrics else queue_metrics a j)" for j
  proof (cases "mget (tm_queues (ag_tm a0)) j")
    case None
    then show ?thesis using k by (auto simp: queue_metrics_def a1 tm)
  next
    case (Some mq')
    then have "mq_queue mq' = mq_queue mq \<longleftrightarrow> j = k" using managed_distinct [OF inv, of k mq j mq'] k tm by auto
    then show ?thesis using Some by (simp add: queue_metrics_def a1 tm upd_defs)
  qed
  moreover have "a1 = a0\<lparr>ag_dm := ag_dm a1\<rparr>"
  proof -
    have "a = a0\<lparr>ag_dm := ag_dm a\<rparr>" using c unfolding counted_def prod.case by (elim conjE)
    then have "a\<lparr>ag_dm := ag_dm a1\<rparr> = (a0\<lparr>ag_dm := ag_dm a\<rparr>)\<lparr>ag_dm := ag_dm a1\<rparr>" by (rule arg_cong)
    then show ?thesis by (simp add: a1)
  qed
  moreover have "held (ag_dm a) = held (ag_dm a0)" "\<forall>j. queue_metrics a j = (if j \<in> set ks then zeroMetrics else queue_metrics a0 j)"
    using c by (simp_all add: counted_def)
  ultimately have A: "ag_tm a1 = ag_tm a0" "dm_inv (ag_dm a1)" "tm_inv (ag_tm a1) (ag_dm a1)" "held (ag_dm a1) = held (ag_dm a0)"
    "a1 = a0\<lparr>ag_dm := ag_dm a1\<rparr>" "\<forall>j. queue_metrics a1 j = (if j \<in> set (ks @ [k]) then zeroMetrics else queue_metrics a0 j)"
    using tm by (simp_all add: a1)
  have "ok (QueueStats_add fl t qs1) (\<lambda>t1. counted a0 debug (ks @ [k]) (queues @ [qs1], t1, a1))"
    by (rule ok_mono [OF QueueStats_add_diag]) (use diag qs c A in \<open>auto simp: counted_def nth_append less_Suc_eq\<close>)
  then show ?thesis using k tm q by (auto simp: queue_stats_one_def qs1_def Let_def intro!: ok_bind)
qed

lemma stats_loop:
  fixes a :: "'b Agent" and fl :: "'f floats"
  assumes "dm_inv (ag_dm a)" and "tm_inv (ag_tm a) (ag_dm a)"
  shows "ok (rfold (queue_stats_one fl d debug) (sort (map fst (tm_queues (ag_tm a))))
      ([], if debug then (zero_QueueStats fl)\<lparr>qs_diagnostics := Some (zero_QueueDiagnostics fl)\<rparr> else zero_QueueStats fl,
       a\<lparr>ag_metrics := zero_AgentMetrics\<rparr>))
    (counted (a\<lparr>ag_metrics := zero_AgentMetrics\<rparr>) debug (sort (map fst (tm_queues (ag_tm a)))))"
proof -
  let ?a = "a\<lparr>ag_metrics := zero_AgentMetrics\<rparr>" and ?ids = "sort (map fst (tm_queues (ag_tm a)))"
  let ?t = "if debug then (zero_QueueStats fl)\<lparr>qs_diagnostics := Some (zero_QueueDiagnostics fl)\<rparr> else zero_QueueStats fl"
  have dist: "distinct ?ids" using assms(2) by (simp add: tm_inv_def mok_def)
  show ?thesis
  proof (rule ok_rfold)
    show "counted ?a debug [] ([], ?t, ?a)" using assms by (simp add: counted_def zero_QueueStats_def)
    fix ys k zs and s :: "'f QueueStats list \<times> 'f QueueStats \<times> 'b Agent"
    assume ids: "?ids = ys @ k # zs" and c: "counted ?a debug ys s"
    obtain queues t a1 where s: "s = (queues, t, a1)" by (cases s)
    have "k \<in> set ?ids" using ids by simp
    then obtain mq where "mget (tm_queues (ag_tm ?a)) k = Some mq"
      using mget_None_keys [of "tm_queues (ag_tm a)" k] by (cases "mget (tm_queues (ag_tm a)) k") auto
    moreover have "k \<notin> set ys" using ids dist by auto
    ultimately show "ok (queue_stats_one fl d debug k s) (counted ?a debug (ys @ [k]))"
      unfolding s by (intro queue_stats_one_ok) (use c s in auto)
  qed
qed

section \<open>Properties\<close>


text \<open>An agent with some data and counters, and floats computed exactly.\<close>

definition demo_agent :: "int Agent" where
  "demo_agent = \<lparr>ag_dm = demo, ag_tm = demo_tm, ag_cache_capacity = 8, ag_triggered_capacity = 4, ag_trigger_timeout = - 300,
     ag_metrics = zero_AgentMetrics\<lparr>am_complete_buffers := 3\<rparr>, ag_available = chan_make 1, ag_localtriggers = chan_make 1,
     ag_breadcrumbs = chan_make 1, ag_data = chan_make 1, ag_data_to_report = []\<rparr>"

definition exact_floats :: "rat floats" where
  "exact_floats = \<lparr>f_of_int = of_int, f_plus = (+), f_times = (*), f_divide = (/), f_less = (<),
     f_format = (\<lambda>n x. Itoa \<lfloor>x\<rfloor>)\<rparr>"


lemma fill_columns: "fst ` set (fold (\<lambda>(column, v). mput column v) cs row) = fst ` set cs \<union> fst ` set row"
proof (induction cs arbitrary: row)
  case (Cons c cs)
  obtain k v where "c = (k, v)" by (cases c)
  with Cons [of "mput k v row"] show ?case by (simp only: fold_Cons prod.case o_apply dom_mput) auto
qed simp

lemma dataRow_columns: "fst ` set (generateDataRow fl a now interval queue queueid) \<subseteq> set (butlast Headers)"
  unfolding generateDataRow_def Let_def
  by (cases "qs_diagnostics queue") (simp_all only: option.case dom_mput fill_columns, simp_all add: Headers_def)

lemma totalsRow_columns: "fst ` set (generateTotalsRow fl a now interval st) \<subseteq> set (butlast Headers)"
  using dataRow_columns [of fl a now interval "ss_queue_totals st" "''total''"]
  unfolding generateTotalsRow_def Let_def dom_mput by (simp add: Headers_def)

text \<open>Each telemetry report has one row for the totals and one per managed queue, and no row has a
  column that the headers do not announce, so a receiver drops nothing; the announced column
  \<^verbatim>\<open>report_horizon_ms\<close> is never filled.\<close>

theorem telemetry_rows_announced:
  assumes "dm_inv (ag_dm a)" and "tm_inv (ag_tm a) (ag_dm a)"
  shows "\<exists>rows a'. NextData fl debug now interval a = Inr (rows, a') \<and> length rows = Suc (length (tm_queues (ag_tm a))) \<and>
    ''report_horizon_ms'' \<in> set Headers \<and>
    (\<forall>row. row \<in> set rows \<longrightarrow> fst ` set row \<subseteq> set Headers - {''report_horizon_ms''})"
proof -
  from stats_loop [OF assms, of fl "f_of_int fl interval" debug] obtain st a1 where
    st: "calculateAgentStats fl (f_of_int fl interval) debug a = Inr (st, a1)"
      "length (ss_queues st) = length (tm_queues (ag_tm a))" "length (ss_queue_ids st) = length (tm_queues (ag_tm a))"
    by (auto simp: ok_iff calculateAgentStats_def Let_def counted_def)
  have h: "set (butlast Headers) = set Headers - {''report_horizon_ms''}"
    unfolding Headers_def by code_simp
  let ?rows = "generateTotalsRow fl a1 now interval st #
      map (\<lambda>(k, qs). generateDataRow fl a1 now interval qs (Itoa k)) (zip (ss_queue_ids st) (ss_queues st))"
  have "NextData fl debug now interval a = Inr (?rows, a1)" "length ?rows = Suc (length (tm_queues (ag_tm a)))"
    using st by (simp_all add: NextData_def)
  moreover have "fst ` set row \<subseteq> set (butlast Headers)" if "row \<in> set ?rows" for row
    using that unfolding list.set set_map
    by (elim insertE imageE) (simp_all add: totalsRow_columns dataRow_columns split_beta)
  moreover have "''report_horizon_ms'' \<in> set Headers" by (simp add: Headers_def)
  ultimately show ?thesis unfolding h by blast
qed

theorem telemetry_rows_announced_witness:
  "\<exists>rows a'. NextData exact_floats True 5 1000000000 demo_agent = Inr (rows, a') \<and> length rows = 2 \<and>
    (\<forall>row. row \<in> set rows \<longrightarrow> fst ` set row \<subseteq> set Headers - {''report_horizon_ms''})"
proof -
  have "dm_inv (ag_dm demo_agent)" "tm_inv (ag_tm demo_agent) (ag_dm demo_agent)"
    using demo_inv demo_tm_inv by (simp_all add: demo_agent_def)
  moreover have "Suc (length (tm_queues (ag_tm demo_agent))) = 2" by (simp add: demo_agent_def demo_tm_def)
  ultimately show ?thesis using telemetry_rows_announced [of demo_agent exact_floats True 5 1000000000] by metis
qed

end
