(* ===== verification/Printing.thy ===== *)
theory Printing
  imports Metrics
begin

text \<open>
  Human-readable output: the \<^verbatim>\<open>String\<close> methods of \<^verbatim>\<open>pkg/agent/print.go\<close>, the \<^verbatim>\<open>Str\<close> methods of the
  statistics (\<^verbatim>\<open>pkg/agent/metrics.go\<close>) and of the priority tree
  (\<^verbatim>\<open>pkg/util/partialprioritytree.go\<close>), and the text of the rate flag.  Formatting of floats is the parameter of \<open>Metrics\<close>.
\<close>

section \<open>Formatting\<close>

definition nl :: string where
  "nl = [CHR 0x0A]"

definition fmt_u64 :: "u64 \<Rightarrow> string" where
  "fmt_u64 x = Itoa (uint x)"

text \<open>The verb \<^verbatim>\<open>%v\<close> for slices: the elements in brackets, separated by blanks.\<close>

definition fmt_slice :: "string list \<Rightarrow> string" where
  "fmt_slice xs = ''['' @ Join xs '' '' @ '']''"

text \<open>The verb \<^verbatim>\<open>%d\<close> for a struct of numbers.\<close>

definition fmt_TriggerID :: "TriggerID \<Rightarrow> string" where
  "fmt_TriggerID i = ''{'' @ Itoa (queue_id i) @ '' '' @ fmt_u64 (base_trace_id i) @ ''}''"

section \<open>The data manager\<close>

fun tracestate_String :: "tracestate \<Rightarrow> string" where
  "tracestate_String (untriggeredTrace buffers breadcrumbs t e) =
     ''untriggered bufs='' @ fmt_slice (map Itoa buffers) @ '' bcs='' @ fmt_slice breadcrumbs"
| "tracestate_String (triggeredTrace triggers) = ''triggered''"
| "tracestate_String (reportingTrace buffers triggers) = ''reporting bufs='' @ fmt_slice (map Itoa buffers)"

text \<open>A nil state is printed by the formatting package as an error text.\<close>

definition Trace_String :: "Trace \<Rightarrow> string" where
  "Trace_String t =
     ''trace '' @ fmt_u64 (tr_id t) @ '' '' @
       (case tr_state t of None \<Rightarrow> ''%!s(<nil>)'' | Some st \<Rightarrow> tracestate_String st)"

definition FiredTrigger_String :: "dms \<Rightarrow> FiredTrigger \<Rightarrow> string" where
  "FiredTrigger_String s t =
     fold (\<lambda>(_, a) sb. sb @ nl @ ''    '' @ Trace_String (h_traces s a)) (ft_traces t)
       (''fired '' @ fmt_TriggerID (ft_id t))"

definition TriggerQueue_String :: "dms \<Rightarrow> TriggerQueue \<Rightarrow> string" where
  "TriggerQueue_String s q =
     fold (\<lambda>(_, f) sb. sb @ nl @ ''   '' @ FiredTrigger_String s (h_fired s f)) (tq_fired q)
       (''queue '' @ Itoa (tq_id q) @ '' with '' @ Itoa (len (tq_fired q)) @ '' fired '' @
        Itoa (Size (tq_reporting q)) @ '' reporting, '' @ Itoa (tq_buffer_count q) @ '' buffers total:'')"

definition TriggeredData_String :: "dms \<Rightarrow> string" where
  "TriggeredData_String s =
     fold (\<lambda>(_, q) sb. sb @ nl @ ''  '' @ TriggerQueue_String s (h_queues s q)) (td_queues (dm_triggered s))
       ('' triggered '' @ Itoa (td_buffer_count (dm_triggered s)) @ '' buffers '' @
        Itoa (len (td_queues (dm_triggered s))) @ '' queues'')"

definition UntriggeredData_String :: "dms \<Rightarrow> string" where
  "UntriggeredData_String s =
     fold (\<lambda>(_, a) sb. sb @ nl @ ''   '' @ Trace_String (h_traces s a)) (elems (ud_lru (dm_untriggered s)))
       ('' untriggered '' @ Itoa (ud_buffer_count (dm_untriggered s)) @ '' total:'')"

definition DataManager_String :: "dms \<Rightarrow> string" where
  "DataManager_String s =
     ''DM '' @ Itoa (len (dm_traces s)) @ '' trace(s)'' @ nl @ TriggeredData_String s @ nl @ UntriggeredData_String s"

section \<open>The statistics\<close>

definition QueueDiagnostics_Str :: "'f floats \<Rightarrow> 'f QueueDiagnostics \<Rightarrow> string" where
  "QueueDiagnostics_Str fl d =
     Itoa (qd_buffers d) @ '' buffers ('' @ f_format fl 0 (qd_buffers_percent d) @ ''%) '' @
     Itoa (qd_pending_reports d) @ '' pending, '' @
     ''lru '' @ f_format fl 0 (qd_lru_percent d) @ ''% ('' @ Itoa (qd_lru_size d) @ '')''"

definition Diagnostics_Str :: "'f floats \<Rightarrow> 'f Diagnostics \<Rightarrow> string" where
  "Diagnostics_Str fl d =
     ''Cache '' @ f_format fl 0 (dg_cache_percent d) @ ''% ('' @ Itoa (dg_cache_size d) @ '') '' @
     ''Triggered '' @ f_format fl 0 (dg_triggered_percent d) @ ''% ('' @ Itoa (dg_triggered_size d) @ '') '' @
     ''LRU '' @ Itoa (dg_lru_size d) @ '' ''"

definition QueueStats_Str :: "'f floats \<Rightarrow> 'f QueueStats \<Rightarrow> string" where
  "QueueStats_Str fl s =
     '' '' @ f_format fl 1 (qs_queue_throughput s) @ '' trigs/s '' @
     '' '' @ f_format fl 1 (qs_reported_buffer_throughput_mb s) @ '' MB/s '' @
     ''('' @ f_format fl 0 (qs_reported_buffer_throughput s) @ '' bufs/s, '' @ Itoa (qs_reported_buffers s) @ '' total) '' @
     f_format fl 0 (qs_eviction_percent s) @ ''% loss ('' @ f_format fl 1 (qs_evicted_buffer_throughput_mb s) @ '' MB/s)'' @
     (case qs_diagnostics s of None \<Rightarrow> [] | Some d \<Rightarrow> ''  ||   '' @ QueueDiagnostics_Str fl d)"

text \<open>The loop over the ids indexes the slice of queues with the same position.\<close>

fun stats_lines :: "'f floats \<Rightarrow> nat \<Rightarrow> int list \<Rightarrow> 'f QueueStats list \<Rightarrow> string result" where
  "stats_lines fl i [] queues = Inr []"
| "stats_lines fl i (trigger_id # ids) queues =
     rbind (slice_index queues i) (\<lambda>ts.
     rbind (stats_lines fl (Suc i) ids queues) (\<lambda>rest.
       Inr (''            '' @ Itoa trigger_id @ '' - '' @ QueueStats_Str fl ts @ nl @ rest)))"

definition Stats_Str :: "'f floats \<Rightarrow> 'f Stats \<Rightarrow> string result" where
  "Stats_Str fl s =
     rbind (stats_lines fl 0 (ss_queue_ids s) (ss_queues s)) (\<lambda>rows.
       Inr (''EH: '' @ Itoa (ss_event_horizon s sdiv 1000000) @ '' ms '' @
            f_format fl 3 (ss_buffer_throughput_mb s) @ '' MB/s '' @
            ''('' @ f_format fl 0 (ss_buffer_throughput s) @ '' bufs/s, '' @ Itoa (ss_complete_buffers s) @ '' bufs total), '' @
            ''Avg batch '' @ f_format fl 1 (ss_mean_batchsize s) @ '', '' @
            ''Drops '' @ Itoa (ss_dropped_triggers s) @ '','' @ Itoa (ss_dropped_breadcrumbs s) @ '' '' @
            (case ss_diagnostics s of None \<Rightarrow> [] | Some d \<Rightarrow> ''  ||  '' @ Diagnostics_Str fl d) @ nl @
            ''  -- Triggers '' @ QueueStats_Str fl (ss_queue_totals s) @ nl @ rows))"

section \<open>The priority tree\<close>

fun TreeNode_str :: "nat \<Rightarrow> TreeNode \<Rightarrow> string result" where
  "TreeNode_str indent (TreeNode ex co lo mi hi es so lf sz l r) =
     (let b = replicate indent (CHR '' '') @ ''['' @ fmt_u64 lo @ '', '' @ fmt_u64 hi @ ''] '' @
              Itoa (len es) @ '' elements ('' @ Itoa sz @ '' total)''
      in if lf then Inr (b @ ''(leaf)'')
         else
           (case l of
              None \<Rightarrow> Inl NilDeref
            | Some lc \<Rightarrow> rbind (TreeNode_str (Suc indent) lc) (\<lambda>ls.
                (case r of
                   None \<Rightarrow> Inl NilDeref
                 | Some rc \<Rightarrow> rbind (TreeNode_str (Suc indent) rc) (\<lambda>rs.
                     Inr (b @ '':'' @ nl @ ls @ nl @ rs))))))"

definition TreeNode_Str :: "TreeNode \<Rightarrow> string result" where
  "TreeNode_Str n = TreeNode_str 0 n"

section \<open>The rate flag\<close>

text \<open>The text of the flag \<^verbatim>\<open>-l\<close> (\<^verbatim>\<open>cmd/agent2/main.go\<close>).\<close>

definition triggerRateLimitFlags_String :: "'f floats \<Rightarrow> (int, 'f) gomap \<Rightarrow> string" where
  "triggerRateLimitFlags_String fl rates =
     fold (\<lambda>(trigger_id, rate) b. b @ Itoa trigger_id @ ''='' @ f_format fl 1 rate @ '' '') rates []"

section \<open>Lines\<close>

definition newlines :: "string \<Rightarrow> nat" where
  "newlines s = count_list s (CHR 0x0A)"

lemma newlines_simps [simp]:
  "newlines [] = 0" "newlines (s @ t) = newlines s + newlines t" "newlines nl = 1"
  by (simp_all add: newlines_def nl_def)

lemma newlines_char: "newlines (c # s) = (if c = CHR 0x0A then 1 else 0) + newlines s"
  by (simp add: newlines_def)

lemma newlines_digits [simp]: "newlines (digits n) = 0"
proof (induction n rule: digits.induct)
  case (1 n)
  have c: "(char_of (48 + d) :: char) \<noteq> CHR 0x0A" if "d < 10" for d :: nat
  proof
    assume "(char_of (48 + d) :: char) = CHR 0x0A"
    then have "(of_char (char_of (48 + d) :: char) :: nat) = of_char (CHR 0x0A)" by simp
    then show False using that by (simp add: of_char_of)
  qed
  show ?case using 1 c [of n] c [of "n mod 10"] by (subst digits.simps) (auto simp: newlines_char)
qed

lemma newlines_Itoa [simp]: "newlines (Itoa x) = 0" "newlines (fmt_u64 w) = 0"
  by (simp_all add: Itoa_def fmt_u64_def newlines_char)

lemma newlines_blanks [simp]: "newlines (replicate n (CHR '' '')) = 0"
  by (induction n) (simp_all add: newlines_char)

text \<open>Printing a well-formed tree succeeds and gives one line per node.\<close>

lemma TreeNode_str_lines:
  "tree_ok k n \<Longrightarrow> \<exists>s c. TreeNode_str indent n = Inr s \<and> NodeCount n = Inr c \<and> int (newlines s) + 1 = c"
proof (induction k arbitrary: n indent)
  case 0
  then have "n_isleaf n" by (auto elim: tree_ok_inner)
  then show ?case by (cases n) (auto simp: newlines_char)
next
  case (Suc k)
  obtain ex co lo mi hi es so lf sz l r where n: "n = TreeNode ex co lo mi hi es so lf sz l r" by (cases n)
  show ?case
  proof (cases lf)
    case True
    then show ?thesis by (auto simp: n newlines_char)
  next
    case False
    then have "\<not> n_isleaf n" by (simp add: n)
    with Suc.prems obtain lc rc where c: "l = Some lc" "r = Some rc" "tree_ok k lc" "tree_ok k rc"
      by (rule tree_ok_inner) (auto simp: n)
    from Suc.IH [OF c(3), of "Suc indent"] Suc.IH [OF c(4), of "Suc indent"] show ?thesis
      using False c(1,2) by (auto simp: n newlines_char)
  qed
qed

theorem TreeNode_Str_lines:
  assumes "tree_ok k n"
  shows "\<exists>s c. TreeNode_Str n = Inr s \<and> NodeCount n = Inr c \<and> int (newlines s) + 1 = c"
  using TreeNode_str_lines [OF assms, of 0] by (simp add: TreeNode_Str_def)

text \<open>The statistics that the agent computes can always be printed.\<close>

lemma stats_lines_ok: "length ids + i \<le> length queues \<Longrightarrow> \<exists>s. stats_lines fl i ids queues = Inr s"
proof (induction ids arbitrary: i)
  case (Cons a ids)
  from Cons.IH [of "Suc i"] Cons.prems show ?case by (auto simp: slice_index_def)
qed simp

theorem Stats_Str_ok:
  assumes "dm_inv (ag_dm a)" and "tm_inv (ag_tm a) (ag_dm a)"
  shows "\<exists>st a' s. calculateAgentStats fl duration_nanos debug a = Inr (st, a') \<and> Stats_Str fl st = Inr s"
proof -
  from stats_loop [OF assms, of fl duration_nanos debug] obtain st a1 where
    st: "calculateAgentStats fl duration_nanos debug a = Inr (st, a1)"
      "length (ss_queues st) = length (tm_queues (ag_tm a))" "length (ss_queue_ids st) = length (tm_queues (ag_tm a))"
    by (auto simp: ok_iff calculateAgentStats_def Let_def counted_def)
  with stats_lines_ok [of "ss_queue_ids st" 0 "ss_queues st" fl] show ?thesis by (auto simp: Stats_Str_def)
qed

end
