(* ===== verification/Experiments.thy ===== *)
theory Experiments
  imports Shm_Loops "HOL-Library.Signed_Division"
begin

text \<open>
  The drain programs of \<^verbatim>\<open>cmd/jon\<close>, which stand in for an agent in throughput experiments: each
  receives what the application completed and gives it straight back.  A run is a list of turns of the
  endless loop; the counters restart with every line that is printed.
\<close>

section \<open>Counters and printing\<close>

text \<open>A line that was printed: the throughput, and the two counters whose quotient is the average batch.\<close>

record drain_stats =
  ds_last_print :: int
  ds_cnt :: int
  ds_sum :: int
  ds_printed :: "(int \<times> int \<times> int) list"

definition print_every :: int where
  "print_every = 1000000000"

definition maybe_print :: "int \<Rightarrow> drain_stats \<Rightarrow> drain_stats" where
  "maybe_print now st =
     (if now - ds_last_print st > print_every then
        (let tput = sint (word_of_int (ds_sum st * print_every) :: 64 word) sdiv (now - ds_last_print st)
         in st\<lparr>ds_printed := ds_printed st @ [(tput, ds_sum st, ds_cnt st)], ds_last_print := now, ds_cnt := 0, ds_sum := 0\<rparr>)
      else st)"

definition count_batch :: "int \<Rightarrow> drain_stats \<Rightarrow> drain_stats" where
  "count_batch n st = st\<lparr>ds_cnt := ds_cnt st + 1, ds_sum := ds_sum st + n\<rparr>"

section \<open>Waiting for a batch\<close>

text \<open>The inner loop polls until there is something, with a growing pause.  Each poll finds the elements
  that arrived since the last one; \<open>None\<close>: still polling.\<close>

fun await_complete ::
    "(u64 \<times> int) list list \<Rightarrow> int \<Rightarrow> (u64 \<times> int) list \<Rightarrow> (CompleteBuffer list \<times> int \<times> (u64 \<times> int) list) option" where
  "await_complete [] backoff q = None"
| "await_complete (new # polls) backoff q =
     (let (buffers, q') = GetComplete (q @ new)
      in if length buffers > 0 then Some (buffers, backoff, q')
         else await_complete polls (if backoff * 2 > 100000 then 100000 else backoff * 2) q')"

record drain_state =
  dr_stats :: drain_stats
  dr_complete :: "(u64 \<times> int) list"
  dr_available :: "int list"

text \<open>One turn: the time it starts, and the polls.\<close>

type_synonym drain_turn = "int \<times> (u64 \<times> int) list list"

definition receive_turn :: "drain_turn \<Rightarrow> drain_state \<Rightarrow> (CompleteBuffer list \<times> drain_state) option" where
  "receive_turn = (\<lambda>(now, polls) st.
     case await_complete polls 10 (dr_complete st) of
       None \<Rightarrow> None
     | Some (buffers, backoff, q) \<Rightarrow>
         Some (buffers, st\<lparr>dr_stats := count_batch (int (length buffers)) (maybe_print now (dr_stats st)), dr_complete := q\<rparr>))"

section \<open>The programs\<close>

text \<open>\<^verbatim>\<open>jon.go\<close> fills the C struct by hand.  The struct starts zeroed; the loop starts at index 1.\<close>

definition jon_ids :: "CompleteBuffer list \<Rightarrow> int list" where
  "jon_ids cb =
     (let limit = length cb
      in fold (\<lambda>i ab. ab[i := cb_Buffer_id (cb ! i)]) [1..<limit] (replicate limit 0))"

definition jon_turn :: "drain_turn \<Rightarrow> drain_state \<Rightarrow> drain_state option" where
  "jon_turn t st =
     (case receive_turn t st of
        None \<Rightarrow> None
      | Some (cb, st1) \<Rightarrow> Some (st1\<lparr>dr_available := dr_available st1 @ jon_ids cb\<rparr>))"

text \<open>\<^verbatim>\<open>jon2.go\<close> uses the Go interface.\<close>

definition jon2_ids :: "CompleteBuffer list \<Rightarrow> int list" where
  "jon2_ids buffers =
     fold (\<lambda>i ids. ids[i := cb_Buffer_id (buffers ! i)]) [0..<length buffers] (replicate (length buffers) 0)"

definition jon2_turn :: "drain_turn \<Rightarrow> drain_state \<Rightarrow> drain_state option" where
  "jon2_turn t st =
     (case receive_turn t st of
        None \<Rightarrow> None
      | Some (buffers, st1) \<Rightarrow> Some (st1\<lparr>dr_available := PutAvailable (jon2_ids buffers) (dr_available st1)\<rparr>))"

fun drain_turns :: "(drain_turn \<Rightarrow> drain_state \<Rightarrow> drain_state option) \<Rightarrow> drain_turn list \<Rightarrow> drain_state \<Rightarrow> drain_state option" where
  "drain_turns turn [] st = Some st"
| "drain_turns turn (t # ts) st = Option.bind (turn t st) (drain_turns turn ts)"

text \<open>\<^verbatim>\<open>jon3.go\<close> reads the channel \<^verbatim>\<open>Complete\<close> and writes to \<^verbatim>\<open>Available\<close>; \<^verbatim>\<open>jon4.go\<close> prints breadcrumbs.  Each
  turn has its time and the batch received.\<close>

definition jon3_turn :: "int \<times> CompleteBatch \<Rightarrow> drain_stats \<times> int list list \<Rightarrow> drain_stats \<times> int list list" where
  "jon3_turn = (\<lambda>(now, batch) (st, available).
     fold (\<lambda>(_, buffer_ids) (st, available).
         (st\<lparr>ds_sum := ds_sum st + int (length buffer_ids)\<rparr>, available @ [buffer_ids]))
       batch (let st1 = maybe_print now st in st1\<lparr>ds_cnt := ds_cnt st1 + 1\<rparr>, available))"

definition jon4_turn :: "int \<times> BreadcrumbBatch \<Rightarrow> drain_stats \<times> (u64 \<times> string) list \<Rightarrow> drain_stats \<times> (u64 \<times> string) list" where
  "jon4_turn = (\<lambda>(now, batch) (st, received).
     fold (\<lambda>(trace_id, breadcrumbs) (st, received).
         (st\<lparr>ds_sum := ds_sum st + int (length breadcrumbs)\<rparr>, received @ map (Pair trace_id) breadcrumbs))
       batch (let st1 = maybe_print now st in st1\<lparr>ds_cnt := ds_cnt st1 + 1\<rparr>, received))"

section \<open>What is given back\<close>

lemma fold_update_upto:
  assumes "n \<le> length xs"
  shows "fold (\<lambda>i xs. xs[i := f i]) [m..<n] xs = map (\<lambda>i. if m \<le> i \<and> i < n then f i else xs ! i) [0..<length xs]"
  using assms
proof (induction n)
  case 0
  then show ?case by (simp add: map_nth)
next
  case (Suc n)
  show ?case
  proof (cases "m \<le> n")
    case True
    then have "fold (\<lambda>i xs. xs[i := f i]) [m..<Suc n] xs =
        (map (\<lambda>i. if m \<le> i \<and> i < n then f i else xs ! i) [0..<length xs])[n := f n]"
      using Suc by simp
    also have "\<dots> = map (\<lambda>i. if m \<le> i \<and> i < Suc n then f i else xs ! i) [0..<length xs]"
      by (rule nth_equalityI) (use True Suc.prems in \<open>auto simp: nth_list_update\<close>)
    finally show ?thesis .
  next
    case False
    then show ?thesis by (auto intro!: nth_equalityI)
  qed
qed

lemma jon2_ids_eq: "jon2_ids buffers = map cb_Buffer_id buffers"
  unfolding jon2_ids_def by (subst fold_update_upto) (auto intro!: nth_equalityI)

lemma jon_ids_eq: "cb \<noteq> [] \<Longrightarrow> jon_ids cb = 0 # map cb_Buffer_id (tl cb)"
  unfolding jon_ids_def Let_def
  by (subst fold_update_upto) (auto intro!: nth_equalityI simp: nth_Cons nth_tl split: nat.split)

text \<open>A batch is taken off the front of what is queued and what arrived; it is never empty.\<close>

lemma await_complete_takes:
  assumes "await_complete polls backoff q = Some (buffers, backoff', q')"
  shows "buffers \<noteq> [] \<and> (\<exists>used rest. polls = used @ rest \<and>
    q @ concat used = map (\<lambda>b. (cb_Request_id b, cb_Buffer_id b)) buffers @ q')"
  using assms
proof (induction polls arbitrary: backoff q)
  case (Cons new polls)
  let ?n = "min BATCHSIZE (length (q @ new))"
  have g: "GetComplete (q @ new) = (map (\<lambda>(t, b). \<lparr>cb_Request_id = t, cb_Buffer_id = b\<rparr>) (take BATCHSIZE (q @ new)),
      drop BATCHSIZE (q @ new))" by (simp add: GetComplete_def get_nonblocking_def)
  show ?case
  proof (cases "q @ new = []")
    case True
    with Cons.prems g have "await_complete polls (if backoff * 2 > 100000 then 100000 else backoff * 2) [] = Some (buffers, backoff', q')"
      by simp
    from Cons.IH [OF this] obtain used rest where "buffers \<noteq> []" "polls = used @ rest"
      "concat used = map (\<lambda>b. (cb_Request_id b, cb_Buffer_id b)) buffers @ q'" by auto
    with True have "buffers \<noteq> []" "new # polls = (new # used) @ rest"
      "q @ concat (new # used) = map (\<lambda>b. (cb_Request_id b, cb_Buffer_id b)) buffers @ q'" by simp_all
    then show ?thesis by blast
  next
    case False
    with Cons.prems g have b: "buffers = map (\<lambda>(t, b). \<lparr>cb_Request_id = t, cb_Buffer_id = b\<rparr>) (take BATCHSIZE (q @ new))"
      "q' = drop BATCHSIZE (q @ new)" by (auto simp: BATCHSIZE_def)
    then have "map (\<lambda>b. (cb_Request_id b, cb_Buffer_id b)) buffers @ q' = q @ new"
      by (simp add: comp_def case_prod_beta flip: take_append drop_append)
    moreover have "buffers \<noteq> []" using b False by (simp add: BATCHSIZE_def)
    ultimately have "buffers \<noteq> []" "new # polls = [new] @ polls"
      "q @ concat [new] = map (\<lambda>b. (cb_Request_id b, cb_Buffer_id b)) buffers @ q'" by simp_all
    then show ?thesis by blast
  qed
qed simp

lemma receive_turn_takes:
  assumes "receive_turn (now, polls) st = Some (buffers, st')"
  shows "dr_available st' = dr_available st \<and> buffers \<noteq> [] \<and> (\<exists>used rest. polls = used @ rest \<and>
    map snd (dr_complete st @ concat used) = map cb_Buffer_id buffers @ map snd (dr_complete st'))"
proof -
  obtain backoff q where a: "await_complete polls 10 (dr_complete st) = Some (buffers, backoff, q)"
    and st': "st' = st\<lparr>dr_stats := count_batch (int (length buffers)) (maybe_print now (dr_stats st)), dr_complete := q\<rparr>"
    using assms by (auto simp: receive_turn_def split: option.splits)
  from await_complete_takes [OF a] obtain used rest where "buffers \<noteq> []" "polls = used @ rest"
    and e: "dr_complete st @ concat used = map (\<lambda>b. (cb_Request_id b, cb_Buffer_id b)) buffers @ q" by blast
  moreover have "map snd (dr_complete st @ concat used) = map cb_Buffer_id buffers @ map snd q"
    unfolding e by (simp add: comp_def)
  moreover have "dr_available st' = dr_available st" "dr_complete st' = q" by (simp_all add: st')
  ultimately show ?thesis by blast
qed

text \<open>The buffers that arrived in the polls that took place, over all turns.\<close>

inductive turn_arrivals :: "drain_turn list \<Rightarrow> int multiset \<Rightarrow> bool" where
  none: "turn_arrivals [] {#}"
| some: "turn_arrivals ((now, used @ rest) # ts) (image_mset snd (mset (concat used)) + A)" if "turn_arrivals ts A"

lemma jon2_turn_keeps:
  assumes "jon2_turn (now, polls) st = Some st'"
    and range: "\<forall>p \<in> set (dr_complete st) \<union> set (concat polls). 0 \<le> snd p \<and> snd p < 2 ^ 31"
  shows "\<exists>used rest. polls = used @ rest \<and>
    mset (dr_available st) + image_mset snd (mset (dr_complete st)) + image_mset snd (mset (concat used)) =
      mset (dr_available st') + image_mset snd (mset (dr_complete st')) \<and>
    (\<forall>p \<in> set (dr_complete st'). 0 \<le> snd p \<and> snd p < 2 ^ 31)"
proof -
  obtain buffers st1 where r: "receive_turn (now, polls) st = Some (buffers, st1)"
    and st': "st' = st1\<lparr>dr_available := PutAvailable (jon2_ids buffers) (dr_available st1)\<rparr>"
    using assms(1) by (auto simp: jon2_turn_def split: option.splits)
  obtain used rest where u: "dr_available st1 = dr_available st" "polls = used @ rest"
    "map snd (dr_complete st @ concat used) = map cb_Buffer_id buffers @ map snd (dr_complete st1)"
    using receive_turn_takes [OF r] by blast
  have "0 \<le> b \<and> b < 2 ^ 31" if "b \<in> set (map snd (dr_complete st @ concat used))" for b
    using that range u(2) by auto
  then have in_range: "0 \<le> b \<and> b < 2 ^ 31" if "b \<in> set (map cb_Buffer_id buffers @ map snd (dr_complete st1))" for b
    using that unfolding u(3) by blast
  then have av: "dr_available st' = dr_available st @ map cb_Buffer_id buffers"
    by (simp add: st' u(1) jon2_ids_eq PutAvailable_exact)
  have "image_mset snd (mset (dr_complete st)) + image_mset snd (mset (concat used)) =
      mset (map snd (dr_complete st @ concat used))" by simp
  also have "\<dots> = mset (map cb_Buffer_id buffers) + image_mset snd (mset (dr_complete st1))" unfolding u(3) by simp
  finally have "mset (dr_available st) + image_mset snd (mset (dr_complete st)) + image_mset snd (mset (concat used)) =
      mset (dr_available st') + image_mset snd (mset (dr_complete st'))"
    unfolding av by (simp add: st' add.assoc)
  moreover have "\<forall>p \<in> set (dr_complete st'). 0 \<le> snd p \<and> snd p < 2 ^ 31" using in_range by (simp add: st')
  ultimately show ?thesis using u(2) by blast
qed

section \<open>Properties\<close>

text \<open>The program \<^verbatim>\<open>jon2.go\<close> gives every completed buffer back exactly once.\<close>

theorem jon2_conserves:
  assumes "drain_turns jon2_turn ts st = Some st'"
    and "\<forall>p \<in> set (dr_complete st) \<union> set (concat (concat (map snd ts))). 0 \<le> snd p \<and> snd p < 2 ^ 31"
  shows "\<exists>A. turn_arrivals ts A \<and> mset (dr_available st) + image_mset snd (mset (dr_complete st)) + A =
    mset (dr_available st') + image_mset snd (mset (dr_complete st'))"
  using assms
proof (induction ts arbitrary: st)
  case Nil
  then show ?case by (auto intro: turn_arrivals.none)
next
  case (Cons t ts)
  obtain now polls where t: "t = (now, polls)" by (cases t)
  obtain st1 where 1: "jon2_turn (now, polls) st = Some st1" "drain_turns jon2_turn ts st1 = Some st'"
    using Cons.prems(1) by (auto simp: t bind_eq_Some_conv)
  have "\<forall>p \<in> set (dr_complete st) \<union> set (concat polls). 0 \<le> snd p \<and> snd p < 2 ^ 31" using Cons.prems(2) by (auto simp: t)
  from jon2_turn_keeps [OF 1(1) this] obtain used rest where u: "polls = used @ rest"
    "mset (dr_available st) + image_mset snd (mset (dr_complete st)) + image_mset snd (mset (concat used)) =
      mset (dr_available st1) + image_mset snd (mset (dr_complete st1))"
    "\<forall>p \<in> set (dr_complete st1). 0 \<le> snd p \<and> snd p < 2 ^ 31" by blast
  have "\<forall>p \<in> set (dr_complete st1) \<union> set (concat (concat (map snd ts))). 0 \<le> snd p \<and> snd p < 2 ^ 31"
    using u(3) Cons.prems(2) by auto
  from Cons.IH [OF 1(2) this] obtain A where A: "turn_arrivals ts A"
    "mset (dr_available st1) + image_mset snd (mset (dr_complete st1)) + A =
      mset (dr_available st') + image_mset snd (mset (dr_complete st'))" by blast
  have "mset (dr_available st) + image_mset snd (mset (dr_complete st)) + (image_mset snd (mset (concat used)) + A) =
      mset (dr_available st') + image_mset snd (mset (dr_complete st'))"
    unfolding A(2) [symmetric] u(2) [symmetric] by (simp add: ac_simps)
  with turn_arrivals.some [OF A(1), of now used rest] show ?case unfolding t u(1) by blast
qed

text \<open>C40: The program \<^verbatim>\<open>jon.go\<close> does not: from every batch the first buffer is lost, and buffer 0, which some
  other thread may be writing to, is made available instead.\<close>

theorem jon_loses_first_buffer:
  assumes "jon_turn (now, polls) st = Some st'"
  shows "\<exists>used rest ids. polls = used @ rest \<and> ids \<noteq> [] \<and>
    map snd (dr_complete st @ concat used) = ids @ map snd (dr_complete st') \<and>
    dr_available st' = dr_available st @ 0 # tl ids"
proof -
  obtain cb st1 where r: "receive_turn (now, polls) st = Some (cb, st1)"
    and st': "st' = st1\<lparr>dr_available := dr_available st1 @ jon_ids cb\<rparr>"
    using assms by (auto simp: jon_turn_def split: option.splits)
  obtain used rest where u: "dr_available st1 = dr_available st" "cb \<noteq> []" "polls = used @ rest"
    "map snd (dr_complete st @ concat used) = map cb_Buffer_id cb @ map snd (dr_complete st1)"
    using receive_turn_takes [OF r] by blast
  have "dr_available st' = dr_available st @ 0 # tl (map cb_Buffer_id cb)"
    using u(1,2) by (simp add: st' jon_ids_eq map_tl)
  moreover have "map snd (dr_complete st @ concat used) = map cb_Buffer_id cb @ map snd (dr_complete st')"
    using u(4) by (simp add: st')
  ultimately show ?thesis using u(2,3) by (metis Nil_is_map_conv)
qed

theorem jon_loses_first_buffer_witness:
  "\<exists>st'. jon_turn (5, [[], [(7, 4), (9, 6)]])
      \<lparr>dr_stats = \<lparr>ds_last_print = 0, ds_cnt = 0, ds_sum = 0, ds_printed = []\<rparr>, dr_complete = [], dr_available = [1]\<rparr> = Some st' \<and>
    dr_available st' = [1, 0, 6] \<and> dr_complete st' = []"
proof -
  let ?st = "\<lparr>dr_stats = \<lparr>ds_last_print = 0, ds_cnt = 0, ds_sum = 0, ds_printed = []\<rparr>, dr_complete = [], dr_available = [1]\<rparr>"
  have e: "map_option (\<lambda>st. (dr_available st, dr_complete st)) (jon_turn (5, [[], [(7, 4), (9, 6)]]) ?st) = Some ([1, 0, 6], [])"
    by code_simp
  then obtain st' where "jon_turn (5, [[], [(7, 4), (9, 6)]]) ?st = Some st'" by auto
  with jon_loses_first_buffer [OF this] e show ?thesis by auto
qed

text \<open>The program \<^verbatim>\<open>jon3.go\<close> sends every buffer it receives back on the channel, and counts it.\<close>

lemma jon3_turn_returns:
  assumes "jon3_turn (now, batch) (st, available) = (st', available')"
  shows "concat available' = concat available @ concat (map snd batch)"
proof -
  have "concat (snd (fold (\<lambda>(_, ids) (st, available). (st\<lparr>ds_sum := ds_sum st + int (length ids)\<rparr>, available @ [ids])) batch (s, av))) =
      concat av @ concat (map snd batch)" for s av
    by (induction batch arbitrary: s av) auto
  from this [of "(maybe_print now st)\<lparr>ds_cnt := ds_cnt (maybe_print now st) + 1\<rparr>" available] assms show ?thesis
    by (simp add: jon3_turn_def Let_def)
qed

end
