(* ===== verification/Config.thy ===== *)
theory Config
  imports Go_Strings Go_Bytes
begin

text \<open>
  Configuration: the legacy configuration file (\<^verbatim>\<open>Conf_init\<close> of \<^verbatim>\<open>pkg/util/util.go\<close>), the order in
  which the three programs under \<^verbatim>\<open>cmd\<close> use command line, file and default, the flag for rate limits
  per trigger, and the byte conversions of \<^verbatim>\<open>util.go\<close>.  The file system is a function from file names
  to the lines the scanner delivers.
\<close>

section \<open>The configuration file\<close>

text \<open>The package variables of \<^verbatim>\<open>util.go\<close>.\<close>

record settings =
  Server_addr :: string
  Server_port :: string
  Coordinator_addr :: string
  Coordinator_port :: string
  Reporting_addr :: string
  Reporting_port :: string

text \<open>One assignment of the loop: the second word of the line, which has to exist.\<close>

definition assign_if :: "bool \<Rightarrow> string \<Rightarrow> (string \<Rightarrow> settings \<Rightarrow> settings) \<Rightarrow> settings \<Rightarrow> settings result" where
  "assign_if cond line put st =
     (if cond then rbind (slice_index (Split line (CHR '' '')) 1) (\<lambda>v. Inr (put v st)) else Inr st)"

definition conf_line :: "string \<Rightarrow> settings \<Rightarrow> settings result" where
  "conf_line line st =
     rbind (assign_if (Contains line ''addr'' \<and> \<not> Contains line ''lc_'' \<and> \<not> Contains line ''r_'')
       line (\<lambda>v. Server_addr_update (\<lambda>_. v)) st) (\<lambda>st.
     rbind (assign_if (Contains line ''port'' \<and> \<not> Contains line ''lc_'' \<and> \<not> Contains line ''r_'')
       line (\<lambda>v. Server_port_update (\<lambda>_. v)) st) (\<lambda>st.
     rbind (assign_if (Contains line ''lc_addr'') line (\<lambda>v. Coordinator_addr_update (\<lambda>_. v)) st) (\<lambda>st.
     rbind (assign_if (Contains line ''lc_port'') line (\<lambda>v. Coordinator_port_update (\<lambda>_. v)) st) (\<lambda>st.
     rbind (assign_if (Contains line ''r_addr'') line (\<lambda>v. Reporting_addr_update (\<lambda>_. v)) st) (\<lambda>st.
     assign_if (Contains line ''r_port'') line (\<lambda>v. Reporting_port_update (\<lambda>_. v)) st)))))"

definition Conf_init :: "(string \<Rightarrow> string list option) \<Rightarrow> string \<Rightarrow> settings \<Rightarrow> (bool \<times> settings) result" where
  "Conf_init files service_name st =
     (case (case files (''/etc/hindsight_conf/'' @ service_name @ ''.conf'') of
              Some lines \<Rightarrow> Some lines
            | None \<Rightarrow> files ''/etc/hindsight_conf/default.conf'') of
        None \<Rightarrow> Inr (False, st)
      | Some lines \<Rightarrow> rbind (rfold conf_line lines st) (\<lambda>st. Inr (True, st)))"

section \<open>Byte conversions\<close>

text \<open>The decoders index the last byte first, so a shorter slice panics.\<close>

definition Int32ToBytes :: "32 word \<Rightarrow> byte list" where
  "Int32ToBytes data = le_bytes 4 (unat data)"

definition BytesToInt32 :: "byte list \<Rightarrow> 32 word result" where
  "BytesToInt32 bys = (if length bys < 4 then Inl IndexOutOfRange else Inr (of_nat (le_nat (take 4 bys))))"

definition Int64ToBytes :: "64 word \<Rightarrow> byte list" where
  "Int64ToBytes data = le_bytes 8 (unat data)"

definition BytesToInt64 :: "byte list \<Rightarrow> 64 word result" where
  "BytesToInt64 bys = (if length bys < 8 then Inl IndexOutOfRange else Inr (of_nat (le_nat (take 8 bys))))"

section \<open>The command line\<close>

text \<open>The flag \<^verbatim>\<open>-l queue_id,rate\<close>; \<open>Inl\<close> is the error the flag package reports.  \<^verbatim>\<open>strconv.ParseFloat\<close>
  is the parameter \<open>parse_float\<close>.\<close>

datatype flag_error = InvalidRate | BadTriggerId | BadRate

definition rate_Set ::
  "(string \<Rightarrow> 'f option) \<Rightarrow> string \<Rightarrow> (int, 'f) gomap \<Rightarrow> flag_error + (int, 'f) gomap" where
  "rate_Set parse_float value rates =
     (let splits = Split value (CHR '','') in
      if length splits \<noteq> 2 then Inl InvalidRate
      else case ParseInt (splits ! 0) of
             None \<Rightarrow> Inl BadTriggerId
           | Some trigger_id \<Rightarrow>
               (case parse_float (splits ! 1) of
                  None \<Rightarrow> Inl BadRate
                | Some rate \<Rightarrow> Inr (mput trigger_id rate rates)))"

definition agent_resolveConfigValue :: "string \<Rightarrow> string \<Rightarrow> string \<Rightarrow> string" where
  "agent_resolveConfigValue value legacyconfigvalue defaultvalue =
     (if value = '''' then
        (if legacyconfigvalue = '''' \<or> legacyconfigvalue = '':'' then defaultvalue else legacyconfigvalue)
      else value)"

definition coordinator_resolveConfigValue :: "string \<Rightarrow> string \<Rightarrow> string" where
  "coordinator_resolveConfigValue value legacyconfigvalue = (if value = '''' then legacyconfigvalue else value)"

definition collector_resolveConfigValue :: "string \<Rightarrow> string \<Rightarrow> string \<Rightarrow> string" where
  "collector_resolveConfigValue value legacyconfigvalue defaultvalue =
     (if value = '''' then (if legacyconfigvalue = '''' then defaultvalue else legacyconfigvalue) else value)"

text \<open>The string flags of the agent, and what \<^verbatim>\<open>main\<close> makes of them; \<open>None\<close> is the return without a
  configuration file.\<close>

record agent_flags =
  fl_serv :: string
  fl_host :: string
  fl_port :: string
  fl_lc :: string
  fl_r :: string

definition agent_main_config ::
  "(string \<Rightarrow> string list option) \<Rightarrow> agent_flags \<Rightarrow> settings \<Rightarrow> agent_flags option result" where
  "agent_main_config files flags st =
     rbind (Conf_init files (fl_serv flags) st) (\<lambda>(isConfig, st).
       if \<not> isConfig then Inr None
       else Inr (Some (flags
         \<lparr>fl_host := agent_resolveConfigValue (fl_host flags) (Server_addr st) ''127.0.0.1'',
          fl_port := agent_resolveConfigValue (fl_port flags) (Server_port st) ''5050'',
          fl_lc := agent_resolveConfigValue (fl_lc flags) (Coordinator_addr st @ '':'' @ Coordinator_port st) ''127.0.0.1:5252'',
          fl_r := agent_resolveConfigValue (fl_r flags) (Reporting_addr st @ '':'' @ Reporting_port st) ''127.0.0.1:5253''\<rparr>)))"

text \<open>The port of the coordinator and of the collector; \<open>None\<close> is the absent flag.\<close>

definition coordinator_main_port ::
  "(string \<Rightarrow> string list option) \<Rightarrow> string option \<Rightarrow> settings \<Rightarrow> string option result" where
  "coordinator_main_port files flag st =
     (let port = (case flag of Some p \<Rightarrow> p | None \<Rightarrow> ''5252'') in
      rbind (Conf_init files ''lc'' st) (\<lambda>(isConfig, st).
        if \<not> isConfig then Inr None else Inr (Some (coordinator_resolveConfigValue port (Server_port st)))))"

definition collector_main_port ::
  "(string \<Rightarrow> string list option) \<Rightarrow> string option \<Rightarrow> settings \<Rightarrow> string option result" where
  "collector_main_port files flag st =
     (let port = (case flag of Some p \<Rightarrow> p | None \<Rightarrow> '''') in
      rbind (Conf_init files ''lc'' st) (\<lambda>(isConfig, st).
        if \<not> isConfig then Inr None
        else Inr (Some (collector_resolveConfigValue port (Reporting_port st) ''5253''))))"

section \<open>Reading the file back\<close>

text \<open>The keys of a configuration file, the line of an entry and its meaning.\<close>

datatype conf_key = Addr | Port | LcAddr | LcPort | RAddr | RPort

fun key_name :: "conf_key \<Rightarrow> string" where
  "key_name Addr = ''addr''"
| "key_name Port = ''port''"
| "key_name LcAddr = ''lc_addr''"
| "key_name LcPort = ''lc_port''"
| "key_name RAddr = ''r_addr''"
| "key_name RPort = ''r_port''"

fun put_key :: "conf_key \<Rightarrow> string \<Rightarrow> settings \<Rightarrow> settings" where
  "put_key Addr v = Server_addr_update (\<lambda>_. v)"
| "put_key Port v = Server_port_update (\<lambda>_. v)"
| "put_key LcAddr v = Coordinator_addr_update (\<lambda>_. v)"
| "put_key LcPort v = Coordinator_port_update (\<lambda>_. v)"
| "put_key RAddr v = Reporting_addr_update (\<lambda>_. v)"
| "put_key RPort v = Reporting_port_update (\<lambda>_. v)"

definition conf_entry :: "conf_key \<times> string \<Rightarrow> string" where
  "conf_entry = (\<lambda>(k, v). key_name k @ '' '' @ v)"

text \<open>A value the substring tests of the reader do not take for a key.\<close>

definition plain_value :: "string \<Rightarrow> bool" where
  "plain_value v \<longleftrightarrow> CHR '' '' \<notin> set v \<and>
     \<not> Contains v ''addr'' \<and> \<not> Contains v ''port'' \<and> \<not> Contains v ''lc_'' \<and> \<not> Contains v ''r_''"

lemma Contains_mono: "Contains v (xs @ sub @ ys) \<Longrightarrow> Contains v sub"
  unfolding Contains_iff by (metis append.assoc)

lemma plain_longer:
  assumes "plain_value v"
  shows "\<not> Contains v ''lc_addr''" "\<not> Contains v ''lc_port''" "\<not> Contains v ''r_addr''" "\<not> Contains v ''r_port''"
  using assms Contains_mono [of v "''lc_''" "''addr''" "[]"] Contains_mono [of v "''lc_''" "''port''" "[]"]
    Contains_mono [of v "''r_''" "''addr''" "[]"] Contains_mono [of v "''r_''" "''port''" "[]"]
  by (auto simp: plain_value_def)

lemma Contains_entry:
  "CHR '' '' \<notin> set sub \<Longrightarrow> Contains (conf_entry (k, v)) sub \<longleftrightarrow> Contains (key_name k) sub \<or> Contains v sub"
  by (simp add: conf_entry_def Contains_sep)

lemma key_no_space: "CHR '' '' \<notin> set (key_name k)"
  by (cases k) auto

lemma entry_second_word: "CHR '' '' \<notin> set v \<Longrightarrow> slice_index (Split (conf_entry (k, v)) (CHR '' '')) (Suc 0) = Inr v"
  by (simp add: conf_entry_def Split_append key_no_space Split_none slice_index_def)

lemma conf_line_entry:
  assumes "plain_value v"
  shows "conf_line (conf_entry (k, v)) st = Inr (put_key k v st)"
  using assms plain_longer [OF assms]
  by (cases k) (simp_all add: conf_line_def assign_if_def Contains_entry entry_second_word plain_value_def rbind_def)

lemma conf_lines_entries:
  "\<forall>(k, v) \<in> set entries. plain_value v \<Longrightarrow>
   rfold conf_line (map conf_entry entries) st = Inr (fold (\<lambda>(k, v). put_key k v) entries st)"
  by (induction entries arbitrary: st) (auto simp: conf_line_entry rbind_def)

lemma Int_bytes_roundtrip:
  "BytesToInt32 (Int32ToBytes x @ rest) = Inr x" "BytesToInt64 (Int64ToBytes y @ rest) = Inr y"
proof -
  have "unat x < 256 ^ 4" "unat y < 256 ^ 8" using unsigned_less [of x] unsigned_less [of y] by simp_all
  then show "BytesToInt32 (Int32ToBytes x @ rest) = Inr x" "BytesToInt64 (Int64ToBytes y @ rest) = Inr y"
    by (simp_all add: BytesToInt32_def Int32ToBytes_def BytesToInt64_def Int64ToBytes_def le_nat_le_bytes)
qed

text \<open>The default of the coordinator's flag is not empty, so the configuration file never decides.\<close>

lemma coordinator_default_port:
  assumes "files ''/etc/hindsight_conf/lc.conf'' = Some (map conf_entry entries)"
    and "\<forall>(k, v) \<in> set entries. plain_value v"
  shows "coordinator_main_port files None st = Inr (Some ''5252'')"
  using assms(1) conf_lines_entries [OF assms(2), of st]
  by (simp add: coordinator_main_port_def Conf_init_def rbind_def coordinator_resolveConfigValue_def)

text \<open>The collector takes the port of its flag, of the file or the default.\<close>

lemma collector_port:
  assumes "files ''/etc/hindsight_conf/lc.conf'' = Some (map conf_entry entries)"
    and "\<forall>(k, v) \<in> set entries. plain_value v"
  shows "collector_main_port files flag st = Inr (Some (case flag of
      Some (c # p) \<Rightarrow> c # p
    | _ \<Rightarrow> (let p = Reporting_port (fold (\<lambda>(k, v). put_key k v) entries st) in if p = '''' then ''5253'' else p)))"
  using assms(1) conf_lines_entries [OF assms(2), of st]
  by (simp add: collector_main_port_def Conf_init_def rbind_def collector_resolveConfigValue_def split: option.splits list.splits)

section \<open>Properties\<close>

text \<open>A configuration file made of lines \<^verbatim>\<open>key value\<close> with plain values configures the agent: each
  address is the one of the command line if it is given there, otherwise the last one of the file,
  otherwise the built-in default, and no line of the file makes the program panic.\<close>

theorem agent_configured:
  assumes "files (''/etc/hindsight_conf/'' @ fl_serv flags @ ''.conf'') = Some (map conf_entry entries)"
    and "\<forall>(k, v) \<in> set entries. plain_value v"
  shows "\<exists>st'. st' = fold (\<lambda>(k, v). put_key k v) entries st \<and>
    agent_main_config files flags st = Inr (Some (flags
      \<lparr>fl_host := (if fl_host flags \<noteq> '''' then fl_host flags
                   else if Server_addr st' \<noteq> '''' \<and> Server_addr st' \<noteq> '':'' then Server_addr st' else ''127.0.0.1''),
       fl_port := (if fl_port flags \<noteq> '''' then fl_port flags
                   else if Server_port st' \<noteq> '''' \<and> Server_port st' \<noteq> '':'' then Server_port st' else ''5050''),
       fl_lc := (if fl_lc flags \<noteq> '''' then fl_lc flags
                 else if Coordinator_addr st' = '''' \<and> Coordinator_port st' = '''' then ''127.0.0.1:5252''
                 else Coordinator_addr st' @ '':'' @ Coordinator_port st'),
       fl_r := (if fl_r flags \<noteq> '''' then fl_r flags
                else if Reporting_addr st' = '''' \<and> Reporting_port st' = '''' then ''127.0.0.1:5253''
                else Reporting_addr st' @ '':'' @ Reporting_port st')\<rparr>))"
proof -
  let ?st' = "fold (\<lambda>(k, v). put_key k v) entries st"
  have "Conf_init files (fl_serv flags) st = Inr (True, ?st')"
    using assms(1) conf_lines_entries [OF assms(2)] by (simp add: Conf_init_def rbind_def)
  then show ?thesis by (auto simp: agent_main_config_def agent_resolveConfigValue_def rbind_def append_eq_Cons_conv)
qed

theorem agent_configured_witness:
  "agent_main_config (\<lambda>f. if f = ''/etc/hindsight_conf/web.conf'' then Some [''addr 10.0.0.7'', ''lc_addr 10.0.0.9'', ''lc_port 5252''] else None)
     \<lparr>fl_serv = ''web'', fl_host = '''', fl_port = ''6000'', fl_lc = '''', fl_r = ''''\<rparr>
     \<lparr>Server_addr = '''', Server_port = '''', Coordinator_addr = '''', Coordinator_port = '''', Reporting_addr = '''', Reporting_port = ''''\<rparr> =
   Inr (Some \<lparr>fl_serv = ''web'', fl_host = ''10.0.0.7'', fl_port = ''6000'', fl_lc = ''10.0.0.9:5252'', fl_r = ''127.0.0.1:5253''\<rparr>)"
  using agent_configured [of "\<lambda>f. if f = ''/etc/hindsight_conf/web.conf'' then Some [''addr 10.0.0.7'', ''lc_addr 10.0.0.9'', ''lc_port 5252''] else None"
      "\<lparr>fl_serv = ''web'', fl_host = '''', fl_port = ''6000'', fl_lc = '''', fl_r = ''''\<rparr>"
      "[(Addr, ''10.0.0.7''), (LcAddr, ''10.0.0.9''), (LcPort, ''5252'')]"
      "\<lparr>Server_addr = '''', Server_port = '''', Coordinator_addr = '''', Coordinator_port = '''', Reporting_addr = '''', Reporting_port = ''''\<rparr>"]
  by (simp add: conf_entry_def plain_value_def)

text \<open>The reader takes a value for a key: a server address that contains \<^verbatim>\<open>r_\<close>, as in
  \<^verbatim>\<open>worker_1\<close>, is ignored and the agent falls back to the loopback address, and a line that has a key
  and no value makes the program panic.\<close>

theorem underscore_address_ignored:
  "conf_line ''addr worker_1'' st = Inr st \<and>
   agent_main_config (\<lambda>f. Some [''addr worker_1'']) \<lparr>fl_serv = s, fl_host = '''', fl_port = p, fl_lc = lc, fl_r = r\<rparr>
     \<lparr>Server_addr = '''', Server_port = '''', Coordinator_addr = '''', Coordinator_port = '''', Reporting_addr = '''', Reporting_port = ''''\<rparr> =
   agent_main_config (\<lambda>f. Some []) \<lparr>fl_serv = s, fl_host = ''127.0.0.1'', fl_port = p, fl_lc = lc, fl_r = r\<rparr>
     \<lparr>Server_addr = '''', Server_port = '''', Coordinator_addr = '''', Coordinator_port = '''', Reporting_addr = '''', Reporting_port = ''''\<rparr> \<and>
   Conf_init (\<lambda>f. Some [''addr'']) s st = Inl IndexOutOfRange"
  by (simp add: conf_line_def assign_if_def rbind_def agent_main_config_def Conf_init_def agent_resolveConfigValue_def slice_index_def)

text \<open>The flag \<^verbatim>\<open>-l id,rate\<close> stores the rate under the id for every 64-bit id and every rate text
  without a comma the float parser accepts; a text with another number of commas is refused.\<close>

theorem rate_flag_roundtrip:
  assumes "- (2 ^ 63) \<le> trigger_id" and "trigger_id < 2 ^ 63"
    and "parse_float rate_text = Some rate" and "CHR '','' \<notin> set rate_text"
  shows "rate_Set parse_float (Itoa trigger_id @ '','' @ rate_text) rates = Inr (mput trigger_id rate rates) \<and>
    rate_Set parse_float rate_text rates = Inl InvalidRate \<and>
    rate_Set parse_float (Itoa trigger_id @ '','' @ rate_text @ '','' @ rest) rates = Inl InvalidRate"
  using ParseInt_Itoa [OF assms(1,2)] assms(3,4) comma_not_digit [of trigger_id]
  by (cases "Split rest (CHR '','')") (simp_all add: rate_Set_def Split_append Split_none)

theorem rate_flag_roundtrip_witness:
  "rate_Set (\<lambda>t. if t = ''1.5'' then Some (15 :: int) else None) (Itoa 7 @ '','' @ ''1.5'') [] = Inr (mput 7 15 [])"
  using rate_flag_roundtrip [of 7 "\<lambda>t. if t = ''1.5'' then Some (15 :: int) else None" "''1.5''" 15 "[]" "[]"] by simp

end
