(* ===== verification/Spec2Isabelle.thy ===== *)
theory Spec2Isabelle
  imports Buffer_Cycle Delayer Connections Collector_Run Coord_Logger Server_History Shutdown Agent_Life Printing Experiments Config
begin

text \<open>
  \<^bold>\<open>Hindsight: the Go programs under src/agent.\<close>

  Hindsight collects traces lazily.  An application writes trace data into buffers in shared memory; an
  \<^emph>\<open>agent\<close> beside it indexes them and forgets the oldest ones, until a \<^emph>\<open>trigger\<close> asks for a trace.  The
  \<^emph>\<open>coordinator\<close> learns from the agents of triggers and of \<^emph>\<open>breadcrumbs\<close> (addresses of other agents that
  have a part of a trace) and forwards each trigger to the agents concerned.  Agents then send the
  triggered buffers to the \<^emph>\<open>collector\<close>, which stores them in a file.  The development models the three
  programs component by component and states what each of them and their composition achieve.

  \<^bold>\<open>Foundations.\<close>
  \<^item> \<open>Hs_Prelude\<close>: the types of the model; the result type in which a panic, a \<^verbatim>\<open>log.Fatal\<close> and an
    endless loop are values, and the calculus \<open>ok\<close> of total correctness for it; Go maps as association
    lists with distinct keys; sums over maps.
  \<^item> \<open>Go_List\<close> (\<^verbatim>\<open>container/list\<close>; the locale \<open>element_list\<close> holds the laws its clients use), \<open>Go_Chan\<close>
    (buffered channels), \<open>Go_Bytes\<close> (little-endian integers), \<open>Go_Strings\<close> (\<^verbatim>\<open>strings\<close>, \<^verbatim>\<open>strconv\<close>),
    \<open>Byte_Stream\<close> (connections and files that take or deliver bytes in arbitrary pieces and may fail; the
    locale \<open>frame_reader\<close> of length-prefixed messages, interpreted for connections and for files),
    \<open>Rate_Limit\<close> (the token bucket of \<^verbatim>\<open>github.com/juju/ratelimit\<close>, a parameter).

  \<^bold>\<open>The agent\<close> (\<^verbatim>\<open>pkg/agent\<close>, \<^verbatim>\<open>pkg/util\<close>, \<^verbatim>\<open>pkg/memory\<close>).
  \<^item> \<open>Priority_Tree\<close> (\<^verbatim>\<open>partialprioritytree.go\<close>): the partially sorted tree of pending reports.  \<open>PopMin\<close> is a
    partial function; the locale \<open>priority_queue\<close> is its contract; it returns the minimum, drains a tree in sorted order, and diverges on ten equal ids.
  \<^item> \<open>Agent_State\<close>, \<open>Agent_Invariant\<close> (the structs of \<^verbatim>\<open>datamanager.go\<close>, \<^verbatim>\<open>trace.go\<close>, \<^verbatim>\<open>firedtrigger.go\<close>,
    \<^verbatim>\<open>triggerqueue.go\<close>): objects shared by pointers live in three heaps; \<open>dm_inv\<close> ties the pointers, the
    lists, the trees and all counters together and does not depend on the order of maps.
  \<^item> \<open>Trace_Machine\<close>, \<open>Trace_Correct\<close> (\<^verbatim>\<open>trace.go\<close>), \<open>Fired_Lemmas\<close>, \<open>Fired_Trigger\<close> (\<^verbatim>\<open>firedtrigger.go\<close>),
    \<open>Trigger_Queue\<close> (\<^verbatim>\<open>triggerqueue.go\<close>), \<open>Data_Manager\<close> (\<^verbatim>\<open>datamanager.go\<close>): one definition per method of
    each state of the two state machines; each keeps \<open>dm_inv\<close>, returns, and neither loses nor duplicates a
    buffer; what eviction, triggering, reporting and the idle timeout do to which object.
  \<^item> \<open>Trigger_Manager\<close> (\<^verbatim>\<open>triggermanager.go\<close>): fair choice of the next queue, collection of a batch.
  \<^item> \<open>Shm_Api\<close>, \<open>Shm_Loops\<close> (\<^verbatim>\<open>memory.go\<close>): batching, buffer headers, the four goroutines with their backoff;
    the locale \<open>batch_source\<close> carries their common laws and is interpreted for buffers, triggers and
    breadcrumbs.
  \<^item> \<open>Agent_Loop\<close> (\<^verbatim>\<open>agent.go\<close>): all handlers and the processing loop as a step relation that also lets the
    other goroutines take from the channels and Go reorder its maps; in every reachable state the invariant
    holds, every handler returns, and every buffer is accounted for exactly once.
  \<^item> \<open>Delayer\<close> (\<^verbatim>\<open>delayer.go\<close>), \<open>Reporting\<close> (\<^verbatim>\<open>reporting.go\<close>), \<open>Agent_Coord\<close> (\<^verbatim>\<open>coordinator.go\<close>).
  \<^item> \<open>Metrics\<close> (\<^verbatim>\<open>metrics.go\<close>) and \<open>Telemetry\<close> (\<^verbatim>\<open>pkg/telemetry\<close>): counters, rows, receivers and the CSV file;
    \<open>Printing\<close> (\<^verbatim>\<open>print.go\<close>, the \<^verbatim>\<open>Str\<close> methods): what is printed of the state and the statistics.
  \<^item> \<open>Buffer_Cycle\<close> (\<^verbatim>\<open>Run\<close> of \<^verbatim>\<open>agent.go\<close> and \<^verbatim>\<open>memory.go\<close>): the whole agent process beside the application, as a
    step relation of its goroutines, with the places of every buffer of the pool as its state.  Each buffer is
    always in exactly one place, no queue overflows, and the goroutines can always pass on what they hold.
  \<^item> \<open>Agent_Life\<close> (the same \<^verbatim>\<open>Run\<close> methods and that of \<^verbatim>\<open>coordinator.go\<close>): start and end of the goroutines.

  \<^bold>\<open>The coordinator\<close> (\<^verbatim>\<open>pkg/coordinator\<close>, \<^verbatim>\<open>pkg/datapb\<close>).
  \<^item> \<open>Messages\<close>: the protobuf messages and the loop that reports messages in batches.
  \<^item> \<open>Coord_State\<close>, \<open>Coord_Correct\<close>, \<open>Coord_Refine\<close> (\<^verbatim>\<open>coordinator.go\<close>): traces and triggers as heap objects; the
    invariant; an abstract coordinator of sets that the operations refine; exact expiration.
  \<^item> \<open>Coord_Server\<close>, \<open>Server_Correct\<close> (\<^verbatim>\<open>server.go\<close>): RPC handlers and main goroutine; every request is answered.
  \<^item> \<open>Server_History\<close>: over all runs of the server, every trigger it queues for an agent was reported to it.
  \<^item> \<open>Coord_Logger\<close> (\<^verbatim>\<open>logger.go\<close>): the log of finished triggers.
  \<^item> \<open>Shutdown\<close> (\<^verbatim>\<open>Run\<close>, \<^verbatim>\<open>runServer\<close>, \<^verbatim>\<open>cmd/coordinator\<close>): the order in which the goroutines end after a signal,
    with the timers of the process and of the calls that are still open.

  \<^bold>\<open>The collector\<close> (\<^verbatim>\<open>pkg/collector\<close>): \<open>Collector\<close> (connections, trace file and its reader) and
  \<open>Collector_Run\<close> (its goroutines as a step relation).

  \<^bold>\<open>Experiments\<close> (\<^verbatim>\<open>cmd/jon\<close>): the drain loops that stand in for an agent in throughput measurements.

  \<^bold>\<open>Composition.\<close>  \<open>Report_Path\<close>: from the agent's pool over a connection to the collector.
  \<open>Dissemination\<close>: a trigger from one agent to another, breadcrumbs from encoding to decoding.
  \<open>Connections\<close>: the same over broken connections and new dials; the locale \<open>noted_channel\<close> is the contract
  between a channel and the requests made for it.  \<open>Config\<close> (\<^verbatim>\<open>util.go\<close>, \<^verbatim>\<open>cmd\<close>): configuration file and flags.

  \<^bold>\<open>Correspondence.\<close>  Definitions have the names of the Go functions, with a prefix where two Go types have a
  method of the same name.  A Go loop is recursion: structural, with a measure, or
  \<^theory_text>\<open>partial_function (option)\<close> where it may not end, and then theorems state that it does.  No fuel is
  used.  A goroutine that runs for ever takes the list of what its \<^verbatim>\<open>select\<close> finds; such a list describes a
  run up to a point in time, and the theorems hold for all lists.  Each reading of the clock is an
  argument.  Ids, message fields and buffer headers keep their width; counters of objects in memory are
  mathematical integers, with wrap-around written out where the metrics multiply them.

  \<^bold>\<open>Parameters.\<close>  The token bucket, gRPC clients, \<^verbatim>\<open>float64\<close> arithmetic of the metrics, \<^verbatim>\<open>strconv.ParseFloat\<close>,
  the C queues behind cgo (lists of pending elements), \<^verbatim>\<open>GracefulStop\<close>, the network and the file system.

  \<^bold>\<open>Not modelled.\<close>  The signal handling of the agent, which is the same as that of the coordinator, and the rest of the
  \<^verbatim>\<open>main\<close> functions, which only parse flags or start the component;
  \<^verbatim>\<open>AgentAPI.Init\<close>, which attaches to C structs; generated protobuf and gRPC code;
  \<^verbatim>\<open>linkedpartialprioritytree.go\<close>, which is commented out; the unused queue structs of \<^verbatim>\<open>util.go\<close>; data races
  between goroutines, which the findings name.
\<close>

end
